(* ===== verification/Prelude.thy ===== *)
theory Prelude
  imports Main
    "HOL-Library.Word"
    "HOL-Library.Char_ord"
    "HOL-Library.List_Lexorder"
    "HOL-Library.AList"
    "HOL-Library.Multiset"
begin

text \<open>
  Shared vocabulary of the development: names for the machine types of the C++ code, the
  collections of rewrite rules that the component theories fill and use, and generic lemmas on
  lists, association lists and words.

  A \<^verbatim>\<open>std::string\<close> is a \<^typ>\<open>string\<close>, a list of bytes; the order of \<^verbatim>\<open>Char_ord\<close> and
  \<^verbatim>\<open>List_Lexorder\<close> is the order of \<^verbatim>\<open>std::string::compare\<close> (unsigned bytes, lexicographic, a
  proper prefix first).  Unsigned integers are words of their width.
\<close>

unbundle bit_operations_syntax

type_synonym u8 = "8 word"
type_synonym u16 = "16 word"
type_synonym u32 = "32 word"
type_synonym u64 = "64 word"

named_theorems text_rules \<open>evaluation and round trips of the text formats\<close>
named_theorems fs_rules \<open>effect of the file operations\<close>
named_theorems store_rules \<open>effect of the store operations on single fields\<close>

section \<open>Lists\<close>

lemma takeWhile_append_stop:
  "\<lbrakk>\<forall>x\<in>set xs. P x; \<not> P y\<rbrakk> \<Longrightarrow> takeWhile P (xs @ y # ys) = xs"
  by (induction xs) auto

lemma dropWhile_append_stop:
  "\<lbrakk>\<forall>x\<in>set xs. P x; \<not> P y\<rbrakk> \<Longrightarrow> dropWhile P (xs @ y # ys) = y # ys"
  by (induction xs) auto

lemma takeWhile_neq_append [simp]: "c \<notin> set xs \<Longrightarrow> takeWhile (\<lambda>x. x \<noteq> c) (xs @ c # ys) = xs"
  by (induction xs) auto

lemma dropWhile_neq_append [simp]: "c \<notin> set xs \<Longrightarrow> dropWhile (\<lambda>x. x \<noteq> c) (xs @ c # ys) = c # ys"
  by (induction xs) auto

lemma takeWhile_neq_id [simp]: "c \<notin> set xs \<Longrightarrow> takeWhile (\<lambda>x. x \<noteq> c) xs = xs"
  by (induction xs) auto

lemma dropWhile_neq_Nil [simp]: "c \<notin> set xs \<Longrightarrow> dropWhile (\<lambda>x. x \<noteq> c) xs = []"
  by (induction xs) auto

lemma dropWhile_id: "xs = [] \<or> \<not> P (hd xs) \<Longrightarrow> dropWhile P xs = xs"
  by (cases xs) auto

lemma length_dropWhile_less:
  "xs \<noteq> [] \<Longrightarrow> length (drop (Suc 0) (dropWhile P xs)) < length xs"
  using length_dropWhile_le [of P xs] by (cases xs) auto

lemma last_filter_append:
  "filter P (xs @ [x]) = (if P x then filter P xs @ [x] else filter P xs)"
  by simp

section \<open>Association lists with distinct or sorted keys\<close>

text \<open>Keys in strictly increasing order: what iterating a \<^verbatim>\<open>std::map\<close> shows.\<close>

abbreviation sorted_keys :: "('k::linorder \<times> 'v) list \<Rightarrow> bool" where
  "sorted_keys es \<equiv> sorted_wrt (<) (map fst es)"

lemma sorted_keys_distinct: "sorted_keys es \<Longrightarrow> distinct (map fst es)"
  using strict_sorted_iff by blast

lemma sorted_keys_ConsD:
  "sorted_keys ((k, v) # es) \<Longrightarrow> sorted_keys es \<and> (\<forall>k'\<in>set (map fst es). k < k')"
  by simp

lemma map_of_above: "(\<And>k'. k' \<in> fst ` set es \<Longrightarrow> k < k') \<Longrightarrow> map_of es (k::'k::linorder) = None"
  by (auto simp: map_of_eq_None_iff)

lemma map_of_eqI:
  "\<lbrakk>distinct (map fst es); (k, v) \<in> set es\<rbrakk> \<Longrightarrow> map_of es k = Some v"
  by simp

section \<open>Words\<close>

lemma unat_u32_less: "unat (x :: u32) < 2 ^ 32"
proof -
  have "unat x < 2 ^ LENGTH(32)" by (rule unsigned_less)
  then show ?thesis by simp
qed

lemma unat_u64_less: "unat (x :: u64) < 2 ^ 64"
proof -
  have "unat x < 2 ^ LENGTH(64)" by (rule unsigned_less)
  then show ?thesis by simp
qed

lemma unat_mod_u32 [simp]: "unat (x :: u32) mod 4294967296 = unat x"
  using unat_u32_less [of x] by simp

lemma unat_mod_u64 [simp]: "unat (x :: u64) mod 18446744073709551616 = unat x"
  using unat_u64_less [of x] by simp

text \<open>Counters that do not wrap around.\<close>

lemma unat_add_u64: "unat (n :: u64) + j < 2 ^ 64 \<Longrightarrow> unat (n + word_of_nat j) = unat n + j"
  by (simp add: unat_word_ariths unsigned_of_nat take_bit_nat_eq_self)

lemma unat_Suc_u64: "unat (n :: u64) + 1 < 2 ^ 64 \<Longrightarrow> unat (n + 1) = unat n + 1"
  using unat_add_u64 [of n 1] by simp

lemma less_Suc_u64: "unat (n :: u64) + 1 < 2 ^ 64 \<Longrightarrow> i < n + 1 \<longleftrightarrow> i \<le> n"
  using unat_Suc_u64 [of n] by (auto simp: word_less_nat_alt word_le_nat_alt)

section \<open>Sequences of self-delimiting records\<close>

text \<open>
  A decoder that reads one record from the front of a byte string and returns the rest, run until it
  fails.  The check that the rest is shorter is what makes the loop end for any decoder.
\<close>

function decode_all :: "(string \<Rightarrow> ('a \<times> string) option) \<Rightarrow> string \<Rightarrow> 'a list" where
  "decode_all dec s =
     (case dec s of
        None \<Rightarrow> []
      | Some (x, r) \<Rightarrow> if length r < length s then x # decode_all dec r else [])"
  by pat_completeness auto
termination
  by (relation "measure (length \<circ> snd)") auto

declare decode_all.simps [simp del]

text \<open>
  The contract of a record format: a record decodes to itself whatever follows it, and no proper
  prefix of a record decodes to anything.
\<close>

locale record_format =
  fixes enc :: "'a \<Rightarrow> string"
    and dec :: "string \<Rightarrow> ('a \<times> string) option"
    and ok :: "'a \<Rightarrow> bool"
  assumes dec_enc: "ok x \<Longrightarrow> dec (enc x @ r) = Some (x, r)"
    and dec_torn: "\<lbrakk>ok x; n < length (enc x)\<rbrakk> \<Longrightarrow> dec (take n (enc x)) = None"
    and enc_nonempty: "ok x \<Longrightarrow> enc x \<noteq> []"
begin

lemma decode_all_enc: "ok x \<Longrightarrow> decode_all dec (enc x @ r) = x # decode_all dec r"
  using enc_nonempty [of x] by (subst decode_all.simps) (simp add: dec_enc)

lemma decode_all_concat:
  "\<forall>x\<in>set xs. ok x \<Longrightarrow> decode_all dec (concat (map enc xs) @ r) = xs @ decode_all dec r"
  by (induction xs) (simp_all add: decode_all_enc)

lemma decode_all_stop: "dec r = None \<Longrightarrow> decode_all dec r = []"
  by (subst decode_all.simps) simp

text \<open>A log cut at an arbitrary byte decodes to the records that lie entirely before the cut.\<close>

lemma decode_all_cut:
  assumes "\<forall>x\<in>set xs. ok x"
  shows "\<exists>j. decode_all dec (take n (concat (map enc xs))) = take j xs
           \<and> (\<forall>i\<le>length xs. i \<le> j \<longleftrightarrow> length (concat (map enc (take i xs))) \<le> n)"
  using assms
proof (induction xs arbitrary: n)
  case Nil
  show ?case
    by (intro exI [of _ 0]) (subst decode_all.simps, auto split: option.splits)
next
  case (Cons x xs)
  show ?case
  proof (cases "length (enc x) \<le> n")
    case True
    from Cons obtain j where j: "decode_all dec (take (n - length (enc x)) (concat (map enc xs))) = take j xs"
      "\<forall>i\<le>length xs. i \<le> j \<longleftrightarrow> length (concat (map enc (take i xs))) \<le> n - length (enc x)"
      by (metis list.set_intros(2))
    have "decode_all dec (take n (concat (map enc (x # xs)))) = take (Suc j) (x # xs)"
      using True j(1) Cons.prems by (simp add: decode_all_enc)
    moreover have "\<forall>i\<le>length (x # xs). i \<le> Suc j \<longleftrightarrow> length (concat (map enc (take i (x # xs)))) \<le> n"
    proof (intro allI impI)
      fix i assume "i \<le> length (x # xs)"
      then show "i \<le> Suc j \<longleftrightarrow> length (concat (map enc (take i (x # xs)))) \<le> n"
        using True j(2) by (cases i) (auto simp: le_diff_conv2 add.commute)
    qed
    ultimately show ?thesis by blast
  next
    case False
    then have "take n (concat (map enc (x # xs))) = take n (enc x)" by simp
    moreover have "dec (take n (enc x)) = None"
      using False Cons.prems by (intro dec_torn) simp_all
    ultimately have "decode_all dec (take n (concat (map enc (x # xs)))) = take 0 (x # xs)"
      by (simp only: decode_all_stop take_0)
    moreover have "\<forall>i\<le>length (x # xs). i \<le> 0 \<longleftrightarrow> length (concat (map enc (take i (x # xs)))) \<le> n"
    proof (intro allI impI)
      fix i show "i \<le> 0 \<longleftrightarrow> length (concat (map enc (take i (x # xs)))) \<le> n"
        using False by (cases i) auto
    qed
    ultimately show ?thesis by blast
  qed
qed

end

section \<open>Sums and short lists\<close>

lemma sum_list_bound: "\<forall>x \<in> set xs. f x \<le> (c :: nat) \<Longrightarrow> sum_list (map f xs) \<le> length xs * c"
  by (induction xs) (auto simp: add_mono)

lemma two_keys: "\<lbrakk>distinct xs; set xs = {a, b}; a \<noteq> b\<rbrakk> \<Longrightarrow> xs = [a, b] \<or> xs = [b, a]"
proof -
  assume d: "distinct xs" and s: "set xs = {a, b}" and "a \<noteq> b"
  then have "length xs = 2" using distinct_card [OF d] by simp
  then obtain x y where "xs = [x, y]" by (metis length_0_conv length_Suc_conv numeral_2_eq_2)
  with d s show ?thesis by (auto simp: doubleton_eq_iff)
qed

end
