(* ===== verification/Cxx_Text.thy ===== *)
theory Cxx_Text
  imports Prelude
begin

text \<open>
  The part of the C++ standard library's text handling that the store's file formats rest on:
  \<^verbatim>\<open>std::getline\<close> over a file, formatted extraction \<^verbatim>\<open>in >> x\<close> from a string stream for strings,
  characters and unsigned integers (skip white space, then read), \<^verbatim>\<open>std::to_string\<close> and
  \<^verbatim>\<open>operator<<\<close> for unsigned integers, \<^verbatim>\<open>std::stoull\<close>, and the searches \<^verbatim>\<open>find\<close>, \<^verbatim>\<open>rfind\<close> and
  \<^verbatim>\<open>find_last_of\<close> of \<^verbatim>\<open>std::string\<close>.  An extraction returns the value and the rest of the stream,
  or \<^const>\<open>None\<close> when it sets \<^verbatim>\<open>failbit\<close>.
\<close>

section \<open>White space and lines\<close>

abbreviation NL :: char where "NL \<equiv> CHR 0x0A"
abbreviation TAB :: char where "TAB \<equiv> CHR 0x09"

definition is_space :: "char \<Rightarrow> bool" where
  "is_space c \<longleftrightarrow> c \<in> set [CHR '' '', TAB, NL, CHR 0x0B, CHR 0x0C, CHR 0x0D]"

definition skip_ws :: "string \<Rightarrow> string" where
  "skip_ws s = dropWhile is_space s"

text \<open>The sequence of lines that \<^verbatim>\<open>while (std::getline(in, line))\<close> visits: a last line with no
  newline counts when it is not empty.\<close>

function getlines :: "string \<Rightarrow> string list" where
  "getlines [] = []"
| "getlines (c # s) =
     takeWhile (\<lambda>x. x \<noteq> NL) (c # s) # getlines (drop (Suc 0) (dropWhile (\<lambda>x. x \<noteq> NL) (c # s)))"
  by pat_completeness auto
termination
  by (relation "measure length") (simp_all only: in_measure wf_measure length_dropWhile_less list.distinct not_False_eq_True)

text \<open>The same loop, recording \<^verbatim>\<open>in.tellg()\<close> before each line.\<close>

function getlines_at :: "nat \<Rightarrow> string \<Rightarrow> (nat \<times> string) list" where
  "getlines_at off [] = []"
| "getlines_at off (c # s) =
     (let l = takeWhile (\<lambda>x. x \<noteq> NL) (c # s)
      in (off, l) # getlines_at (off + length l + 1)
                      (drop (Suc 0) (dropWhile (\<lambda>x. x \<noteq> NL) (c # s))))"
  by pat_completeness auto
termination
  by (relation "measure (length \<circ> snd)")
    (simp_all only: in_measure wf_measure comp_apply snd_conv length_dropWhile_less list.distinct
      not_False_eq_True)

lemma getlines_line [text_rules]:
  "NL \<notin> set l \<Longrightarrow> getlines (l @ NL # s) = l # getlines s"
  by (cases l) auto

lemma getlines_at_line [text_rules]:
  "NL \<notin> set l \<Longrightarrow> getlines_at off (l @ NL # s) = (off, l) # getlines_at (off + length l + 1) s"
  by (cases l) (auto simp: Let_def)

lemma getlines_unterminated: "\<lbrakk>NL \<notin> set l; l \<noteq> []\<rbrakk> \<Longrightarrow> getlines l = [l]"
  by (cases l) auto

lemma map_snd_getlines_at: "map snd (getlines_at off s) = getlines s"
  by (induction off s rule: getlines_at.induct) (auto simp: Let_def)

text \<open>A file written as a sequence of lines is read back as that sequence.\<close>

definition put_lines :: "string list \<Rightarrow> string" where
  "put_lines ls = concat (map (\<lambda>l. l @ [NL]) ls)"

lemma put_lines_simps [simp]:
  "put_lines [] = []"
  "put_lines (l # ls) = l @ NL # put_lines ls"
  "put_lines (ls @ ms) = put_lines ls @ put_lines ms"
  by (simp_all add: put_lines_def)

lemma getlines_put_lines [text_rules]:
  "\<forall>l\<in>set ls. NL \<notin> set l \<Longrightarrow> getlines (put_lines ls) = ls"
  by (induction ls) (auto simp: getlines_line)

section \<open>Unsigned decimal numbers\<close>

definition digit_char :: "nat \<Rightarrow> char" where
  "digit_char d = char_of (48 + d)"

definition is_digit :: "char \<Rightarrow> bool" where
  "is_digit c \<longleftrightarrow> 48 \<le> (of_char c :: nat) \<and> (of_char c :: nat) \<le> 57"

definition digit_val :: "char \<Rightarrow> nat" where
  "digit_val c = of_char c - 48"

text \<open>\<^verbatim>\<open>std::to_string\<close> and \<^verbatim>\<open>operator<<\<close> on an unsigned integer.\<close>

fun show_nat :: "nat \<Rightarrow> string" where
  "show_nat n = (if n < 10 then [digit_char n] else show_nat (n div 10) @ [digit_char (n mod 10)])"

declare show_nat.simps [simp del]

definition digits_val :: "string \<Rightarrow> nat" where
  "digits_val ds = foldl (\<lambda>a c. 10 * a + digit_val c) 0 ds"

lemma digit_char_props [simp]:
  assumes "d < 10"
  shows "is_digit (digit_char d)" "digit_val (digit_char d) = d"
  using assms by (simp_all add: is_digit_def digit_val_def digit_char_def)

lemma is_digit_not_space: "is_digit c \<Longrightarrow> \<not> is_space c"
  by (auto simp: is_digit_def is_space_def)

lemma show_nat_digits: "c \<in> set (show_nat n) \<Longrightarrow> is_digit c"
proof (induction n rule: show_nat.induct)
  case (1 n)
  show ?case
  proof (cases "n < 10")
    case True
    with 1 show ?thesis by (simp add: show_nat.simps [of n])
  next
    case False
    with 1 show ?thesis by (auto simp: show_nat.simps [of n])
  qed
qed

lemma show_nat_nonempty [simp]: "show_nat n \<noteq> []"
  by (subst show_nat.simps) simp

lemma digits_val_show_nat [text_rules]: "digits_val (show_nat n) = n"
proof (induction n rule: show_nat.induct)
  case (1 n)
  show ?case
  proof (cases "n < 10")
    case True
    then show ?thesis by (simp add: show_nat.simps [of n] digits_val_def)
  next
    case False
    with 1 show ?thesis
      by (simp add: show_nat.simps [of n] digits_val_def)
  qed
qed

lemma show_nat_inject [simp]: "show_nat m = show_nat n \<longleftrightarrow> m = n"
  by (metis digits_val_show_nat)

lemma show_nat_no_space: "c \<in> set (show_nat n) \<Longrightarrow> \<not> is_space c"
  using show_nat_digits is_digit_not_space by blast

lemma show_nat_no_sep [simp]:
  "NL \<notin> set (show_nat n)" "TAB \<notin> set (show_nat n)" "CHR '':'' \<notin> set (show_nat n)"
  "CHR ''-'' \<notin> set (show_nat n)" "CHR ''+'' \<notin> set (show_nat n)" "CHR ''.'' \<notin> set (show_nat n)"
  by (auto dest!: show_nat_digits simp: is_digit_def)

section \<open>Formatted extraction\<close>

definition ext_string :: "string \<Rightarrow> (string \<times> string) option" where
  "ext_string s =
     (let r = skip_ws s in
      if r = [] then None
      else Some (takeWhile (\<lambda>c. \<not> is_space c) r, dropWhile (\<lambda>c. \<not> is_space c) r))"

definition ext_char :: "string \<Rightarrow> (char \<times> string) option" where
  "ext_char s = (case skip_ws s of [] \<Rightarrow> None | c # r \<Rightarrow> Some (c, r))"

text \<open>
  Reading an unsigned integer of 64 bits in base ten: an optional sign, then digits.  No digit or a
  magnitude of \<open>2 ^ 64\<close> or more sets \<^verbatim>\<open>failbit\<close>; a minus sign negates modulo \<open>2 ^ 64\<close>.
\<close>

definition sign_split :: "string \<Rightarrow> bool \<times> string" where
  "sign_split s =
     (case s of
        [] \<Rightarrow> (False, [])
      | c # r \<Rightarrow> if c = CHR ''-'' then (True, r) else if c = CHR ''+'' then (False, r) else (False, s))"

definition ext_u64 :: "string \<Rightarrow> (u64 \<times> string) option" where
  "ext_u64 s =
     (let (neg, r) = sign_split (skip_ws s);
          ds = takeWhile is_digit r;
          n = digits_val ds
      in if ds = [] \<or> 2 ^ 64 \<le> n then None
         else Some (if neg then - word_of_nat n else word_of_nat n, dropWhile is_digit r))"

text \<open>\<^verbatim>\<open>std::stoull\<close>: the same reading; text after the number is ignored, \<^const>\<open>None\<close> stands for the
  exceptions \<^verbatim>\<open>invalid_argument\<close> and \<^verbatim>\<open>out_of_range\<close>.\<close>

definition stoull :: "string \<Rightarrow> u64 option" where
  "stoull s = map_option fst (ext_u64 s)"

text \<open>\<^verbatim>\<open>std::getline(row >> std::ws, value)\<close>.\<close>

definition ext_rest :: "string \<Rightarrow> string" where
  "ext_rest s = takeWhile (\<lambda>c. c \<noteq> NL) (skip_ws s)"

lemma skip_ws_nonspace [simp]: "\<not> is_space c \<Longrightarrow> skip_ws (c # s) = c # s"
  by (simp add: skip_ws_def)

lemma skip_ws_space [simp]: "is_space c \<Longrightarrow> skip_ws (c # s) = skip_ws s"
  by (simp add: skip_ws_def)

lemma skip_ws_Nil [simp]: "skip_ws [] = []"
  by (simp add: skip_ws_def)

lemma is_space_seps [simp]:
  "is_space TAB" "is_space NL" "is_space (CHR '' '')" "\<not> is_space (CHR ''P'')" "\<not> is_space (CHR ''D'')"
  by (simp_all add: is_space_def)

lemma skip_ws_word: "\<lbrakk>w \<noteq> []; \<forall>c\<in>set w. \<not> is_space c\<rbrakk> \<Longrightarrow> skip_ws (w @ s) = w @ s"
  by (cases w) auto

lemma ext_string_word [text_rules]:
  assumes "w \<noteq> []" "\<forall>c\<in>set w. \<not> is_space c" "is_space d"
  shows "ext_string (w @ d # s) = Some (w, d # s)"
  using assms skip_ws_word [of w "d # s"] by (simp add: ext_string_def Let_def takeWhile_append_stop dropWhile_append_stop)

lemma ext_u64_show_nat [text_rules]:
  assumes "s = [] \<or> \<not> is_digit (hd s)"
  shows "ext_u64 (show_nat (unat t) @ s) = Some (t, s)"
proof -
  obtain c r where cr: "show_nat (unat t) = c # r"
    by (cases "show_nat (unat t)") auto
  have dig: "\<forall>x\<in>set (show_nat (unat t)). is_digit x"
    using show_nat_digits by blast
  then have "is_digit c" using cr by simp
  then have sign: "sign_split (skip_ws (show_nat (unat t) @ s)) = (False, show_nat (unat t) @ s)"
    using is_digit_not_space cr by (auto simp: sign_split_def is_digit_def)
  have tk: "takeWhile is_digit (show_nat (unat t) @ s) = show_nat (unat t)"
    using dig assms by (cases s) (simp_all add: takeWhile_append_stop takeWhile_eq_all_conv)
  have dr: "dropWhile is_digit (show_nat (unat t) @ s) = s"
    using dig assms by (cases s) (simp_all add: dropWhile_append_stop dropWhile_eq_Nil_conv)
  have "unat t < 2 ^ 64"
    using unsigned_less [of t] by simp
  then show ?thesis
    by (simp add: ext_u64_def sign tk dr digits_val_show_nat del: append_Nil2)
qed

lemma ext_u64_skip_space [simp]: "is_space c \<Longrightarrow> ext_u64 (c # s) = ext_u64 s"
  by (simp add: ext_u64_def)

lemma ext_char_skip_space [simp]: "is_space c \<Longrightarrow> ext_char (c # s) = ext_char s"
  by (simp add: ext_char_def)

lemma ext_char_nonspace [simp]: "\<not> is_space c \<Longrightarrow> ext_char (c # s) = Some (c, s)"
  by (simp add: ext_char_def)

lemma stoull_show_nat [text_rules]: "stoull (show_nat (unat t)) = Some t"
  using ext_u64_show_nat [of "[]" t] by (simp add: stoull_def)

text \<open>\<^verbatim>\<open>std::stoi\<close>: a signed number of 32 bits.\<close>

definition stoi :: "string \<Rightarrow> int option" where
  "stoi s =
     (let (neg, r) = sign_split (skip_ws s);
          ds = takeWhile is_digit r;
          v = (if neg then - int (digits_val ds) else int (digits_val ds))
      in if ds = [] \<or> v < - (2 ^ 31) \<or> 2 ^ 31 \<le> v then None else Some v)"

lemma sign_split_show_nat [simp]: "sign_split (skip_ws (show_nat n)) = (False, show_nat n)"
proof -
  obtain c r where cr: "show_nat n = c # r" by (cases "show_nat n") auto
  then have "is_digit c" using show_nat_digits [of c n] by simp
  then show ?thesis using cr is_digit_not_space by (auto simp: sign_split_def is_digit_def)
qed

lemma takeWhile_show_nat [simp]: "takeWhile is_digit (show_nat n) = show_nat n"
  by (simp add: takeWhile_eq_all_conv show_nat_digits)

lemma stoi_show_nat [text_rules]: "n < 2 ^ 31 \<Longrightarrow> stoi (show_nat n) = Some (int n)"
  by (simp add: stoi_def digits_val_show_nat)

text \<open>\<^verbatim>\<open>out << n\<close> for an \<^verbatim>\<open>int\<close>, and \<^verbatim>\<open>std::atoi\<close>, which gives 0 for text that is no number (and is undefined for one that
  does not fit).\<close>

definition show_int :: "int \<Rightarrow> string" where
  "show_int n = (if n < 0 then CHR ''-'' # show_nat (nat (- n)) else show_nat (nat n))"

definition atoi :: "string \<Rightarrow> int" where
  "atoi s = (case stoi s of None \<Rightarrow> 0 | Some n \<Rightarrow> n)"

text \<open>\<^verbatim>\<open>out << std::hex\<close> on an unsigned integer.\<close>

definition hex_char :: "nat \<Rightarrow> char" where
  "hex_char d = (if d < 10 then digit_char d else char_of (87 + d))"

fun show_hex :: "nat \<Rightarrow> string" where
  "show_hex n = (if n < 16 then [hex_char n] else show_hex (n div 16) @ [hex_char (n mod 16)])"

declare show_hex.simps [simp del]

lemma hex_char_range: "d < 16 \<Longrightarrow> 48 \<le> (of_char (hex_char d) :: nat)"
  by (simp add: hex_char_def digit_char_def)

lemma show_hex_range: "c \<in> set (show_hex n) \<Longrightarrow> 48 \<le> (of_char c :: nat)"
proof (induction n rule: show_hex.induct)
  case (1 n)
  then show ?case by (cases "n < 16") (auto simp: show_hex.simps [of n] hex_char_range)
qed

lemma show_hex_no_tab [simp]: "TAB \<notin> set (show_hex n)"
  by (auto dest!: show_hex_range)

text \<open>\<^verbatim>\<open>std::getline(in, field, delim)\<close> on a string stream: the field and the rest; it fails at the end.\<close>

definition getfield :: "char \<Rightarrow> string \<Rightarrow> (string \<times> string) option" where
  "getfield d s = (if s = [] then None else Some (takeWhile (\<lambda>c. c \<noteq> d) s, drop 1 (dropWhile (\<lambda>c. c \<noteq> d) s)))"

lemma getfield_field [text_rules]: "d \<notin> set w \<Longrightarrow> getfield d (w @ d # s) = Some (w, s)"
  by (simp add: getfield_def takeWhile_append_stop dropWhile_append_stop)

lemma getfield_last [text_rules]: "\<lbrakk>d \<notin> set w; w \<noteq> []\<rbrakk> \<Longrightarrow> getfield d w = Some (w, [])"
  by (auto simp: getfield_def takeWhile_eq_all_conv dropWhile_eq_Nil_conv)

section \<open>Searches in strings\<close>

text \<open>\<^verbatim>\<open>s.find(c, from)\<close>, \<^verbatim>\<open>s.find_last_of(c)\<close> and \<^verbatim>\<open>s.rfind(pat)\<close>; \<^const>\<open>None\<close> is \<^verbatim>\<open>npos\<close>.\<close>

fun find_char :: "string \<Rightarrow> char \<Rightarrow> nat option" where
  "find_char [] c = None"
| "find_char (x # s) c = (if x = c then Some 0 else map_option Suc (find_char s c))"

definition find_from :: "string \<Rightarrow> char \<Rightarrow> nat \<Rightarrow> nat option" where
  "find_from s c i = map_option (\<lambda>j. i + j) (find_char (drop i s) c)"

fun find_last_char :: "string \<Rightarrow> char \<Rightarrow> nat option" where
  "find_last_char [] c = None"
| "find_last_char (x # s) c =
     (case find_last_char s c of Some i \<Rightarrow> Some (Suc i) | None \<Rightarrow> if x = c then Some 0 else None)"

fun has_prefix :: "string \<Rightarrow> string \<Rightarrow> bool" where
  "has_prefix [] s = True"
| "has_prefix (p # ps) [] = False"
| "has_prefix (p # ps) (x # s) = (p = x \<and> has_prefix ps s)"

fun rfind_str :: "string \<Rightarrow> string \<Rightarrow> nat option" where
  "rfind_str [] pat = (if pat = [] then Some 0 else None)"
| "rfind_str (x # s) pat =
     (case rfind_str s pat of
        Some i \<Rightarrow> Some (Suc i)
      | None \<Rightarrow> if has_prefix pat (x # s) then Some 0 else None)"

definition substr :: "string \<Rightarrow> nat \<Rightarrow> nat \<Rightarrow> string" where
  "substr s pos n = take n (drop pos s)"

lemma has_prefix_iff: "has_prefix p s \<longleftrightarrow> (\<exists>r. s = p @ r)"
  by (induction p s rule: has_prefix.induct) auto

lemma has_prefix_append [simp]: "has_prefix p (p @ s)"
  by (auto simp: has_prefix_iff)

lemma find_char_append [text_rules]: "c \<notin> set w \<Longrightarrow> find_char (w @ c # s) c = Some (length w)"
  by (induction w) auto

lemma find_char_None [text_rules]: "find_char s c = None \<longleftrightarrow> c \<notin> set s"
  by (induction s) auto

lemma find_last_char_None [text_rules]: "find_last_char s c = None \<longleftrightarrow> c \<notin> set s"
  by (induction s) (auto split: option.splits)

lemma find_last_char_append [text_rules]:
  assumes "c \<notin> set s"
  shows "find_last_char (w @ c # s) c = Some (length w)"
proof (induction w)
  case Nil
  have "find_last_char s c = None" using assms by (simp add: find_last_char_None)
  then show ?case by simp
qed simp

section \<open>Lengths of printed numbers\<close>

lemma length_show_nat: "n < 10 ^ Suc d \<Longrightarrow> length (show_nat n) \<le> Suc d"
proof (induction d arbitrary: n)
  case (Suc d)
  then have "n div 10 < 10 ^ Suc d" by (simp add: less_mult_imp_div_less mult.commute)
  from Suc.IH [OF this] show ?case by (simp add: show_nat.simps [of n])
qed (simp add: show_nat.simps)

lemma length_show_hex: "n < 16 ^ Suc d \<Longrightarrow> length (show_hex n) \<le> Suc d"
proof (induction d arbitrary: n)
  case (Suc d)
  then have "n div 16 < 16 ^ Suc d" by (simp add: less_mult_imp_div_less mult.commute)
  from Suc.IH [OF this] show ?case by (simp add: show_hex.simps [of n])
qed (simp add: show_hex.simps)

lemma length_show_word: "length (show_nat (unat (x :: u64))) \<le> 20" "length (show_nat (unat (y :: u32))) \<le> 20"
  "length (show_nat (unat (z :: 8 word))) \<le> 20" "length (show_hex (unat x)) \<le> 16"
proof -
  have "unat x < 10 ^ Suc 19" "unat y < 10 ^ Suc 19" using unat_u64_less [of x] unat_u32_less [of y] by simp_all
  moreover have "unat z < 2 ^ LENGTH(8)" by (rule unsigned_less)
  then have "unat z < 10 ^ Suc 19" by simp
  ultimately show "length (show_nat (unat x)) \<le> 20" "length (show_nat (unat y)) \<le> 20" "length (show_nat (unat z)) \<le> 20"
    using length_show_nat by fastforce+
  have "unat x < 16 ^ Suc 15" using unat_u64_less [of x] by simp
  then show "length (show_hex (unat x)) \<le> 16" using length_show_hex by fastforce
qed

end
