(* ===== verification/File_System.thy ===== *)
theory File_System
  imports Cxx_Text
begin

text \<open>
  The files the store works on and the ways the operating system can refuse: opening a path for
  writing, a device that takes only part of what a stream writes, a failing \<^verbatim>\<open>rename\<close>, and the results
  of the next \<^verbatim>\<open>write(2)\<close> and \<^verbatim>\<open>fsync(2)\<close> calls.  Every failure is a branch of the operations below;
  \<open>fs_sound\<close> is a file system in which none occurs.
\<close>

record fsys =
  fs_files :: "string \<rightharpoonup> string"           \<comment> \<open>contents by path\<close>
  fs_deny :: "string \<Rightarrow> bool"              \<comment> \<open>opening for writing and truncating fail\<close>
  fs_room :: "string \<Rightarrow> nat option"        \<comment> \<open>bytes the device takes from one stream\<close>
  fs_held :: nat                           \<comment> \<open>bytes a stream may hold back until it is closed\<close>
  fs_norename :: "string \<Rightarrow> bool"          \<comment> \<open>renaming onto the path fails\<close>
  fs_writes :: "int list"                  \<comment> \<open>results of the next \<^verbatim>\<open>write(2)\<close> calls; none left: success\<close>
  fs_fsyncs :: "bool list"                 \<comment> \<open>results of the next \<^verbatim>\<open>fsync(2)\<close> calls; none left: success\<close>

definition fs_sound :: "fsys \<Rightarrow> bool" where
  "fs_sound fs \<longleftrightarrow>
     (\<forall>p. \<not> fs_deny fs p \<and> fs_room fs p = None \<and> \<not> fs_norename fs p)
     \<and> fs_writes fs = [] \<and> fs_fsyncs fs = []"

definition fs_empty :: fsys where
  "fs_empty = \<lparr>fs_files = Map.empty, fs_deny = (\<lambda>_. False), fs_room = (\<lambda>_. None), fs_held = 0,
     fs_norename = (\<lambda>_. False), fs_writes = [], fs_fsyncs = []\<rparr>"

definition fs_content :: "fsys \<Rightarrow> string \<Rightarrow> string" where
  "fs_content fs p = (case fs_files fs p of None \<Rightarrow> [] | Some c \<Rightarrow> c)"

section \<open>Output streams\<close>

text \<open>What the device takes of the text a stream sends it.\<close>

definition fs_taken :: "fsys \<Rightarrow> string \<Rightarrow> string \<Rightarrow> string" where
  "fs_taken fs p s = (case fs_room fs p of None \<Rightarrow> s | Some r \<Rightarrow> take r s)"

definition fs_fits :: "fsys \<Rightarrow> string \<Rightarrow> nat \<Rightarrow> bool" where
  "fs_fits fs p n \<longleftrightarrow> (case fs_room fs p of None \<Rightarrow> True | Some r \<Rightarrow> n \<le> r)"

text \<open>
  \<^verbatim>\<open>std::ofstream out(p)\<close> or \<^verbatim>\<open>std::ofstream out(p, std::ios::app)\<close>, writing \<open>s\<close>, \<^verbatim>\<open>out.flush()\<close>, and
  reading the stream state.  The flag is false when the stream could not be opened or did not take
  everything.
\<close>

definition ofs_write :: "fsys \<Rightarrow> string \<Rightarrow> bool \<Rightarrow> string \<Rightarrow> fsys \<times> bool" where
  "ofs_write fs p app s =
     (if fs_deny fs p then (fs, False)
      else (fs\<lparr>fs_files := (fs_files fs)(p \<mapsto> (if app then fs_content fs p else []) @ fs_taken fs p s)\<rparr>,
            fs_fits fs p (length s)))"

text \<open>
  The same without the final flush: when the state is read for the last time the stream may still
  hold the last \<^const>\<open>fs_held\<close> bytes back, and what becomes of them is not reported.
\<close>

definition ofs_write_noflush :: "fsys \<Rightarrow> string \<Rightarrow> string \<Rightarrow> fsys \<times> bool" where
  "ofs_write_noflush fs p s =
     (if fs_deny fs p then (fs, False)
      else (fs\<lparr>fs_files := (fs_files fs)(p \<mapsto> fs_taken fs p s)\<rparr>,
            fs_fits fs p (length s - fs_held fs)))"

section \<open>Rename and remove\<close>

definition fs_rename :: "fsys \<Rightarrow> string \<Rightarrow> string \<Rightarrow> fsys \<times> bool" where
  "fs_rename fs old new =
     (case fs_files fs old of
        None \<Rightarrow> (fs, False)
      | Some c \<Rightarrow>
          if fs_norename fs new then (fs, False)
          else (fs\<lparr>fs_files := ((fs_files fs)(old := None))(new \<mapsto> c)\<rparr>, True))"

definition fs_remove :: "fsys \<Rightarrow> string \<Rightarrow> fsys" where
  "fs_remove fs p = fs\<lparr>fs_files := (fs_files fs)(p := None)\<rparr>"

section \<open>File descriptors\<close>

text \<open>Bytes put at a file position; a position beyond the end leaves a gap of zero bytes.\<close>

definition put_at :: "string \<Rightarrow> nat \<Rightarrow> string \<Rightarrow> string" where
  "put_at c pos s = take pos (c @ replicate (pos - length c) (CHR 0x00)) @ s @ drop (pos + length s) c"

text \<open>
  The loop \<^verbatim>\<open>while (n > 0) { w = write(fd, p, n); if (w < 0) return false; p += w; n -= w; }\<close> over
  the results of the next calls: the outcome, the results left, the bytes written.
\<close>

fun write_loop :: "int list \<Rightarrow> string \<Rightarrow> bool \<times> int list \<times> string" where
  "write_loop ws [] = (True, ws, [])"
| "write_loop [] p = (True, [], p)"
| "write_loop (w # ws) p =
     (if w < 0 then (False, ws, [])
      else let n = min (nat w) (length p);
               (ok, ws', out) = write_loop ws (drop n p)
           in (ok, ws', take n p @ out))"

definition fs_fsync :: "fsys \<Rightarrow> fsys \<times> bool" where
  "fs_fsync fs = (case fs_fsyncs fs of [] \<Rightarrow> (fs, True) | b # bs \<Rightarrow> (fs\<lparr>fs_fsyncs := bs\<rparr>, b))"

section \<open>Lemmas\<close>

lemma fs_sound_empty [simp]: "fs_sound fs_empty"
  by (simp add: fs_sound_def fs_empty_def)

lemma fs_sound_files [simp]: "fs_sound (fs\<lparr>fs_files := m\<rparr>) = fs_sound fs"
  by (simp add: fs_sound_def)

lemma fs_sound_write [fs_rules]:
  assumes "fs_sound fs"
  shows "ofs_write fs p app s =
     (fs\<lparr>fs_files := (fs_files fs)(p \<mapsto> (if app then fs_content fs p else []) @ s)\<rparr>, True)"
  using assms by (simp add: fs_sound_def ofs_write_def fs_taken_def fs_fits_def)

lemma fs_sound_write_noflush [fs_rules]:
  "fs_sound fs \<Longrightarrow> ofs_write_noflush fs p s = (fs\<lparr>fs_files := (fs_files fs)(p \<mapsto> s)\<rparr>, True)"
  by (simp add: fs_sound_def ofs_write_noflush_def fs_taken_def fs_fits_def)

lemma fs_sound_rename [fs_rules]:
  "\<lbrakk>fs_sound fs; fs_files fs old = Some c\<rbrakk>
   \<Longrightarrow> fs_rename fs old new = (fs\<lparr>fs_files := ((fs_files fs)(old := None))(new \<mapsto> c)\<rparr>, True)"
  by (simp add: fs_sound_def fs_rename_def)

lemma fs_sound_fsync [fs_rules]: "fs_sound fs \<Longrightarrow> fs_fsync fs = (fs, True)"
  by (simp add: fs_sound_def fs_fsync_def)

lemma fs_content_writes [simp]: "fs_content (fs\<lparr>fs_writes := ws\<rparr>) p = fs_content fs p"
  by (simp add: fs_content_def)

lemma ofs_write_ok: "ofs_write fs p app s = (fs', True) \<Longrightarrow>
  fs' = fs\<lparr>fs_files := (fs_files fs)(p \<mapsto> (if app then fs_content fs p else []) @ s)\<rparr>"
  by (auto simp: ofs_write_def fs_taken_def fs_fits_def split: if_splits option.splits)

lemma put_at_end: "put_at c (length c) s = c @ s"
  by (simp add: put_at_def)

lemma write_loop_Nil [simp]: "write_loop [] p = (True, [], p)"
  by (cases p) simp_all

text \<open>A loop that reports success has written everything, however the calls split it up; one that
  fails has written a prefix.\<close>

lemma write_loop_prefix: "write_loop ws p = (ok, ws', out) \<Longrightarrow> \<exists>rest. p = out @ rest \<and> (ok \<longrightarrow> rest = [])"
proof (induction ws p arbitrary: ok ws' out rule: write_loop.induct)
  case (3 w ws x xs)
  show ?case
  proof (cases "w < 0")
    case True
    with "3.prems" show ?thesis by auto
  next
    case False
    let ?n = "min (nat w) (length (x # xs))" and ?p = "x # xs"
    obtain ok' vs out' where rec: "write_loop ws (drop ?n ?p) = (ok', vs, out')"
      by (metis prod_cases3)
    then obtain rest where "drop ?n ?p = out' @ rest" "ok' \<longrightarrow> rest = []"
      using "3.IH" [OF False refl rec] by blast
    moreover have "ok = ok'" "out = take ?n ?p @ out'"
      using "3.prems" False rec by (auto simp: Let_def)
    ultimately show ?thesis
      by (metis append_assoc append_take_drop_id)
  qed
qed auto

end
