(* ===== verification/Crc32.thy ===== *)
theory Crc32
  imports Prelude
begin

text \<open>
  The checksum of the write-ahead log, \<^verbatim>\<open>crc32_update\<close> of \<^verbatim>\<open>src/wal.cpp\<close>: a table of 256 words filled
  by eight shift steps per entry, then one table access per byte.  The lemmas relate it to the
  bitwise division it stands for, give the incremental law that \<^verbatim>\<open>write_record\<close> relies on when it
  feeds header, key and value one after the other, and bound what a corruption can do: a change
  inside four consecutive bytes always changes the checksum.
\<close>

section \<open>The code\<close>

text \<open>One round of the table loop: \<^verbatim>\<open>c = (c & 1) ? (0xEDB88320u ^ (c >> 1)) : (c >> 1)\<close>.\<close>

definition crc_step :: "u32 \<Rightarrow> u32" where
  "crc_step c = (if c AND 1 \<noteq> 0 then 0xEDB88320 XOR drop_bit 1 c else drop_bit 1 c)"

definition crc_table :: "u32 list" where
  "crc_table = map (\<lambda>i. (crc_step ^^ 8) (word_of_nat i)) [0..<256]"

definition crc_byte :: "u32 \<Rightarrow> char \<Rightarrow> u32" where
  "crc_byte crc b = crc_table ! unat ((crc XOR of_char b) AND 0xFF) XOR drop_bit 8 crc"

definition crc32_update :: "u32 \<Rightarrow> string \<Rightarrow> u32" where
  "crc32_update crc data = NOT (foldl crc_byte (NOT crc) data)"

section \<open>Reference: division of the bit stream\<close>

text \<open>
  The reference is the register of the CRC-32 of IEEE 802.3, whose polynomial is \<open>x ^ 32\<close> and the powers
  below: the coefficient of \<open>x ^ 31\<close> is in bit 0, a shift multiplies by \<open>x\<close>, and when \<open>x ^ 32\<close> falls out the rest of the
  polynomial is added.
\<close>

definition crc_poly :: "nat list" where
  "crc_poly = [26, 23, 22, 16, 12, 11, 10, 8, 7, 5, 4, 2, 1, 0]"

definition crc_shift_ref :: "u32 \<Rightarrow> u32" where
  "crc_shift_ref c = (let s = c div 2 in if bit c 0 then foldr (\<lambda>e w. flip_bit (31 - e) w) crc_poly s else s)"

definition crc_byte_ref :: "u32 \<Rightarrow> char \<Rightarrow> u32" where
  "crc_byte_ref crc b = (crc_shift_ref ^^ 8) (crc XOR of_char b)"

definition crc32_ref :: "u32 \<Rightarrow> string \<Rightarrow> u32" where
  "crc32_ref crc data = NOT (foldl crc_byte_ref (NOT crc) data)"

section \<open>Linearity\<close>

lemma crc_step_alt: "crc_step c = (if odd c then 0xEDB88320 else 0) XOR drop_bit 1 c"
proof -
  have "(c AND 1 \<noteq> 0) = odd c"
    by (simp add: and_one_eq odd_iff_mod_2_eq_one)
  then show ?thesis
    by (simp add: crc_step_def)
qed

lemma flip_bits_xor: "foldr (\<lambda>e w. flip_bit (31 - e) w) es (w :: u32) = foldr (\<lambda>e w. flip_bit (31 - e) w) es 0 XOR w"
  by (induction es) (simp_all add: flip_bit_eq_xor ac_simps)

lemma crc_poly_reflected: "foldr (\<lambda>e w. flip_bit (31 - e) w) crc_poly (0 :: u32) = 0xEDB88320"
  by (simp add: crc_poly_def flip_bit_eq_xor)

lemma crc_shift_ref_step [simp]: "crc_shift_ref = crc_step"
  by (simp add: fun_eq_iff crc_shift_ref_def crc_step_alt bit_0 drop_bit_Suc flip_bits_xor [of _ "_ div 2"] crc_poly_reflected)

lemma odd_xor: "odd (a XOR b :: u32) \<longleftrightarrow> (odd a \<noteq> odd b)"
  by (simp flip: bit_0 add: bit_xor_iff)

lemma crc_step_xor: "crc_step (a XOR b) = crc_step a XOR crc_step b"
  by (simp add: crc_step_alt odd_xor drop_bit_xor ac_simps)

lemma crc_steps_xor: "(crc_step ^^ n) (a XOR b) = (crc_step ^^ n) a XOR (crc_step ^^ n) b"
  by (induction n arbitrary: a b) (simp_all add: funpow_swap1 crc_step_xor)

lemma crc_step_zero [simp]: "crc_step 0 = 0"
  by (simp add: crc_step_alt)

lemma crc_steps_zero [simp]: "(crc_step ^^ n) 0 = 0"
  by (induction n) simp_all

text \<open>The generator polynomial has its top bit set, so no bit of the state is lost.\<close>

lemma crc_step_eq_0: "crc_step c = 0 \<Longrightarrow> c = 0"
proof -
  assume z: "crc_step c = 0"
  have "\<not> bit c 32"
    using bit_imp_le_length [of c 32] by auto
  then have "bit (crc_step c) 31 = odd c"
    by (simp add: crc_step_alt bit_xor_iff bit_drop_bit_eq)
  with z have ev: "even c" by simp
  with z have "drop_bit 1 c = 0"
    by (simp add: crc_step_alt)
  then have "\<not> bit c (Suc j)" for j
    using bit_drop_bit_eq [of 1 c] by (auto simp: fun_eq_iff)
  with ev have "\<not> bit c k" for k
    by (cases k) (simp_all add: bit_0)
  then show "c = 0"
    by (intro bit_word_eqI) simp
qed

lemma crc_steps_eq_0: "(crc_step ^^ n) c = 0 \<Longrightarrow> c = 0"
  by (induction n) (auto dest: crc_step_eq_0)

lemma xor_eq_0_iff: "a XOR b = 0 \<longleftrightarrow> a = (b :: 'a::len word)"
  by (metis xor.assoc xor_self_eq xor.right_neutral xor.left_neutral)

lemma crc_steps_inject [simp]: "(crc_step ^^ n) a = (crc_step ^^ n) b \<longleftrightarrow> a = b"
  using crc_steps_eq_0 [of n "a XOR b"] by (auto simp: crc_steps_xor xor_eq_0_iff)

text \<open>While the low bits are zero, a step only shifts.\<close>

lemma crc_step_push:
  assumes "\<And>k. bit (x :: u32) k \<Longrightarrow> n + k < 31"
  shows "crc_step (push_bit (Suc n) x) = push_bit n x"
proof -
  have "drop_bit 1 (push_bit (Suc n) x) = push_bit n x"
  proof (rule bit_word_eqI)
    fix j assume "j < LENGTH(32)"
    then show "bit (drop_bit 1 (push_bit (Suc n) x)) j = bit (push_bit n x) j"
      using assms [of "j - n"] by (auto simp: bit_drop_bit_eq bit_push_bit_iff simp del: push_bit_Suc)
  qed
  then show ?thesis by (simp add: crc_step_alt)
qed

lemma crc_steps_push:
  "(\<And>k. bit (x :: u32) k \<Longrightarrow> n + k < 32) \<Longrightarrow> (crc_step ^^ n) (push_bit n x) = x"
proof (induction n)
  case (Suc n)
  from Suc.prems have "n + k < 31" if "bit x k" for k
    using that by fastforce
  then have "crc_step (push_bit (Suc n) x) = push_bit n x"
    by (rule crc_step_push)
  moreover have "(crc_step ^^ n) (push_bit n x) = x"
    using Suc.prems by (intro Suc.IH) fastforce
  ultimately show ?case
    by (simp only: funpow_Suc_right comp_apply)
qed simp

lemma bit_of_char: "bit (of_char c :: u32) k \<Longrightarrow> k < 8"
proof (rule ccontr)
  assume b: "bit (of_char c :: u32) k" and "\<not> k < 8"
  have "(of_char c :: u32) = take_bit 8 (of_char c)"
  proof -
    have "take_bit 8 (of_nat (of_char c) :: u32) = of_nat (of_char c mod 256)"
      unfolding take_bit_of_nat by (simp add: take_bit_eq_mod)
    then show ?thesis by (simp add: of_nat_of_char)
  qed
  with b have "bit (take_bit 8 (of_char c :: u32)) k" by simp
  with \<open>\<not> k < 8\<close> show False by (simp add: bit_take_bit_iff)
qed

section \<open>The table routine is the bitwise division\<close>

lemma crc_table_nth: "i < 256 \<Longrightarrow> crc_table ! i = (crc_step ^^ 8) (word_of_nat i)"
  by (simp add: crc_table_def)

lemma crc_byte_eq_ref: "crc_byte crc b = crc_byte_ref crc b"
proof -
  let ?x = "crc XOR of_char b"
  let ?lo = "?x AND 0xFF" and ?hi = "push_bit 8 (drop_bit 8 crc)"
  have lo: "?lo = take_bit 8 ?x"
    by (simp add: take_bit_eq_mask mask_eq_exp_minus_1)
  have "unat ?lo < 256"
    using take_bit_nat_less_exp [of 8 "unat ?x"] unfolding lo unsigned_take_bit_eq by simp
  then have "crc_table ! unat ?lo = (crc_step ^^ 8) ?lo"
    by (simp add: crc_table_nth)
  moreover have "(crc_step ^^ 8) ?hi = drop_bit 8 crc"
    by (rule crc_steps_push) (auto simp: bit_drop_bit_eq dest: bit_imp_le_length)
  moreover have "?x = ?lo XOR ?hi"
    unfolding lo
    by (rule bit_word_eqI)
      (auto simp: bit_xor_iff bit_take_bit_iff bit_push_bit_iff bit_drop_bit_eq dest: bit_of_char)
  ultimately show ?thesis
    unfolding crc_byte_def crc_byte_ref_def crc_shift_ref_step by (metis crc_steps_xor)
qed

lemma crc32_update_eq_ref: "crc32_update crc data = crc32_ref crc data"
proof -
  have "crc_byte = crc_byte_ref"
    by (simp add: fun_eq_iff crc_byte_eq_ref)
  then show ?thesis
    by (simp add: crc32_update_def crc32_ref_def)
qed

section \<open>Feeding data in pieces\<close>

lemma crc32_update_Nil [simp]: "crc32_update crc [] = crc"
  by (simp add: crc32_update_def)

lemma crc32_update_append: "crc32_update (crc32_update crc xs) ys = crc32_update crc (xs @ ys)"
  by (simp add: crc32_update_def)

section \<open>Corruption of at most four consecutive bytes\<close>

definition le_word :: "string \<Rightarrow> u32" where
  "le_word bs = foldr (\<lambda>b w. of_char b XOR push_bit 8 w) bs 0"

lemma le_word_simps [simp]:
  "le_word [] = 0"
  "le_word (b # bs) = of_char b XOR push_bit 8 (le_word bs)"
  by (simp_all add: le_word_def)

lemma le_word_snoc: "le_word (bs @ [b]) = le_word bs XOR push_bit (8 * length bs) (of_char b)"
  by (induction bs) (simp_all add: push_bit_xor push_bit_push_bit ac_simps)

lemma crc_feed_word:
  "length bs \<le> 4 \<Longrightarrow> foldl crc_byte_ref d bs = (crc_step ^^ (8 * length bs)) (d XOR le_word bs)"
proof (induction bs rule: rev_induct)
  case (snoc b bs)
  let ?n = "8 * length bs"
  have "(crc_step ^^ ?n) (push_bit ?n (of_char b)) = of_char b"
    using snoc.prems by (intro crc_steps_push) (auto dest: bit_of_char)
  then have "(crc_step ^^ ?n) (d XOR le_word bs) XOR of_char b = (crc_step ^^ ?n) (d XOR le_word (bs @ [b]))"
    by (simp add: le_word_snoc crc_steps_xor ac_simps)
  then show ?case
    using snoc by (simp add: crc_byte_ref_def funpow_add)
qed simp

lemma bit_le_word: "bit (le_word bs) k \<Longrightarrow> k < 8 * length bs"
  by (induction bs arbitrary: k) (fastforce simp: bit_xor_iff bit_push_bit_iff dest: bit_of_char)+

lemma le_word_low: "take_bit 8 (le_word (b # bs)) = of_char b"
  by (rule bit_word_eqI)
    (auto simp: bit_take_bit_iff bit_xor_iff bit_push_bit_iff dest: bit_of_char)

lemma le_word_high: "length bs \<le> 3 \<Longrightarrow> drop_bit 8 (le_word (b # bs)) = le_word bs"
  by (rule bit_word_eqI)
    (auto simp: bit_drop_bit_eq bit_xor_iff bit_push_bit_iff dest: bit_of_char bit_le_word)

lemma of_char_u32_inject: "(of_char x :: u32) = of_char y \<Longrightarrow> x = y"
proof -
  assume "(of_char x :: u32) = of_char y"
  then have "unat (of_nat (of_char x) :: u32) = unat (of_nat (of_char y) :: u32)"
    by (simp only: of_nat_of_char)
  then have "(of_char x :: nat) = of_char y"
    using nat_of_char_less_256 [of x] nat_of_char_less_256 [of y]
    by (simp add: unsigned_of_nat take_bit_nat_eq_self)
  then show "x = y" by simp
qed

lemma le_word_inject:
  "\<lbrakk>length xs = length ys; length xs \<le> 4; le_word xs = le_word ys\<rbrakk> \<Longrightarrow> xs = ys"
proof (induction xs ys rule: list_induct2')
  case (4 x xs y ys)
  then have "x = y"
    using le_word_low of_char_u32_inject by metis
  moreover from 4 have "le_word xs = le_word ys"
    using le_word_high [of xs x] le_word_high [of ys y] by (simp del: le_word_simps)
  ultimately show ?case using 4 by simp
qed simp_all

lemma crc_feed_inject: "foldl crc_byte_ref c ds = foldl crc_byte_ref d ds \<longleftrightarrow> c = d"
proof (induction ds arbitrary: c d)
  case (Cons b ds)
  have "crc_byte_ref c b = crc_byte_ref d b \<longleftrightarrow> c = d"
    unfolding crc_byte_ref_def crc_shift_ref_step crc_steps_inject
    by (metis xor.assoc xor_self_eq xor.right_neutral)
  with Cons show ?case by simp
qed simp

lemma crc32_detects_burst:
  assumes "length xs = length ys" "length xs \<le> 4" "xs \<noteq> ys"
  shows "crc32_update crc (pre @ xs @ post) \<noteq> crc32_update crc (pre @ ys @ post)"
proof
  assume "crc32_update crc (pre @ xs @ post) = crc32_update crc (pre @ ys @ post)"
  then have "foldl crc_byte_ref (foldl crc_byte_ref (NOT crc) pre) xs
           = foldl crc_byte_ref (foldl crc_byte_ref (NOT crc) pre) ys"
    by (simp add: crc32_update_eq_ref crc32_ref_def crc_feed_inject)
  then have "le_word xs = le_word ys"
    using assms(1,2)
    by (auto simp: crc_feed_word dest: arg_cong [where f = "\<lambda>w. foldl crc_byte_ref (NOT crc) pre XOR w"]
        simp flip: xor.assoc)
  with assms show False
    using le_word_inject by blast
qed

section \<open>Evaluation\<close>

text \<open>Rules that evaluate a checksum of a literal; the start state is written as a numeral.\<close>

lemma crc32_update_0: "crc32_update 0 data = NOT (foldl crc_byte_ref 0xFFFFFFFF data)"
proof -
  have "NOT (0 :: u32) = 0xFFFFFFFF" by simp
  then show ?thesis by (simp only: crc32_update_eq_ref crc32_ref_def)
qed

lemma crc_step_8:
  "(crc_step ^^ 8) c =
     crc_step (crc_step (crc_step (crc_step (crc_step (crc_step (crc_step (crc_step c)))))))"
  by (simp add: numeral_eq_Suc)

lemmas crc_eval = crc32_update_0 crc_byte_ref_def crc_step_8 crc_step_def

text \<open>The published check value of the IEEE polynomial.\<close>

lemma crc32_check_value: "crc32_update 0 ''123456789'' = 0xCBF43926"
  by (simp add: crc_eval)

section \<open>Properties\<close>

text \<open>
  C22. The table-driven checksum computes the bit-by-bit CRC-32 of the IEEE 802.3 polynomial, given by its powers and with a
  shift register of its own, for every starting value and every input.
\<close>

theorem crc32_table_correct: "crc32_update crc data = crc32_ref crc data"
  by (rule crc32_update_eq_ref)

end
