(* ===== verification/Wal.thy ===== *)
theory Wal
  imports File_System Crc32
begin

text \<open>
  The write-ahead log of \<^verbatim>\<open>include/kv/wal.h\<close> and \<^verbatim>\<open>src/wal.cpp\<close>: the packed record header, the record
  encoding with its checksum, the in-memory buffer and its flush, and the scan that recovery runs
  over the file.  \<^verbatim>\<open>replay_into\<close> takes the update of the store as an argument; the store supplies it.

  The lemmas show that records round-trip, that a log cut at any byte replays to the records before
  the cut, and that a burst of at most four corrupted bytes after the length fields stops the scan at
  the damaged record.
\<close>

section \<open>Little-endian integers\<close>

fun le_bytes :: "nat \<Rightarrow> nat \<Rightarrow> string" where
  "le_bytes 0 v = []"
| "le_bytes (Suc n) v = char_of (v mod 256) # le_bytes n (v div 256)"

fun le_val :: "string \<Rightarrow> nat" where
  "le_val [] = 0"
| "le_val (c # cs) = of_char c + 256 * le_val cs"

lemma le_bytes_numeral:
  "le_bytes (numeral k) v = char_of (v mod 256) # le_bytes (pred_numeral k) (v div 256)"
  unfolding numeral_eq_Suc [of k] by simp

lemma length_le_bytes [simp]: "length (le_bytes n v) = n"
  by (induction n arbitrary: v) simp_all

lemma le_val_le_bytes: "le_val (le_bytes n v) = v mod 256 ^ n"
proof (induction n arbitrary: v)
  case (Suc n)
  have "v mod 256 ^ Suc n = v mod 256 + 256 * (v div 256 mod 256 ^ n)"
    by (simp add: mod_mult2_eq)
  with Suc show ?case by simp
qed simp

lemma le_val_bound: "le_val cs < 256 ^ length cs"
proof (induction cs)
  case (Cons c cs)
  have "le_val (c # cs) < 256 * (le_val cs + 1)"
    using nat_of_char_less_256 [of c] by simp
  also have "\<dots> \<le> 256 * 256 ^ length cs"
    using Cons by (intro mult_le_mono2) simp
  finally show ?case by (simp only: length_Cons power_Suc)
qed simp

lemma le_bytes_le_val: "le_bytes (length cs) (le_val cs) = cs"
  by (induction cs) simp_all

section \<open>Records\<close>

datatype wal_type = WalPut | WalDel

record wal_record =
  wr_type :: wal_type
  wr_seq :: u64
  wr_key :: string
  wr_val :: string

definition kMagic :: nat where "kMagic = 0x474C564B"
definition kVersion :: nat where "kVersion = 1"

definition type_byte :: "wal_type \<Rightarrow> nat" where
  "type_byte t = (case t of WalPut \<Rightarrow> 1 | WalDel \<Rightarrow> 2)"

text \<open>\<^verbatim>\<open>struct WalHeader\<close>, packed: magic (4), version (2), type (1), key length (4), value length (4),
  sequence number (8).  The lengths are cut to 32 bits by the casts of \<^verbatim>\<open>write_record\<close>.\<close>

definition wal_header :: "wal_type \<Rightarrow> u64 \<Rightarrow> nat \<Rightarrow> nat \<Rightarrow> string" where
  "wal_header t seq key_len val_len =
     le_bytes 4 kMagic @ le_bytes 2 kVersion @ le_bytes 1 (type_byte t)
     @ le_bytes 4 key_len @ le_bytes 4 val_len @ le_bytes 8 (unat seq)"

definition header_size :: nat where "header_size = 23"

text \<open>The bytes the checksum covers, and the whole record.\<close>

definition wal_payload :: "wal_record \<Rightarrow> string" where
  "wal_payload r =
     wal_header (wr_type r) (wr_seq r) (length (wr_key r)) (length (wr_val r)) @ wr_key r
     @ (if wr_type r = WalPut then wr_val r else [])"

definition wal_encode :: "wal_record \<Rightarrow> string" where
  "wal_encode r =
     (let h = wal_header (wr_type r) (wr_seq r) (length (wr_key r)) (length (wr_val r));
          crc = crc32_update 0 h;
          crc = crc32_update crc (wr_key r);
          crc = (if wr_type r = WalPut then crc32_update crc (wr_val r) else crc)
      in h @ wr_key r @ (if wr_type r = WalPut then wr_val r else []) @ le_bytes 4 (unat crc))"

text \<open>
  One iteration of the loop of \<^verbatim>\<open>replay_into\<close> on the unread part of the file: \<^const>\<open>None\<close> is a \<^verbatim>\<open>break\<close>
  (end of file, short header, wrong magic, version or type, short key, value or checksum, checksum
  mismatch); otherwise the record and what follows it.
\<close>

definition wal_next :: "string \<Rightarrow> (wal_record \<times> string) option" where
  "wal_next s =
     (if length s < header_size then None
      else let h = take header_size s;
               magic = le_val (take 4 h);
               version = le_val (take 2 (drop 4 h));
               ty = le_val (take 1 (drop 6 h));
               key_len = le_val (take 4 (drop 7 h));
               val_len = le_val (take 4 (drop 11 h));
               seq = word_of_nat (le_val (take 8 (drop 15 h)));
               r1 = drop header_size s
           in if magic \<noteq> kMagic \<or> version \<noteq> kVersion then None
              else if ty \<noteq> type_byte WalPut \<and> ty \<noteq> type_byte WalDel then None
              else if length r1 < key_len then None
              else let key = take key_len r1; r2 = drop key_len r1
                   in if ty = type_byte WalPut \<and> length r2 < val_len then None
                      else let val = (if ty = type_byte WalPut then take val_len r2
                                      else replicate val_len (CHR 0x00));
                               r3 = (if ty = type_byte WalPut then drop val_len r2 else r2)
                           in if length r3 < 4 then None
                              else let stored = le_val (take 4 r3);
                                       crc = crc32_update 0 h;
                                       crc = crc32_update crc key;
                                       crc = (if ty = type_byte WalPut then crc32_update crc val else crc)
                                   in if unat crc \<noteq> stored then None
                                      else Some (\<lparr>wr_type = (if ty = type_byte WalPut then WalPut else WalDel),
                                                  wr_seq = seq, wr_key = key, wr_val = val\<rparr>,
                                                 drop 4 r3))"

lemma wal_next_shorter: "wal_next s = Some (r, rest) \<Longrightarrow> length rest < length s"
  by (auto simp: wal_next_def Let_def header_size_def split: if_splits)

text \<open>The loop itself, over an update \<open>ap\<close> of the store: the store, \<^verbatim>\<open>max_seq\<close> and \<^verbatim>\<open>last_good\<close>.\<close>

function replay_loop ::
  "(wal_record \<Rightarrow> 's \<Rightarrow> 's) \<Rightarrow> string \<Rightarrow> 's \<Rightarrow> u64 \<Rightarrow> nat \<Rightarrow> 's \<times> u64 \<times> nat" where
  "replay_loop ap s st max_seq good =
     (case wal_next s of
        None \<Rightarrow> (st, max_seq, good)
      | Some (r, rest) \<Rightarrow>
          replay_loop ap rest (ap r st) (max max_seq (wr_seq r)) (good + (length s - length rest)))"
  by pat_completeness auto
termination
  by (relation "measure (\<lambda>(ap, s, _). length s)") (auto dest: wal_next_shorter)

declare replay_loop.simps [simp del]

section \<open>The log object\<close>

record wal =
  wal_open :: bool                 \<comment> \<open>\<^verbatim>\<open>fd_ >= 0\<close>\<close>
  wal_path :: string
  wal_pos :: nat                   \<comment> \<open>offset of the descriptor\<close>
  wal_good :: nat                  \<comment> \<open>\<^verbatim>\<open>last_good_offset_\<close>\<close>
  wal_buffer :: "string list"

definition wal_init :: wal where
  "wal_init = \<lparr>wal_open = False, wal_path = [], wal_pos = 0, wal_good = 0, wal_buffer = []\<rparr>"

definition wal_open_file :: "wal \<Rightarrow> fsys \<Rightarrow> string \<Rightarrow> wal \<times> fsys \<times> bool" where
  "wal_open_file w fs path =
     (if fs_deny fs path then (w\<lparr>wal_path := path, wal_open := False\<rparr>, fs, False)
      else let fs' = (case fs_files fs path of
                        None \<Rightarrow> fs\<lparr>fs_files := (fs_files fs)(path \<mapsto> [])\<rparr> | Some _ \<Rightarrow> fs)
           in (w\<lparr>wal_path := path, wal_open := True, wal_pos := length (fs_content fs' path),
                 wal_good := 0\<rparr>, fs', True))"

definition write_record :: "wal \<Rightarrow> wal_type \<Rightarrow> u64 \<Rightarrow> string \<Rightarrow> string \<Rightarrow> wal \<times> bool" where
  "write_record w t seq key val =
     (if \<not> wal_open w then (w, False)
      else (w\<lparr>wal_buffer := wal_buffer w
                @ [wal_encode \<lparr>wr_type = t, wr_seq = seq, wr_key = key, wr_val = val\<rparr>]\<rparr>, True))"

definition append_put :: "wal \<Rightarrow> u64 \<Rightarrow> string \<Rightarrow> string \<Rightarrow> wal \<times> bool" where
  "append_put w seq key val = write_record w WalPut seq key val"

definition append_del :: "wal \<Rightarrow> u64 \<Rightarrow> string \<Rightarrow> wal \<times> bool" where
  "append_del w seq key = write_record w WalDel seq key []"

definition replay_into ::
  "(wal_record \<Rightarrow> 's \<Rightarrow> 's) \<Rightarrow> wal \<Rightarrow> fsys \<Rightarrow> 's \<Rightarrow> wal \<times> 's \<times> u64 \<times> bool" where
  "replay_into ap w fs st =
     (if \<not> wal_open w then (w, st, 0, False)
      else let content = fs_content fs (wal_path w);
               (st', max_seq, good) = replay_loop ap content st 0 0
           in (w\<lparr>wal_good := good, wal_pos := length content\<rparr>, st', max_seq, True))"

definition truncate_to_last_good :: "wal \<Rightarrow> fsys \<Rightarrow> fsys \<times> bool" where
  "truncate_to_last_good w fs =
     (if \<not> wal_open w then (fs, False)
      else if fs_deny fs (wal_path w) then (fs, False)
      else let c = fs_content fs (wal_path w)
           in (fs\<lparr>fs_files := (fs_files fs)(wal_path w \<mapsto>
                  take (wal_good w) c @ replicate (wal_good w - length c) (CHR 0x00))\<rparr>, True))"

definition wal_close :: "wal \<Rightarrow> wal" where
  "wal_close w = w\<lparr>wal_open := False\<rparr>"

text \<open>The loop over \<^verbatim>\<open>buffer_\<close>: each record is written where the descriptor stands.\<close>

fun flush_records :: "string list \<Rightarrow> wal \<Rightarrow> fsys \<Rightarrow> wal \<times> fsys \<times> bool" where
  "flush_records [] w fs = (w, fs, True)"
| "flush_records (rec # recs) w fs =
     (let (ok, ws, out) = write_loop (fs_writes fs) rec;
          c = put_at (fs_content fs (wal_path w)) (wal_pos w) out;
          fs' = fs\<lparr>fs_files := (fs_files fs)(wal_path w \<mapsto> c), fs_writes := ws\<rparr>;
          w' = w\<lparr>wal_pos := wal_pos w + length out\<rparr>
      in if ok then flush_records recs w' fs' else (w', fs', False))"

definition wal_flush :: "wal \<Rightarrow> fsys \<Rightarrow> wal \<times> fsys \<times> bool" where
  "wal_flush w fs =
     (if \<not> wal_open w then (w, fs, False)
      else if wal_buffer w = [] then (w, fs, True)
      else let (w1, fs1, ok) = flush_records (wal_buffer w) w fs
           in if \<not> ok then (w1, fs1, False)
              else let (fs2, synced) = fs_fsync fs1
                   in if \<not> synced then (w1, fs2, False)
                      else (w1\<lparr>wal_buffer := []\<rparr>, fs2, True))"

section \<open>Round trip\<close>

definition wal_ok :: "wal_record \<Rightarrow> bool" where
  "wal_ok r \<longleftrightarrow> length (wr_key r) < 2 ^ 32 \<and> length (wr_val r) < 2 ^ 32
             \<and> (wr_type r = WalDel \<longrightarrow> wr_val r = [])"

lemma wal_encode_eq: "wal_encode r = wal_payload r @ le_bytes 4 (unat (crc32_update 0 (wal_payload r)))"
  by (simp add: wal_encode_def wal_payload_def Let_def crc32_update_append)

lemma length_wal_header [simp]: "length (wal_header t q k v) = 23"
  by (simp add: wal_header_def)

lemma type_byte_simps [simp]: "type_byte WalPut = 1" "type_byte WalDel = 2" "type_byte t < 256"
  by (simp_all add: type_byte_def split: wal_type.splits)

lemma wal_header_fields:
  assumes "k < 2 ^ 32" "v < 2 ^ 32"
  shows "le_val (take 4 (wal_header t q k v)) = kMagic"
    "le_val (take 2 (drop 4 (wal_header t q k v))) = kVersion"
    "le_val (take 1 (drop 6 (wal_header t q k v))) = type_byte t"
    "le_val (take 4 (drop 7 (wal_header t q k v))) = k"
    "le_val (take 4 (drop 11 (wal_header t q k v))) = v"
    "word_of_nat (le_val (take 8 (drop 15 (wal_header t q k v)))) = q"
  using assms
  by (simp_all add: wal_header_def le_val_le_bytes kMagic_def kVersion_def)

text \<open>The decoder on any header and body with four checksum bytes behind it.\<close>

lemma wal_next_payload:
  assumes "wal_ok r" "length cs = 4"
  shows "wal_next (wal_payload r @ cs @ rest) =
     (if unat (crc32_update 0 (wal_payload r)) = le_val cs then Some (r, rest) else None)"
proof -
  have lens: "length (wr_key r) < 2 ^ 32" "length (wr_val r) < 2 ^ 32"
    using assms by (simp_all add: wal_ok_def)
  show ?thesis
  proof (cases "wr_type r")
    case WalPut
    then show ?thesis
      using assms(2) wal_header_fields [OF lens, of WalPut "wr_seq r"]
      by (simp add: wal_next_def wal_payload_def Let_def header_size_def crc32_update_append)
  next
    case WalDel
    with assms have "wr_val r = []" by (simp add: wal_ok_def)
    with WalDel show ?thesis
      using assms(2) wal_header_fields [OF lens, of WalDel "wr_seq r"]
      by (simp add: wal_next_def wal_payload_def Let_def header_size_def crc32_update_append)
  qed
qed

lemma unat_u32_bytes: "le_val (le_bytes 4 (unat (c :: u32))) = unat c"
  by (simp add: le_val_le_bytes)

lemma wal_next_encode: "wal_ok r \<Longrightarrow> wal_next (wal_encode r @ rest) = Some (r, rest)"
  by (simp add: wal_encode_eq wal_next_payload unat_u32_bytes)

lemma wal_next_torn:
  assumes "wal_ok r" "n < length (wal_encode r)"
  shows "wal_next (take n (wal_encode r)) = None"
proof (cases "n < 23")
  case True
  then have "length (take n (wal_encode r)) < header_size"
    by (simp add: header_size_def min_less_iff_disj)
  then show ?thesis by (simp only: wal_next_def if_True)
next
  case False
  have lens: "length (wr_key r) < 2 ^ 32" "length (wr_val r) < 2 ^ 32"
    using assms by (simp_all add: wal_ok_def)
  show ?thesis
  proof (cases "wr_type r")
    case WalPut
    then show ?thesis
      using assms(2) False wal_header_fields [OF lens, of WalPut "wr_seq r"]
      by (auto simp: wal_encode_eq wal_next_def wal_payload_def Let_def header_size_def)
  next
    case WalDel
    with assms have "wr_val r = []" by (simp add: wal_ok_def)
    with WalDel show ?thesis
      using assms(2) False wal_header_fields [OF lens, of WalDel "wr_seq r"]
      by (auto simp: wal_encode_eq wal_next_def wal_payload_def Let_def header_size_def)
  qed
qed

interpretation wal_fmt: record_format wal_encode wal_next wal_ok
proof unfold_locales
  show "wal_next (wal_encode x @ r) = Some (x, r)" if "wal_ok x" for x r
    using that by (rule wal_next_encode)
  show "wal_next (take n (wal_encode x)) = None" if "wal_ok x" "n < length (wal_encode x)" for x n
    using that by (rule wal_next_torn)
  show "wal_encode x \<noteq> []" if "wal_ok x" for x
    by (simp add: wal_encode_eq wal_payload_def wal_header_def)
qed

section \<open>Replay\<close>

text \<open>The loop applies the decodable records in file order and keeps the largest sequence number.\<close>

lemma replay_loop_decode:
  "fst (replay_loop ap s st mx good) = fold ap (decode_all wal_next s) st
   \<and> fst (snd (replay_loop ap s st mx good)) = fold (\<lambda>r m. max m (wr_seq r)) (decode_all wal_next s) mx"
proof (induction ap s st mx good rule: replay_loop.induct)
  case (1 ap s st mx good)
  show ?case
  proof (cases "wal_next s")
    case None
    then show ?thesis by (simp add: replay_loop.simps [of ap s] wal_fmt.decode_all_stop)
  next
    case (Some p)
    then obtain r rest where p: "wal_next s = Some (r, rest)" by (cases p) auto
    then have "decode_all wal_next s = r # decode_all wal_next rest"
      using wal_next_shorter by (subst decode_all.simps) simp
    then show ?thesis
      using 1 [OF p [unfolded prod.case_eq_if] refl] p
      by (simp add: replay_loop.simps [of ap s])
  qed
qed

lemma replay_loop_encode:
  assumes "wal_ok r"
  shows "replay_loop ap (wal_encode r @ s) st mx good =
     replay_loop ap s (ap r st) (max mx (wr_seq r)) (good + length (wal_encode r))"
  using assms by (subst replay_loop.simps) (simp add: wal_next_encode)

lemma replay_loop_concat:
  assumes "\<forall>r\<in>set rs. wal_ok r"
  shows "replay_loop ap (concat (map wal_encode rs) @ s) st mx good =
     replay_loop ap s (fold ap rs st) (fold (\<lambda>r m. max m (wr_seq r)) rs mx)
       (good + length (concat (map wal_encode rs)))"
  using assms by (induction rs arbitrary: st mx good) (simp_all add: replay_loop_encode add.assoc)

lemma replay_loop_stop: "wal_next s = None \<Longrightarrow> replay_loop ap s st mx good = (st, mx, good)"
  by (subst replay_loop.simps) simp

lemma wal_next_Nil [simp]: "wal_next [] = None"
  by (simp add: wal_next_def header_size_def)

section \<open>Corruption\<close>

lemma of_char_low: "(of_char (char_of (v mod 256 :: nat) :: char) :: u32) = word_of_nat (take_bit 8 v)"
proof -
  have "(of_char (char_of (v mod 256 :: nat) :: char) :: u32) = of_nat (of_char (char_of (v mod 256 :: nat) :: char))"
    by (simp only: of_nat_of_char)
  then show ?thesis by (simp add: take_bit_eq_mod)
qed

lemma bit_le_word_le_bytes: "bit (le_word (le_bytes n v)) k \<longleftrightarrow> k < 32 \<and> k < 8 * n \<and> bit v k"
proof (induction n arbitrary: v k)
  case (Suc n)
  have low: "bit (of_char (char_of (v mod 256) :: char) :: u32) k \<longleftrightarrow> k < 32 \<and> k < 8 \<and> bit v k"
    unfolding of_char_low bit_of_nat_iff by (auto simp: bit_take_bit_iff possible_bit_word)
  have "bit (v div 256) (k - 8) = bit v k" if "8 \<le> k"
  proof -
    have "v div 256 = drop_bit 8 v" by (simp add: drop_bit_eq_div)
    then show ?thesis using that by (simp add: bit_drop_bit_eq)
  qed
  then have high: "bit (push_bit 8 (le_word (le_bytes n (v div 256)))) k
      \<longleftrightarrow> 8 \<le> k \<and> k < 32 \<and> k - 8 < 8 * n \<and> bit v k"
    using Suc [of "v div 256" "k - 8"] by (auto simp: bit_push_bit_iff)
  show ?case
    unfolding le_bytes.simps le_word_simps bit_xor_iff low high by auto
qed simp

lemma le_word_le_bytes: "n \<le> 4 \<Longrightarrow> le_word (le_bytes n v) = word_of_nat (take_bit (8 * n) v)"
  by (rule bit_word_eqI) (auto simp: bit_le_word_le_bytes bit_of_nat_iff bit_take_bit_iff possible_bit_word)

text \<open>A message followed by its own checksum always leaves the same remainder.\<close>

lemma crc32_residue:
  "crc32_update 0 (m @ le_bytes 4 (unat (crc32_update 0 m))) = NOT ((crc_step ^^ 32) (- 1))"
proof -
  let ?d = "foldl crc_byte_ref (NOT 0) m"
  have "le_word (le_bytes 4 (unat (NOT ?d))) = NOT ?d"
    by (simp add: le_word_le_bytes take_bit_nat_eq_self unat_u32_less [simplified])
  then have "foldl crc_byte_ref ?d (le_bytes 4 (unat (NOT ?d))) = (crc_step ^^ 32) (?d XOR NOT ?d)"
    by (simp add: crc_feed_word)
  moreover have "?d XOR NOT ?d = - 1"
    by (rule bit.xor_cancel_right)
  ultimately show ?thesis
    by (simp add: crc32_update_eq_ref crc32_ref_def)
qed

text \<open>Bytes that agree with a record up to the length fields still have the shape of a record.\<close>

lemma wal_same_shape:
  assumes "wal_ok r" "length b = length (wal_encode r)" "take 15 b = take 15 (wal_encode r)"
  shows "\<exists>r' cs. b = wal_payload r' @ cs \<and> wal_ok r' \<and> length cs = 4"
proof -
  let ?k = "length (wr_key r)" and ?v = "if wr_type r = WalPut then length (wr_val r) else 0"
  define r' where "r' = \<lparr>wr_type = wr_type r, wr_seq = word_of_nat (le_val (take 8 (drop 15 b))),
    wr_key = take ?k (drop 23 b), wr_val = take ?v (drop (23 + ?k) b)\<rparr>"
  define cs where "cs = drop (23 + ?k + ?v) b"
  have len: "length b = 23 + ?k + ?v + 4"
    using assms(2) by (simp add: wal_encode_eq wal_payload_def)
  have ok: "wal_ok r'" and lcs: "length cs = 4"
    using assms(1) len by (auto simp: r'_def cs_def wal_ok_def)
  have v: "length (wr_val r) = ?v"
    using assms(1) by (cases "wr_type r") (auto simp: wal_ok_def)
  have lens: "length (wr_key r') = ?k" "length (wr_val r') = ?v"
    using len by (auto simp: r'_def)
  have "take 8 (drop 15 b) = le_bytes 8 (unat (wr_seq r'))"
  proof -
    have "length (take 8 (drop 15 b)) = 8" using len by simp
    then have "le_bytes 8 (le_val (take 8 (drop 15 b))) = take 8 (drop 15 b)"
      and "le_val (take 8 (drop 15 b)) < 2 ^ 64"
      using le_bytes_le_val [of "take 8 (drop 15 b)"] le_val_bound [of "take 8 (drop 15 b)"] by simp_all
    then show ?thesis
      by (simp add: r'_def unsigned_of_nat take_bit_nat_eq_self)
  qed
  moreover have "take 15 b = take 15 (wal_header (wr_type r') (wr_seq r') (length (wr_key r')) (length (wr_val r')))"
    using assms(3) v by (simp add: wal_encode_eq wal_payload_def wal_header_def lens) (simp add: r'_def)
  ultimately have hd: "take 23 b = wal_header (wr_type r') (wr_seq r') (length (wr_key r')) (length (wr_val r'))"
    using take_add [of 15 8 b] by (simp add: wal_header_def)
  have "b = take 23 b @ take ?k (drop 23 b) @ take ?v (drop (23 + ?k) b) @ cs"
    unfolding cs_def by (metis append_take_drop_id drop_drop add.commute)
  also have "\<dots> = wal_payload r' @ cs"
    using hd by (simp add: wal_payload_def) (simp add: r'_def)
  finally show ?thesis using ok lcs by blast
qed

lemma wal_next_corrupt:
  assumes ok: "wal_ok r" and enc: "wal_encode r = pre @ xs @ post"
    and burst: "length xs = length ys" "length xs \<le> 4" "xs \<noteq> ys" and pre: "15 \<le> length pre"
  shows "wal_next ((pre @ ys @ post) @ rest) = None"
proof -
  obtain r' cs where b: "pre @ ys @ post = wal_payload r' @ cs" "wal_ok r'" "length cs = 4"
    using wal_same_shape [OF ok, of "pre @ ys @ post"] enc burst(1) pre by auto
  have "unat (crc32_update 0 (wal_payload r')) \<noteq> le_val cs"
  proof
    assume "unat (crc32_update 0 (wal_payload r')) = le_val cs"
    then have "cs = le_bytes 4 (unat (crc32_update 0 (wal_payload r')))"
      using b(3) le_bytes_le_val [of cs] by simp
    then have "crc32_update 0 (pre @ ys @ post) = crc32_update 0 (pre @ xs @ post)"
      using crc32_residue [of "wal_payload r'"] crc32_residue [of "wal_payload r"] b(1) enc
      by (simp add: wal_encode_eq)
    then show False
      using crc32_detects_burst [OF burst, of 0 pre post] by simp
  qed
  then show ?thesis
    unfolding b(1) using wal_next_payload [OF b(2,3), of rest] by simp
qed

section \<open>Flush\<close>

text \<open>
  However the system splits up or fails the writes, the file grows by a prefix of the buffered
  records, and by all of them when every write is reported complete.
\<close>

lemma flush_records_appends:
  assumes "flush_records recs w fs = (w', fs', ok)" "wal_pos w = length (fs_content fs (wal_path w))"
  shows "\<exists>out rest. concat recs = out @ rest \<and> (ok \<longrightarrow> rest = [])
       \<and> fs_content fs' (wal_path w) = fs_content fs (wal_path w) @ out
       \<and> w' = w\<lparr>wal_pos := length (fs_content fs' (wal_path w))\<rparr>
       \<and> (\<forall>p. p \<noteq> wal_path w \<longrightarrow> fs_files fs' p = fs_files fs p)"
  using assms
proof (induction recs arbitrary: w fs)
  case Nil
  then show ?case by auto
next
  case (Cons rec recs)
  obtain ok1 ws out where wl: "write_loop (fs_writes fs) rec = (ok1, ws, out)"
    by (metis prod_cases3)
  obtain rest1 where r1: "rec = out @ rest1" "ok1 \<longrightarrow> rest1 = []"
    using write_loop_prefix [OF wl] by blast
  define fs1 where "fs1 = fs\<lparr>fs_files := (fs_files fs)(wal_path w \<mapsto> fs_content fs (wal_path w) @ out),
    fs_writes := ws\<rparr>"
  define w1 where "w1 = w\<lparr>wal_pos := wal_pos w + length out\<rparr>"
  have c1: "fs_content fs1 (wal_path w) = fs_content fs (wal_path w) @ out"
    by (simp add: fs1_def fs_content_def)
  have step: "flush_records (rec # recs) w fs = (if ok1 then flush_records recs w1 fs1 else (w1, fs1, False))"
    using wl Cons.prems(2) by (simp add: fs1_def w1_def put_at_end Let_def)
  show ?case
  proof (cases ok1)
    case False
    then have "w' = w1" "fs' = fs1" "\<not> ok" using step Cons.prems(1) by auto
    then show ?thesis
      using r1 c1 Cons.prems(2) by (intro exI [of _ out] exI [of _ "rest1 @ concat recs"])
        (auto simp: fs1_def w1_def fs_content_def)
  next
    case True
    have "flush_records recs w1 fs1 = (w', fs', ok)" "wal_pos w1 = length (fs_content fs1 (wal_path w1))"
      using step True Cons.prems c1 by (simp_all add: w1_def)
    then obtain out2 rest2 where "concat recs = out2 @ rest2" "ok \<longrightarrow> rest2 = []"
      "fs_content fs' (wal_path w1) = fs_content fs1 (wal_path w1) @ out2"
      "w' = w1\<lparr>wal_pos := length (fs_content fs' (wal_path w1))\<rparr>"
      "\<forall>p. p \<noteq> wal_path w1 \<longrightarrow> fs_files fs' p = fs_files fs1 p"
      using Cons.IH [of w1 fs1] by blast
    then show ?thesis
      using r1 True c1 by (intro exI [of _ "out @ out2"] exI [of _ rest2])
        (auto simp: w1_def fs1_def)
  qed
qed

lemma fs_content_fsync [simp]:
  "fs_fsync fs = (fs', b) \<Longrightarrow> fs_files fs' = fs_files fs"
  by (auto simp: fs_fsync_def split: list.splits)

lemma wal_flush_appends:
  assumes "wal_flush w fs = (w', fs', ok)" "wal_open w"
    "wal_pos w = length (fs_content fs (wal_path w))"
  shows "\<exists>out rest. concat (wal_buffer w) = out @ rest \<and> (ok \<longrightarrow> rest = [])
       \<and> fs_content fs' (wal_path w) = fs_content fs (wal_path w) @ out
       \<and> w' = w\<lparr>wal_pos := length (fs_content fs' (wal_path w)),
                wal_buffer := (if ok then [] else wal_buffer w)\<rparr>
       \<and> (\<forall>p. p \<noteq> wal_path w \<longrightarrow> fs_files fs' p = fs_files fs p)"
proof (cases "wal_buffer w = []")
  case True
  then show ?thesis using assms by (auto simp: wal_flush_def)
next
  case False
  obtain w1 fs1 ok1 where fr: "flush_records (wal_buffer w) w fs = (w1, fs1, ok1)"
    by (metis prod_cases3)
  obtain fs2 b where sy: "fs_fsync fs1 = (fs2, b)" by fastforce
  from flush_records_appends [OF fr assms(3)] obtain out rest where *:
    "concat (wal_buffer w) = out @ rest" "ok1 \<longrightarrow> rest = []"
    "fs_content fs1 (wal_path w) = fs_content fs (wal_path w) @ out"
    "w1 = w\<lparr>wal_pos := length (fs_content fs1 (wal_path w))\<rparr>"
    "\<forall>p. p \<noteq> wal_path w \<longrightarrow> fs_files fs1 p = fs_files fs p"
    by blast
  have "fs_content fs2 = fs_content fs1"
    using sy by (simp add: fs_content_def fun_eq_iff)
  with * False assms(1,2) fr sy show ?thesis
    by (intro exI [of _ out] exI [of _ rest])
      (auto simp: wal_flush_def split: if_splits)
qed

lemma flush_records_sound:
  "\<lbrakk>fs_sound fs; wal_pos w = length (fs_content fs (wal_path w))\<rbrakk>
   \<Longrightarrow> \<exists>w' fs'. flush_records recs w fs = (w', fs', True) \<and> fs_sound fs'"
proof (induction recs arbitrary: w fs)
  case (Cons rec recs)
  let ?fs = "fs\<lparr>fs_files := (fs_files fs)(wal_path w \<mapsto> fs_content fs (wal_path w) @ rec), fs_writes := []\<rparr>"
  let ?w = "w\<lparr>wal_pos := wal_pos w + length rec\<rparr>"
  have "fs_writes fs = []" using Cons.prems by (simp add: fs_sound_def)
  with Cons.prems(2) have "flush_records (rec # recs) w fs = flush_records recs ?w ?fs"
    by (simp add: put_at_end)
  moreover have "fs_sound ?fs" "wal_pos ?w = length (fs_content ?fs (wal_path ?w))"
    using Cons.prems by (simp_all add: fs_sound_def fs_content_def)
  ultimately show ?case
    using Cons.IH [of ?fs ?w] by simp
qed simp

lemma wal_flush_sound:
  assumes "fs_sound fs" "wal_open w" "wal_pos w = length (fs_content fs (wal_path w))"
  shows "\<exists>w' fs'. wal_flush w fs = (w', fs', True) \<and> fs_sound fs'"
  using flush_records_sound [OF assms(1,3), of "wal_buffer w"] assms
  by (auto simp: wal_flush_def fs_rules)

section \<open>Appending behind a torn record\<close>

text \<open>
  \<^verbatim>\<open>replay_into\<close> leaves the descriptor at the end of the file, behind a torn tail if there is one.
  What is appended there is out of reach of the next scan.
\<close>

lemma wal_next_bad_magic: "le_val (take 4 s) \<noteq> kMagic \<Longrightarrow> wal_next s = None"
  by (simp add: wal_next_def Let_def header_size_def)

lemma wal_next_torn_magic:
  assumes "0 < n" "n < 4"
  shows "wal_next (take n (wal_encode r) @ wal_encode q @ rest) = None"
proof -
  have magic: "take 4 (wal_encode x @ ys) = le_bytes 4 kMagic" for x ys
    by (simp add: wal_encode_eq wal_payload_def wal_header_def)
  have "le_bytes 4 kMagic = ''KVLG''"
    by (simp add: kMagic_def le_bytes_numeral char_of_eq_iff)
  then obtain a b c d where m: "le_bytes 4 kMagic = [a, b, c, d]" "a \<noteq> b" "a \<noteq> c" "a \<noteq> d"
    by simp
  let ?s = "take n (wal_encode r) @ wal_encode q @ rest"
  have "take n (wal_encode r) = take n [a, b, c, d]"
  proof -
    have "take n (wal_encode r) = take n (take 4 (wal_encode r))"
      using assms by (simp add: min_def)
    also have "take 4 (wal_encode r) = [a, b, c, d]"
      using magic [of r "[]"] m(1) by simp
    finally show ?thesis .
  qed
  moreover have "wal_encode q @ rest = [a, b, c, d] @ drop 4 (wal_encode q @ rest)"
    using append_take_drop_id [of 4 "wal_encode q @ rest"] unfolding magic m(1) by (rule sym)
  ultimately obtain t where t: "?s = take n [a, b, c, d] @ a # b # c # d # t"
    by (metis append_Cons append_Nil)
  consider "n = 1" | "n = 2" | "n = 3" using assms by linarith
  then have "take 4 ?s \<noteq> [a, b, c, d]"
    unfolding t by cases (use m in auto)
  moreover have "length (take 4 ?s) = 4" unfolding t by simp
  ultimately have "le_val (take 4 ?s) \<noteq> kMagic"
    using le_bytes_le_val [of "take 4 ?s"] m(1) by metis
  then show ?thesis by (rule wal_next_bad_magic)
qed

section \<open>Properties\<close>

lemma replay_into_append:
  assumes "wal_open w" "\<forall>r\<in>set rs. wal_ok r" "fs_content fs (wal_path w) = concat (map wal_encode rs) @ tail"
    "wal_next tail = None"
  shows "replay_into ap w fs st =
     (w\<lparr>wal_good := length (concat (map wal_encode rs)), wal_pos := length (concat (map wal_encode rs) @ tail)\<rparr>,
      fold ap rs st, fold (\<lambda>r m. max m (wr_seq r)) rs 0, True)"
  using assms by (simp add: replay_into_def replay_loop_concat replay_loop_stop)

lemma replay_into_cut:
  assumes "wal_open w" "\<forall>r\<in>set rs. wal_ok r" "fs_content fs (wal_path w) = take n (concat (map wal_encode rs))"
  shows "\<exists>j. fst (snd (replay_into ap w fs st)) = fold ap (take j rs) st
     \<and> (\<forall>i\<le>length rs. i \<le> j \<longleftrightarrow> length (concat (map wal_encode (take i rs))) \<le> n)"
proof -
  obtain j where j: "decode_all wal_next (take n (concat (map wal_encode rs))) = take j rs"
    "\<forall>i\<le>length rs. i \<le> j \<longleftrightarrow> length (concat (map wal_encode (take i rs))) \<le> n"
    using wal_fmt.decode_all_cut [OF assms(2), of n] by blast
  have "fst (snd (replay_into ap w fs st)) = fold ap (take j rs) st"
    using assms(1,3) replay_loop_decode [of ap "take n (concat (map wal_encode rs))" st 0 0] j(1)
    by (simp add: replay_into_def case_prod_beta)
  with j(2) show ?thesis by blast
qed

text \<open>
  C19. Recovery restores the log: replaying a file that holds the encodings of well-formed records
  applies exactly these records, in order, and reports the largest sequence number and success.
\<close>

theorem wal_replay_roundtrip:
  assumes "wal_open w" "\<forall>r\<in>set rs. wal_ok r" "fs_content fs (wal_path w) = concat (map wal_encode rs)"
  shows "replay_into ap w fs st =
     (w\<lparr>wal_good := length (concat (map wal_encode rs)), wal_pos := length (concat (map wal_encode rs))\<rparr>,
      fold ap rs st, fold (\<lambda>r m. max m (wr_seq r)) rs 0, True)"
  using replay_into_append [OF assms(1,2), of fs "[]" ap st] assms(3) by simp

definition wal_example :: "wal_record list" where
  "wal_example = [\<lparr>wr_type = WalPut, wr_seq = 1, wr_key = ''a'', wr_val = ''x''\<rparr>,
     \<lparr>wr_type = WalDel, wr_seq = 2, wr_key = ''a'', wr_val = []\<rparr>]"

definition wal_example_at :: "string \<Rightarrow> wal \<times> fsys" where
  "wal_example_at c = (wal_init\<lparr>wal_open := True, wal_path := ''w'', wal_pos := length c\<rparr>,
     fs_empty\<lparr>fs_files := [''w'' \<mapsto> c]\<rparr>)"

lemma wal_example_ok: "\<forall>r\<in>set wal_example. wal_ok r"
  by (simp add: wal_example_def wal_ok_def)

lemma wal_example_at_fields [simp]:
  "wal_open (fst (wal_example_at c))" "wal_path (fst (wal_example_at c)) = ''w''"
  "wal_pos (fst (wal_example_at c)) = length c" "wal_buffer (fst (wal_example_at c)) = []"
  "fs_content (snd (wal_example_at c)) ''w'' = c" "fs_sound (snd (wal_example_at c))"
  by (simp_all add: wal_example_at_def fs_content_def fs_empty_def wal_init_def fs_sound_def)

theorem wal_replay_roundtrip_witness:
  "fst (snd (replay_into (#) (fst (wal_example_at (concat (map wal_encode wal_example))))
      (snd (wal_example_at (concat (map wal_encode wal_example)))) [])) = rev wal_example"
  using wal_replay_roundtrip [of "fst (wal_example_at (concat (map wal_encode wal_example)))" wal_example
      "snd (wal_example_at (concat (map wal_encode wal_example)))" "(#)" "[]"] wal_example_ok
  by (simp add: fold_Cons_rev)

text \<open>
  C9. Crash safety of a flush: whatever way the system splits up, shortens or fails the writes and the
  sync of a flush, recovery afterwards sees the records that were in the file before, followed by a
  prefix of the buffered records, and by all of them when the flush reported success.
\<close>

theorem wal_flush_then_replay:
  assumes "wal_open w" "wal_pos w = length (fs_content fs (wal_path w))"
    and "\<forall>r\<in>set rs \<union> set bs. wal_ok r"
    and "fs_content fs (wal_path w) = concat (map wal_encode rs)" "wal_buffer w = map wal_encode bs"
    and flush: "wal_flush w fs = (w', fs', ok)"
  shows "\<exists>j. fst (snd (replay_into ap w' fs' st)) = fold ap (rs @ take j bs) st \<and> (ok \<longrightarrow> length bs \<le> j)"
proof -
  obtain out rest where o: "concat (map wal_encode bs) = out @ rest" "ok \<longrightarrow> rest = []"
    "fs_content fs' (wal_path w) = concat (map wal_encode rs) @ out"
    and w': "w' = w\<lparr>wal_pos := length (fs_content fs' (wal_path w)), wal_buffer := (if ok then [] else wal_buffer w)\<rparr>"
    using wal_flush_appends [OF flush assms(1,2)] assms(4,5) by auto
  let ?n = "length (concat (map wal_encode rs)) + length out"
  have ok: "\<forall>r\<in>set (rs @ bs). wal_ok r" using assms(3) by auto
  have "fs_content fs' (wal_path w') = take ?n (concat (map wal_encode (rs @ bs)))"
    using o by (simp add: w')
  then obtain j where j: "fst (snd (replay_into ap w' fs' st)) = fold ap (take j (rs @ bs)) st"
    "\<forall>i\<le>length (rs @ bs). i \<le> j \<longleftrightarrow> length (concat (map wal_encode (take i (rs @ bs)))) \<le> ?n"
    using replay_into_cut [OF _ ok, of w' fs' ?n ap st] assms(1) by (auto simp: w')
  have "length rs \<le> j" using j(2) [rule_format, of "length rs"] by simp
  moreover have "ok \<longrightarrow> length (rs @ bs) \<le> j"
    using j(2) [rule_format, of "length (rs @ bs)"] o(1,2) by simp
  ultimately show ?thesis
    using j(1) by (intro exI [of _ "j - length rs"]) auto
qed

text \<open>A flush whose second write call fails.\<close>

theorem wal_flush_then_replay_witness:
  "\<exists>w fs j. wal_flush (fst (wal_example_at [])\<lparr>wal_buffer := map wal_encode wal_example\<rparr>)
      (snd (wal_example_at [])\<lparr>fs_writes := [3, -1]\<rparr>) = (w, fs, False)
    \<and> fst (snd (replay_into (#) w fs [])) = rev (take j wal_example)"
proof -
  let ?w = "fst (wal_example_at [])\<lparr>wal_buffer := map wal_encode wal_example\<rparr>"
    and ?fs = "snd (wal_example_at [])\<lparr>fs_writes := [3, -1]\<rparr>"
  obtain w fs where f: "wal_flush ?w ?fs = (w, fs, False)"
    by (simp add: wal_flush_def wal_example_def wal_encode_eq wal_payload_def wal_header_def le_bytes_numeral)
  from wal_flush_then_replay [OF _ _ _ _ _ f, of "[]" wal_example "(#)" "[]"] f show ?thesis
    using wal_example_ok by (auto simp: fold_Cons_rev)
qed

text \<open>
  C20. Damage is detected: a burst of at most four changed bytes behind the length fields of a record
  makes the scan stop in front of that record, whatever follows it; the records before are applied.
\<close>

theorem wal_replay_corrupt:
  assumes "wal_open w" "\<forall>r\<in>set rs. wal_ok r" "wal_ok d" "wal_encode d = pre @ xs @ post"
    and "length xs = length ys" "length xs \<le> 4" "xs \<noteq> ys" "15 \<le> length pre"
    and "fs_content fs (wal_path w) = concat (map wal_encode rs) @ (pre @ ys @ post) @ rest"
  shows "fst (snd (replay_into ap w fs st)) = fold ap rs st"
  using replay_into_append [OF assms(1,2,9) wal_next_corrupt [OF assms(3-8)], of ap st] by simp

text \<open>The key byte of the first record changed from \<open>a\<close> to \<open>b\<close>.\<close>

theorem wal_replay_corrupt_witness:
  "let c = take 23 (wal_encode (hd wal_example)) @ ''b'' @ drop 24 (wal_encode (hd wal_example))
   in fst (snd (replay_into (#) (fst (wal_example_at c)) (snd (wal_example_at c)) [])) = []"
proof -
  let ?e = "wal_encode (hd wal_example)"
  let ?c = "take 23 ?e @ ''b'' @ drop 24 ?e"
  have "?e = take 23 ?e @ ''a'' @ drop 24 ?e" "23 \<le> length ?e"
    by (simp_all add: wal_example_def wal_encode_eq wal_payload_def)
  then show ?thesis
    using wal_replay_corrupt [of "fst (wal_example_at ?c)" "[]" "hd wal_example" "take 23 ?e" "''a''" "drop 24 ?e"
        "''b''" "snd (wal_example_at ?c)" "[]" "(#)" "[]"] wal_example_ok
    by (simp add: wal_example_def)
qed

text \<open>
  C39. A torn tail hides what is appended behind it.  When a crash leaves one to three bytes of a record
  at the end of the file, recovery keeps the descriptor behind them, and records flushed later are not
  seen by the next recovery, although their flush reported success.
\<close>

theorem wal_torn_tail_hides_later_records:
  assumes "wal_open w" "\<forall>r\<in>set rs. wal_ok r" "0 < n" "n < 4"
    and "fs_content fs (wal_path w) = concat (map wal_encode rs) @ take n (wal_encode torn)"
    and "wal_flush (fst (replay_into ap w fs st)\<lparr>wal_buffer := map wal_encode (b # bs)\<rparr>) fs = (w2, fs2, True)"
  shows "fst (snd (replay_into ap w2 fs2 st)) = fold ap rs st"
proof -
  let ?c = "concat (map wal_encode rs) @ take n (wal_encode torn)"
  let ?w1 = "fst (replay_into ap w fs st)\<lparr>wal_buffer := map wal_encode (b # bs)\<rparr>"
  have "wal_open ?w1" "wal_path ?w1 = wal_path w" "wal_pos ?w1 = length ?c"
    using assms(1,5) by (simp_all add: replay_into_def case_prod_beta Let_def)
  then have "fs_content fs2 (wal_path w) = ?c @ concat (map wal_encode (b # bs)) \<and> wal_open w2 \<and> wal_path w2 = wal_path w"
    using wal_flush_appends [OF assms(6)] assms(5) by auto
  then show ?thesis
    using replay_into_append [of w2 rs fs2 "take n (wal_encode torn) @ wal_encode b @ concat (map wal_encode bs)" ap st]
      assms(2) wal_next_torn_magic [OF assms(3,4)] by simp
qed

theorem wal_torn_tail_hides_later_records_witness:
  "let c = take 1 (wal_encode (hd wal_example)); w = fst (wal_example_at c); fs = snd (wal_example_at c)
   in \<exists>w2 fs2. wal_flush (fst (replay_into (#) w fs [])\<lparr>wal_buffer := map wal_encode wal_example\<rparr>) fs = (w2, fs2, True)
        \<and> fst (snd (replay_into (#) w2 fs2 [])) = []"
proof -
  let ?c = "take 1 (wal_encode (hd wal_example))"
  let ?w = "fst (wal_example_at ?c)" and ?fs = "snd (wal_example_at ?c)"
  let ?w1 = "fst (replay_into (#) ?w ?fs [])\<lparr>wal_buffer := map wal_encode wal_example\<rparr>"
  have "wal_open ?w1" "wal_pos ?w1 = length (fs_content ?fs (wal_path ?w1))"
    by (simp_all add: replay_into_def case_prod_beta Let_def)
  then obtain w2 fs2 where f: "wal_flush ?w1 ?fs = (w2, fs2, True)"
    using wal_flush_sound [of ?fs ?w1] by auto
  then show ?thesis
    using wal_torn_tail_hides_later_records [of ?w "[]" 1 ?fs "hd wal_example" "hd wal_example"
        "tl wal_example" "(#)" "[]"]
    by (simp add: wal_example_def)
qed

end
