(* ===== verification/Memtable.thy ===== *)
theory Memtable
  imports Prelude
begin

text \<open>
  Versions, lookup results and the active table of \<^verbatim>\<open>include/kv/version.h\<close>,
  \<^verbatim>\<open>include/kv/lookup_result.h\<close> and \<^verbatim>\<open>src/memtable.cpp\<close>, with the specification that every level of
  the store refines: a read at timestamp \<open>t\<close> sees the newest version not newer than \<open>t\<close>.
  \<^verbatim>\<open>MemTable::Entries\<close>, a \<^verbatim>\<open>std::map\<close>, is the list of its pairs in key order.
\<close>

section \<open>Data\<close>

record version =
  ver_timestamp :: u64
  ver_value :: "string option"

definition is_tombstone :: "version \<Rightarrow> bool" where
  "is_tombstone v \<longleftrightarrow> ver_value v = None"

datatype lookup_state = NotFound | Value | Tombstone

record lookup_result =
  lr_state :: lookup_state
  lr_value :: "string option"

definition not_found :: lookup_result where
  "not_found = \<lparr>lr_state = NotFound, lr_value = None\<rparr>"

definition found_value :: "string \<Rightarrow> lookup_result" where
  "found_value s = \<lparr>lr_state = Value, lr_value = Some s\<rparr>"

definition tombstone :: lookup_result where
  "tombstone = \<lparr>lr_state = Tombstone, lr_value = None\<rparr>"

type_synonym entries = "(string \<times> version list) list"

record memtable =
  mt_entries :: entries
  mt_size :: u64                   \<comment> \<open>\<^verbatim>\<open>approximate_size_bytes_\<close>\<close>

definition memtable_init :: memtable where
  "memtable_init = \<lparr>mt_entries = [], mt_size = 0\<rparr>"

section \<open>Operations\<close>

text \<open>\<^verbatim>\<open>entries_[key].push_back(v)\<close> on a \<^verbatim>\<open>std::map\<close>.\<close>

fun entries_push :: "string \<Rightarrow> version \<Rightarrow> entries \<Rightarrow> entries" where
  "entries_push k v [] = [(k, [v])]"
| "entries_push k v ((k', vs) # es) =
     (if k < k' then (k, [v]) # (k', vs) # es
      else if k = k' then (k', vs @ [v]) # es
      else (k', vs) # entries_push k v es)"

definition sizeof_Timestamp :: nat where "sizeof_Timestamp = 8"

text \<open>A timestamp and a \<^verbatim>\<open>std::optional<std::string>\<close> of 40 bytes (64-bit libstdc++).\<close>

definition sizeof_Version :: nat where "sizeof_Version = 48"

definition memtable_put :: "string \<Rightarrow> u64 \<Rightarrow> string \<Rightarrow> memtable \<Rightarrow> memtable" where
  "memtable_put key ts val mt =
     mt\<lparr>mt_size := mt_size mt + word_of_nat (length key + length val + sizeof_Timestamp + sizeof_Version),
        mt_entries := entries_push key \<lparr>ver_timestamp = ts, ver_value = Some val\<rparr> (mt_entries mt)\<rparr>"

definition memtable_del :: "string \<Rightarrow> u64 \<Rightarrow> memtable \<Rightarrow> memtable" where
  "memtable_del key ts mt =
     mt\<lparr>mt_size := mt_size mt + word_of_nat (length key + sizeof_Timestamp + sizeof_Version),
        mt_entries := entries_push key \<lparr>ver_timestamp = ts, ver_value = None\<rparr> (mt_entries mt)\<rparr>"

definition approximate_size_bytes :: "memtable \<Rightarrow> u64" where
  "approximate_size_bytes mt = mt_size mt"

definition memtable_empty :: "memtable \<Rightarrow> bool" where
  "memtable_empty mt \<longleftrightarrow> mt_entries mt = []"

definition key_count :: "memtable \<Rightarrow> nat" where
  "key_count mt = length (mt_entries mt)"

definition take_entries :: "memtable \<Rightarrow> entries \<times> memtable" where
  "take_entries mt = (mt_entries mt, mt\<lparr>mt_entries := [], mt_size := 0\<rparr>)"

definition memtable_clear :: "memtable \<Rightarrow> memtable" where
  "memtable_clear mt = mt\<lparr>mt_entries := [], mt_size := 0\<rparr>"

definition snapshot_entries :: "memtable \<Rightarrow> entries" where
  "snapshot_entries mt = mt_entries mt"

text \<open>The loop over \<^verbatim>\<open>versions.rbegin() .. rend()\<close>; the argument is the reversed vector.\<close>

fun scan_back :: "version list \<Rightarrow> u64 \<Rightarrow> lookup_result" where
  "scan_back [] t = not_found"
| "scan_back (v # vs) t =
     (if ver_timestamp v \<le> t
      then case ver_value v of None \<Rightarrow> tombstone | Some s \<Rightarrow> found_value s
      else scan_back vs t)"

definition memtable_get_at :: "memtable \<Rightarrow> string \<Rightarrow> u64 \<Rightarrow> lookup_result" where
  "memtable_get_at mt key t =
     (case map_of (mt_entries mt) key of
        None \<Rightarrow> not_found
      | Some versions \<Rightarrow> scan_back (rev versions) t)"

section \<open>Specification of a versioned read\<close>

definition visible :: "version list \<Rightarrow> u64 \<Rightarrow> version option" where
  "visible vs t = (let xs = filter (\<lambda>v. ver_timestamp v \<le> t) vs in if xs = [] then None else Some (last xs))"

definition result_of :: "version option \<Rightarrow> lookup_result" where
  "result_of r = (case r of None \<Rightarrow> not_found
                  | Some v \<Rightarrow> (case ver_value v of None \<Rightarrow> tombstone | Some s \<Rightarrow> found_value s))"

definition vers :: "entries \<Rightarrow> string \<Rightarrow> version list" where
  "vers es k = (case map_of es k of None \<Rightarrow> [] | Some vs \<Rightarrow> vs)"

abbreviation ts_sorted :: "version list \<Rightarrow> bool" where
  "ts_sorted vs \<equiv> sorted_wrt (<) (map ver_timestamp vs)"

lemma visible_Nil [simp]: "visible [] t = None"
  by (simp add: visible_def)

lemma visible_snoc:
  "visible (vs @ [v]) t = (if ver_timestamp v \<le> t then Some v else visible vs t)"
  by (simp add: visible_def Let_def)

lemma visible_append:
  "visible (us @ vs) t = (case visible vs t of None \<Rightarrow> visible us t | Some v \<Rightarrow> Some v)"
  by (induction vs rule: rev_induct) (simp_all add: visible_snoc flip: append_assoc)

lemma visible_SomeD: "visible vs t = Some v \<Longrightarrow> v \<in> set vs \<and> ver_timestamp v \<le> t"
  by (induction vs rule: rev_induct) (auto simp: visible_snoc split: if_splits)

lemma visible_None_iff: "visible vs t = None \<longleftrightarrow> (\<forall>v\<in>set vs. t < ver_timestamp v)"
  by (induction vs rule: rev_induct) (auto simp: visible_snoc not_le)

text \<open>In a history with increasing timestamps the visible version is the newest one not newer than
  the read timestamp, and is determined by the set of versions.\<close>

lemma visible_newest:
  "\<lbrakk>ts_sorted vs; visible vs t = Some v; w \<in> set vs; ver_timestamp w \<le> t\<rbrakk>
   \<Longrightarrow> ver_timestamp w \<le> ver_timestamp v"
proof (induction vs rule: rev_induct)
  case (snoc x vs)
  then show ?case
    by (cases "ver_timestamp x \<le> t") (auto simp: visible_snoc sorted_wrt_append)
qed simp

lemma ts_sorted_inject:
  "\<lbrakk>ts_sorted vs; v \<in> set vs; w \<in> set vs; ver_timestamp v = ver_timestamp w\<rbrakk> \<Longrightarrow> v = w"
  by (induction vs) auto

lemma visible_iff:
  assumes "ts_sorted vs"
  shows "visible vs t = Some v \<longleftrightarrow>
     v \<in> set vs \<and> ver_timestamp v \<le> t \<and> (\<forall>w\<in>set vs. ver_timestamp w \<le> t \<longrightarrow> ver_timestamp w \<le> ver_timestamp v)"
  (is "?L \<longleftrightarrow> ?R")
proof
  assume ?L
  then show ?R using visible_SomeD visible_newest [OF assms] by blast
next
  assume R: ?R
  then obtain u where u: "visible vs t = Some u"
    using visible_None_iff [of vs t] by (cases "visible vs t") (auto simp: not_le)
  with R have "ver_timestamp u = ver_timestamp v"
    using visible_SomeD [OF u] visible_newest [OF assms u] by (simp add: order_antisym)
  with u R show ?L
    using ts_sorted_inject [OF assms] visible_SomeD [OF u] by metis
qed

section \<open>Levels\<close>

text \<open>
  The store keeps the history of a key in several levels, searched from the newest to the oldest
  until one of them shows a version.  Levels are listed oldest first; a version of an older level is
  older than every version of a newer level, unless the newer level has it too.
\<close>

fun search_levels :: "version list list \<Rightarrow> u64 \<Rightarrow> version option" where
  "search_levels [] t = None"
| "search_levels (l # ls) t = (case visible l t of None \<Rightarrow> search_levels ls t | Some v \<Rightarrow> Some v)"

definition older :: "version list \<Rightarrow> version list \<Rightarrow> bool" where
  "older l m \<longleftrightarrow> (\<forall>v\<in>set l. v \<in> set m \<or> (\<forall>w\<in>set m. ver_timestamp v < ver_timestamp w))"

definition layered :: "version list list \<Rightarrow> bool" where
  "layered ls \<longleftrightarrow> (\<forall>l\<in>set ls. ts_sorted l) \<and> sorted_wrt older ls"

lemma layered_unique:
  assumes "layered ls"
  shows "\<forall>v\<in>\<Union> (set ` set ls). \<forall>w\<in>\<Union> (set ` set ls). ver_timestamp v = ver_timestamp w \<longrightarrow> v = w"
  using assms
proof (induction ls)
  case (Cons l ls)
  then have IH: "\<forall>v\<in>\<Union> (set ` set ls). \<forall>w\<in>\<Union> (set ` set ls). ver_timestamp v = ver_timestamp w \<longrightarrow> v = w"
    by (simp add: layered_def)
  have l: "v = w" if "v \<in> set l" "w \<in> set l" "ver_timestamp v = ver_timestamp w" for v w
    using Cons.prems that ts_sorted_inject [of l v w] by (simp add: layered_def)
  have x: "v = w" if "v \<in> set l" "m \<in> set ls" "w \<in> set m" "ver_timestamp v = ver_timestamp w" for v w m
    using Cons.prems that ts_sorted_inject [of m v w] by (force simp: layered_def older_def)
  show ?case
  proof (intro ballI impI)
    fix v w assume eq: "ver_timestamp v = ver_timestamp w"
      and "v \<in> \<Union> (set ` set (l # ls))" "w \<in> \<Union> (set ` set (l # ls))"
    then obtain lv lw where "lv \<in> set (l # ls)" "v \<in> set lv" "lw \<in> set (l # ls)" "w \<in> set lw" by blast
    moreover have IH': "v = w" if "lv \<in> set ls" "v \<in> set lv" "lw \<in> set ls" "w \<in> set lw"
      using IH that eq by blast
    ultimately show "v = w"
      using eq l [of v w] x [of v lw w] x [of w lv v] by (metis set_ConsD)
  qed
qed simp

definition is_newest :: "version set \<Rightarrow> u64 \<Rightarrow> version option \<Rightarrow> bool" where
  "is_newest S t r \<longleftrightarrow> (case r of
      None \<Rightarrow> \<forall>v\<in>S. t < ver_timestamp v
    | Some v \<Rightarrow> v \<in> S \<and> ver_timestamp v \<le> t \<and> (\<forall>w\<in>S. ver_timestamp w \<le> t \<longrightarrow> ver_timestamp w \<le> ver_timestamp v))"

lemma is_newest_iff:
  assumes "ts_sorted vs"
  shows "is_newest (set vs) t r \<longleftrightarrow> visible vs t = r"
proof (cases r)
  case None
  then show ?thesis using visible_None_iff [of vs t] by (simp add: is_newest_def)
next
  case (Some v)
  then show ?thesis using visible_iff [OF assms, of t v] by (simp add: is_newest_def)
qed

lemma search_levels_newest:
  "layered ls \<Longrightarrow> is_newest (\<Union> (set ` set ls)) t (search_levels (rev ls) t)"
proof (induction ls rule: rev_induct)
  case Nil
  then show ?case by (simp add: is_newest_def)
next
  case (snoc m ls)
  have m: "is_newest (set m) t (visible m t)" and ls: "is_newest (\<Union> (set ` set ls)) t (search_levels (rev ls) t)"
    using snoc by (auto simp: layered_def sorted_wrt_append simp: is_newest_iff)
  have old: "ver_timestamp v < ver_timestamp w \<or> v \<in> set m" if "l \<in> set ls" "v \<in> set l" "w \<in> set m" for l v w
    using snoc.prems that by (auto simp: layered_def sorted_wrt_append older_def)
  show ?case
  proof (cases "visible m t")
    case None
    with m ls show ?thesis
      by (cases "search_levels (rev ls) t") (auto simp: is_newest_def not_le [symmetric])
  next
    case (Some v)
    with m have v: "v \<in> set m" "ver_timestamp v \<le> t" "\<forall>w\<in>set m. ver_timestamp w \<le> t \<longrightarrow> ver_timestamp w \<le> ver_timestamp v"
      by (auto simp: is_newest_def)
    have "ver_timestamp w \<le> ver_timestamp v" if "l \<in> set ls" "w \<in> set l" "ver_timestamp w \<le> t" for l w
      using old [OF that(1,2) v(1)] v(3) that(3) by auto
    with v Some show ?thesis by (auto simp: is_newest_def)
  qed
qed

lemma search_levels_visible:
  "\<lbrakk>layered ls; ts_sorted hist; set hist = \<Union> (set ` set ls)\<rbrakk> \<Longrightarrow> search_levels (rev ls) t = visible hist t"
  using search_levels_newest is_newest_iff by metis

section \<open>The table refines the specification\<close>

lemma scan_back_visible: "scan_back (rev vs) t = result_of (visible vs t)"
  by (induction vs rule: rev_induct)
    (auto simp: visible_snoc result_of_def split: option.splits)

lemma memtable_get_at_visible: "memtable_get_at mt k t = result_of (visible (vers (mt_entries mt) k) t)"
  by (simp add: memtable_get_at_def vers_def scan_back_visible split: option.splits)
    (simp add: result_of_def)

lemma keys_entries_push: "fst ` set (entries_push k v es) = insert k (fst ` set es)"
  by (induction k v es rule: entries_push.induct) auto

lemma sorted_keys_push: "sorted_keys es \<Longrightarrow> sorted_keys (entries_push k v es)"
proof (induction k v es rule: entries_push.induct)
  case (2 k v k' vs es)
  have "\<forall>x\<in>fst ` set (entries_push k v es). k' < x" if "k' < k"
    using that "2.prems" by (auto simp: keys_entries_push)
  with 2 show ?case by (auto simp: neq_iff)
qed simp

lemma vers_push:
  "sorted_keys es \<Longrightarrow> vers (entries_push k v es) k' = vers es k' @ (if k' = k then [v] else [])"
proof (induction k v es rule: entries_push.induct)
  case (1 k v)
  then show ?case by (simp add: vers_def)
next
  case (2 k v j vs es)
  have "map_of es k = None" if "k < j"
    using that "2.prems" by (intro map_of_above) (auto intro: less_trans)
  with 2 show ?case by (auto simp: vers_def split: option.splits)
qed

lemma entries_push_nonempty [simp]: "entries_push k v es \<noteq> []"
  by (cases es) (auto split: if_splits)

lemma vers_Nil [simp]: "vers [] k = []"
  by (simp add: vers_def)

section \<open>The contract of one level of the store\<close>

text \<open>
  What the read path of the store relies on for the active table and for every on-disk table: the
  lookup shows the visible version of the level's own history.
\<close>

locale versioned_level =
  fixes lookup :: "'l \<Rightarrow> string \<Rightarrow> u64 \<Rightarrow> lookup_result"
    and history :: "'l \<Rightarrow> string \<Rightarrow> version list"
    and ok :: "'l \<Rightarrow> bool"
  assumes lookup_visible: "ok l \<Longrightarrow> lookup l k t = result_of (visible (history l k) t)"
begin

lemma not_found_iff: "ok l \<Longrightarrow> lr_state (lookup l k t) = NotFound \<longleftrightarrow> (\<forall>v\<in>set (history l k). t < ver_timestamp v)"
  using visible_None_iff [of "history l k" t]
  by (auto simp: lookup_visible result_of_def not_found_def tombstone_def found_value_def
      split: option.splits)

lemma value_iff:
  "ok l \<Longrightarrow> lookup l k t = found_value s \<longleftrightarrow> (\<exists>v. visible (history l k) t = Some v \<and> ver_value v = Some s)"
  by (auto simp: lookup_visible result_of_def not_found_def tombstone_def found_value_def
      split: option.splits)

lemma tombstone_iff:
  "ok l \<Longrightarrow> lookup l k t = tombstone \<longleftrightarrow> (\<exists>v. visible (history l k) t = Some v \<and> ver_value v = None)"
  by (auto simp: lookup_visible result_of_def not_found_def tombstone_def found_value_def
      split: option.splits)

end

interpretation mem_level: versioned_level memtable_get_at "\<lambda>mt. vers (mt_entries mt)" "\<lambda>_. True"
  by unfold_locales (rule memtable_get_at_visible)

section \<open>Properties\<close>

text \<open>One write of the store as the table sees it.\<close>

definition memtable_apply :: "string \<times> version \<Rightarrow> memtable \<Rightarrow> memtable" where
  "memtable_apply = (\<lambda>(k, v). case ver_value v of
     Some s \<Rightarrow> memtable_put k (ver_timestamp v) s | None \<Rightarrow> memtable_del k (ver_timestamp v))"

lemma mt_entries_apply [simp]: "mt_entries (memtable_apply (k, v) mt) = entries_push k v (mt_entries mt)"
  by (cases v) (auto simp: memtable_apply_def memtable_put_def memtable_del_def split: option.splits)

lemma vers_applies:
  "sorted_keys (mt_entries mt) \<Longrightarrow> sorted_keys (mt_entries (fold memtable_apply ops mt))
   \<and> vers (mt_entries (fold memtable_apply ops mt)) k = vers (mt_entries mt) k @ map snd (filter (\<lambda>op. fst op = k) ops)"
proof (induction ops arbitrary: mt)
  case (Cons op ops)
  obtain k' v where op: "op = (k', v)" by fastforce
  have "sorted_keys (mt_entries (memtable_apply op mt))"
    using Cons.prems by (simp add: op sorted_keys_push)
  from Cons.IH [OF this] Cons.prems show ?case by (simp add: op vers_push)
qed simp

text \<open>
  Snapshot reads: after any sequence of puts and deletes with increasing timestamps, a read at \<open>t\<close>
  returns the outcome of the newest write to the key with a timestamp of at most \<open>t\<close>: its value, a
  tombstone, or not found when there is none.
\<close>

theorem memtable_snapshot_read:
  assumes "sorted_wrt (<) (map (ver_timestamp \<circ> snd) ops)"
  shows "\<exists>r. memtable_get_at (fold memtable_apply ops memtable_init) k t = result_of r
           \<and> is_newest {v. (k, v) \<in> set ops} t r"
proof -
  let ?vs = "map snd (filter (\<lambda>op. fst op = k) ops)"
  have "ts_sorted ?vs"
    using assms by (auto simp: sorted_wrt_map o_def intro: sorted_wrt_filter)
  moreover have "set ?vs = {v. (k, v) \<in> set ops}" by force
  ultimately have "is_newest {v. (k, v) \<in> set ops} t (visible ?vs t)"
    using is_newest_iff by metis
  then show ?thesis
    using vers_applies [of memtable_init ops k]
    by (auto simp: memtable_get_at_visible memtable_init_def)
qed

definition memtable_example :: "(string \<times> version) list" where
  "memtable_example = [(''a'', \<lparr>ver_timestamp = 1, ver_value = Some ''x''\<rparr>),
     (''b'', \<lparr>ver_timestamp = 2, ver_value = Some ''y''\<rparr>), (''a'', \<lparr>ver_timestamp = 3, ver_value = None\<rparr>)]"

theorem memtable_snapshot_read_witness:
  "\<exists>r. memtable_get_at (fold memtable_apply memtable_example memtable_init) ''a'' 2 = result_of r
     \<and> is_newest {v. (''a'', v) \<in> set memtable_example} 2 r"
  by (rule memtable_snapshot_read) (simp add: memtable_example_def)

end
