(* ===== verification/Bloom_Filter.thy ===== *)
theory Bloom_Filter
  imports Prelude
begin

text \<open>
  The Bloom filter of \<^verbatim>\<open>src/bloom_filter.cpp\<close>: a bit vector stored in bytes and a seeded 64-bit hash.
  The reader treats a negative answer as definitive, so the property that matters is that a key that
  was added is never denied; it rests on every bit index staying inside the byte vector.
\<close>

record bloom_filter =
  bf_bit_count :: nat
  bf_hash_count :: nat
  bf_bits :: "u8 list"

text \<open>The constructor; \<^verbatim>\<open>bit_count_ + 7\<close> is computed in 64 bits.\<close>

definition bloom_new :: "nat \<Rightarrow> nat \<Rightarrow> bloom_filter" where
  "bloom_new bit_count hash_count =
     \<lparr>bf_bit_count = max bit_count 8, bf_hash_count = max hash_count 1,
      bf_bits = replicate ((max bit_count 8 + 7) mod 2 ^ 64 div 8) 0\<rparr>"

definition hash_with_seed :: "string \<Rightarrow> u64 \<Rightarrow> u64" where
  "hash_with_seed key seed =
     (let h = 1469598103934665603 XOR seed;
          h = foldl (\<lambda>h c. (h XOR of_char c) * 1099511628211) h key;
          h = h XOR drop_bit 33 h;
          h = h * 0xff51afd7ed558ccd;
          h = h XOR drop_bit 33 h
      in h)"

definition bloom_set_bit :: "nat \<Rightarrow> u8 list \<Rightarrow> u8 list" where
  "bloom_set_bit bit_index bits =
     bits[bit_index div 8 := bits ! (bit_index div 8) OR push_bit (bit_index mod 8) 1]"

definition bloom_get_bit :: "nat \<Rightarrow> u8 list \<Rightarrow> bool" where
  "bloom_get_bit bit_index bits \<longleftrightarrow> bits ! (bit_index div 8) AND push_bit (bit_index mod 8) 1 \<noteq> 0"

text \<open>The bit that round \<open>i\<close> of \<^verbatim>\<open>add\<close> and \<^verbatim>\<open>possibly_contains\<close> looks at.\<close>

definition bloom_index :: "bloom_filter \<Rightarrow> string \<Rightarrow> nat \<Rightarrow> nat" where
  "bloom_index bf key i =
     unat (hash_with_seed key (0x9e3779b97f4a7c15 * word_of_nat (i + 1))) mod bf_bit_count bf"

definition bloom_add :: "string \<Rightarrow> bloom_filter \<Rightarrow> bloom_filter" where
  "bloom_add key bf =
     bf\<lparr>bf_bits := fold (\<lambda>i. bloom_set_bit (bloom_index bf key i)) [0..<bf_hash_count bf] (bf_bits bf)\<rparr>"

fun bloom_probe :: "bloom_filter \<Rightarrow> string \<Rightarrow> nat list \<Rightarrow> bool" where
  "bloom_probe bf key [] = True"
| "bloom_probe bf key (i # is) =
     (if \<not> bloom_get_bit (bloom_index bf key i) (bf_bits bf) then False else bloom_probe bf key is)"

definition possibly_contains :: "bloom_filter \<Rightarrow> string \<Rightarrow> bool" where
  "possibly_contains bf key = bloom_probe bf key [0..<bf_hash_count bf]"

section \<open>Bounds\<close>

definition bloom_ok :: "bloom_filter \<Rightarrow> bool" where
  "bloom_ok bf \<longleftrightarrow> 8 \<le> bf_bit_count bf \<and> bf_bit_count bf \<le> 8 * length (bf_bits bf)"

lemma bloom_ok_new: "bit_count + 7 < 2 ^ 64 \<Longrightarrow> bloom_ok (bloom_new bit_count hash_count)"
  by (auto simp: bloom_ok_def bloom_new_def max_def)

lemma bloom_index_bound: "bloom_ok bf \<Longrightarrow> bloom_index bf key i div 8 < length (bf_bits bf)"
proof -
  assume ok: "bloom_ok bf"
  then have "bloom_index bf key i < bf_bit_count bf"
    by (simp add: bloom_ok_def bloom_index_def)
  with ok have "bloom_index bf key i < 8 * length (bf_bits bf)"
    by (simp add: bloom_ok_def)
  then show ?thesis by simp
qed

section \<open>No false negatives\<close>

lemma length_set_bit [simp]: "length (bloom_set_bit i bits) = length bits"
  by (simp add: bloom_set_bit_def)

lemma get_bit_iff:
  "bloom_get_bit i bits \<longleftrightarrow> bit (bits ! (i div 8)) (i mod 8)"
proof -
  have "i mod 8 < 8" by simp
  then show ?thesis
    by (simp add: bloom_get_bit_def bit_iff_and_push_bit_not_eq_0)
qed

lemma get_set_bit:
  "j div 8 < length bits \<Longrightarrow> bloom_get_bit i (bloom_set_bit j bits) \<longleftrightarrow> i = j \<or> bloom_get_bit i bits"
proof -
  assume len: "j div 8 < length bits"
  have eq: "i = j \<longleftrightarrow> i div 8 = j div 8 \<and> i mod 8 = j mod 8"
    by (metis div_mult_mod_eq)
  have "i mod 8 < 8" "j mod 8 < 8" by simp_all
  then show ?thesis
    using len eq
    by (auto simp: get_bit_iff bloom_set_bit_def nth_list_update bit_or_iff bit_exp_iff)
qed

lemma length_fold_set_bit [simp]: "length (fold (\<lambda>i. bloom_set_bit (f i)) is bits) = length bits"
  by (induction "is" arbitrary: bits) simp_all

lemma fold_set_bit:
  "\<forall>i\<in>set is. f i div 8 < length bits \<Longrightarrow>
   bloom_get_bit j (fold (\<lambda>i. bloom_set_bit (f i)) is bits) \<longleftrightarrow> j \<in> f ` set is \<or> bloom_get_bit j bits"
  by (induction "is" arbitrary: bits) (auto simp: get_set_bit)

lemma bloom_probe_iff: "bloom_probe bf key is \<longleftrightarrow> (\<forall>i\<in>set is. bloom_get_bit (bloom_index bf key i) (bf_bits bf))"
  by (induction "is") auto

lemma bloom_add_simps [simp]:
  "bf_bit_count (bloom_add k bf) = bf_bit_count bf"
  "bf_hash_count (bloom_add k bf) = bf_hash_count bf"
  "bloom_index (bloom_add k bf) = bloom_index bf"
  "bloom_ok (bloom_add k bf) = bloom_ok bf"
  by (simp_all add: bloom_add_def bloom_index_def bloom_ok_def fun_eq_iff)

lemma possibly_contains_add:
  "bloom_ok bf \<Longrightarrow> possibly_contains (bloom_add k bf) key \<longleftrightarrow>
     (\<forall>i<bf_hash_count bf. bloom_index bf key i \<in> bloom_index bf k ` {0..<bf_hash_count bf}
        \<or> bloom_get_bit (bloom_index bf key i) (bf_bits bf))"
  by (auto simp: possibly_contains_def bloom_probe_iff)
    (auto simp: bloom_add_def fold_set_bit bloom_index_bound)

lemma possibly_contains_added: "bloom_ok bf \<Longrightarrow> possibly_contains (bloom_add k bf) k"
  by (auto simp: possibly_contains_add)

lemma possibly_contains_mono:
  "\<lbrakk>bloom_ok bf; possibly_contains bf key\<rbrakk> \<Longrightarrow> possibly_contains (bloom_add k bf) key"
  by (auto simp: possibly_contains_add) (auto simp: possibly_contains_def bloom_probe_iff)

lemma bloom_ok_adds [simp]: "bloom_ok (fold bloom_add ks bf) = bloom_ok bf"
  by (induction ks arbitrary: bf) simp_all

lemma bloom_no_false_negative:
  "\<lbrakk>bloom_ok bf; k \<in> set ks \<or> possibly_contains bf k\<rbrakk> \<Longrightarrow> possibly_contains (fold bloom_add ks bf) k"
proof (induction ks arbitrary: bf)
  case (Cons a ks)
  then have "k \<in> set ks \<or> possibly_contains (bloom_add a bf) k"
    using possibly_contains_added possibly_contains_mono by auto
  with Cons show ?case by simp
qed simp

section \<open>Properties\<close>

text \<open>
  C21. The filter never denies a key that was added, for every size and number of hash functions whose
  byte count does not wrap around.
\<close>

theorem bloom_never_denies_added:
  assumes "bit_count + 7 < 2 ^ 64" "k \<in> set ks"
  shows "possibly_contains (fold bloom_add ks (bloom_new bit_count hash_count)) k"
  using assms by (intro bloom_no_false_negative bloom_ok_new disjI1)

theorem bloom_never_denies_added_witness:
  "possibly_contains (fold bloom_add [''a'', ''b'', ''c''] (bloom_new 8192 4)) ''b''"
  by (rule bloom_never_denies_added) simp_all

text \<open>
  C38. Every bit the filter reads or writes lies in its byte vector, whatever was added before and however many
  rounds the hash takes.
\<close>

theorem bloom_indices_in_range:
  assumes "bit_count + 7 < 2 ^ 64"
  shows "bloom_index (fold bloom_add ks (bloom_new bit_count hash_count)) key i div 8
    < length (bf_bits (fold bloom_add ks (bloom_new bit_count hash_count)))"
  using assms by (intro bloom_index_bound) (simp add: bloom_ok_new)

theorem bloom_indices_in_range_witness:
  "bloom_index (fold bloom_add [''a''] (bloom_new 3 2)) ''b'' 1 div 8 < length (bf_bits (fold bloom_add [''a''] (bloom_new 3 2)))"
  by (rule bloom_indices_in_range) simp

end
