(* ===== verification/Sstable.thy ===== *)
theory Sstable
  imports File_System Memtable Bloom_Filter
begin

text \<open>
  The on-disk tables: the writer (\<^verbatim>\<open>src/sstable.cpp\<close>), the sparse index (\<^verbatim>\<open>src/sstable_index.cpp\<close>) and
  the reader (\<^verbatim>\<open>src/sstable_reader.cpp\<close>), over the text format
  \<^verbatim>\<open>key TAB timestamp TAB P TAB value\<close> and \<^verbatim>\<open>key TAB timestamp TAB D\<close>.  The main result is that the
  reader, with its Bloom filter and its seek to an indexed offset, answers as a read of the entries
  that were written.
\<close>

section \<open>Writer\<close>

definition sst_line :: "string \<Rightarrow> version \<Rightarrow> string" where
  "sst_line key v =
     key @ [TAB] @ show_nat (unat (ver_timestamp v)) @ [TAB]
     @ (case ver_value v of Some s \<Rightarrow> ''P'' @ [TAB] @ s | None \<Rightarrow> ''D'')"

definition sst_format :: "entries \<Rightarrow> string" where
  "sst_format es = put_lines (concat (map (\<lambda>(key, versions). map (sst_line key) versions) es))"

definition sst_write :: "fsys \<Rightarrow> string \<Rightarrow> entries \<Rightarrow> fsys \<times> bool" where
  "sst_write fs path es = ofs_write fs path False (sst_format es)"

section \<open>Sparse index\<close>

record sstable_index =
  ix_stride :: nat
  ix_entries :: "(string \<times> nat) list"     \<comment> \<open>a \<^verbatim>\<open>std::map\<close> in key order\<close>

definition index_new :: "nat \<Rightarrow> sstable_index" where
  "index_new stride = \<lparr>ix_stride = (if stride = 0 then 1 else stride), ix_entries = []\<rparr>"

fun try_emplace :: "string \<Rightarrow> nat \<Rightarrow> (string \<times> nat) list \<Rightarrow> (string \<times> nat) list" where
  "try_emplace k v [] = [(k, v)]"
| "try_emplace k v ((k', v') # m) =
     (if k < k' then (k, v) # (k', v') # m
      else if k = k' then (k', v') # m
      else (k', v') # try_emplace k v m)"

fun index_loop ::
  "nat \<Rightarrow> (nat \<times> string) list \<Rightarrow> nat \<Rightarrow> string \<Rightarrow> nat \<Rightarrow> (string \<times> nat) list \<Rightarrow> (string \<times> nat) list" where
  "index_loop stride [] n prev grp ix = ix"
| "index_loop stride ((off, line) # ls) n prev grp ix =
     (case ext_string line of
        None \<Rightarrow> index_loop stride ls n prev grp ix
      | Some (key, _) \<Rightarrow>
          let fresh = (n = 0 \<or> key \<noteq> prev);
              prev' = (if fresh then key else prev);
              grp' = (if fresh then off else grp);
              ix' = (if n mod stride = 0 then try_emplace key grp' ix else ix)
          in index_loop stride ls (n + 1) prev' grp' ix')"

definition index_build :: "fsys \<Rightarrow> string \<Rightarrow> sstable_index \<Rightarrow> sstable_index \<times> bool" where
  "index_build fs path ix =
     (case fs_files fs path of
        None \<Rightarrow> (ix, False)
      | Some c \<Rightarrow> (ix\<lparr>ix_entries := index_loop (ix_stride ix) (getlines_at 0 c) 0 [] 0 []\<rparr>, True))"

text \<open>\<^verbatim>\<open>upper_bound\<close> in a map whose keys are listed in order.\<close>

definition find_start_offset :: "sstable_index \<Rightarrow> string \<Rightarrow> nat option" where
  "find_start_offset ix key =
     (case ix_entries ix of
        [] \<Rightarrow> None
      | (k0, off0) # _ \<Rightarrow>
          let below = takeWhile (\<lambda>e. fst e \<le> key) (ix_entries ix)
          in if below = [] then Some off0 else Some (snd (last below)))"

section \<open>Reader\<close>

text \<open>\<^verbatim>\<open>row >> key >> timestamp >> type\<close>.\<close>

definition parse_row :: "string \<Rightarrow> (string \<times> u64 \<times> char \<times> string) option" where
  "parse_row line =
     (case ext_string line of
        None \<Rightarrow> None
      | Some (key, r1) \<Rightarrow>
          (case ext_u64 r1 of
             None \<Rightarrow> None
           | Some (ts, r2) \<Rightarrow>
               (case ext_char r2 of None \<Rightarrow> None | Some (ty, r3) \<Rightarrow> Some (key, ts, ty, r3))))"

record sstable_reader =
  rd_path :: string
  rd_index :: sstable_index
  rd_bloom :: bloom_filter
  rd_index_ready :: bool
  rd_bloom_ready :: bool
  rd_file :: "string option"     \<comment> \<open>the retained stream; \<^const>\<open>None\<close>: not \<^verbatim>\<open>file_ready_\<close>\<close>

fun bloom_loop :: "string list \<Rightarrow> bloom_filter \<Rightarrow> bloom_filter" where
  "bloom_loop [] bf = bf"
| "bloom_loop (line # ls) bf =
     (if line = [] then bloom_loop ls bf
      else case ext_string line of
             None \<Rightarrow> bloom_loop ls bf
           | Some (key, _) \<Rightarrow> bloom_loop ls (bloom_add key bf))"

definition build_bloom_filter :: "fsys \<Rightarrow> string \<Rightarrow> bloom_filter \<Rightarrow> bloom_filter \<times> bool" where
  "build_bloom_filter fs path bf =
     (case fs_files fs path of None \<Rightarrow> (bf, False) | Some c \<Rightarrow> (bloom_loop (getlines c) bf, True))"

definition reader_new :: "fsys \<Rightarrow> string \<Rightarrow> nat \<Rightarrow> nat \<Rightarrow> nat \<Rightarrow> sstable_reader" where
  "reader_new fs path index_stride bloom_bits bloom_hashes =
     (let (ix, ix_ok) = index_build fs path (index_new index_stride);
          (bf, bf_ok) = build_bloom_filter fs path (bloom_new bloom_bits bloom_hashes)
      in \<lparr>rd_path = path, rd_index = ix, rd_bloom = bf, rd_index_ready = ix_ok,
          rd_bloom_ready = bf_ok, rd_file = fs_files fs path\<rparr>)"

definition reader_is_open :: "sstable_reader \<Rightarrow> bool" where
  "reader_is_open rd \<longleftrightarrow> rd_file rd \<noteq> None"

definition reader_possibly_contains :: "sstable_reader \<Rightarrow> string \<Rightarrow> bool" where
  "reader_possibly_contains rd key \<longleftrightarrow> \<not> rd_bloom_ready rd \<or> possibly_contains (rd_bloom rd) key"

fun reader_scan :: "string list \<Rightarrow> string \<Rightarrow> u64 \<Rightarrow> bool \<Rightarrow> u64 \<Rightarrow> lookup_result \<Rightarrow> lookup_result" where
  "reader_scan [] key t found best_ts best = best"
| "reader_scan (line # ls) key t found best_ts best =
     (if line = [] then reader_scan ls key t found best_ts best
      else case parse_row line of
             None \<Rightarrow> reader_scan ls key t found best_ts best
           | Some (stored_key, ts, ty, row) \<Rightarrow>
               if key < stored_key then best
               else if stored_key < key then reader_scan ls key t found best_ts best
               else if t < ts then reader_scan ls key t found best_ts best
               else if \<not> found \<or> best_ts \<le> ts
               then reader_scan ls key t True ts
                      (if ty = CHR ''P'' then found_value (ext_rest row)
                       else if ty = CHR ''D'' then tombstone else best)
               else reader_scan ls key t found best_ts best)"

definition reader_get_at :: "sstable_reader \<Rightarrow> string \<Rightarrow> u64 \<Rightarrow> lookup_result" where
  "reader_get_at rd key t =
     (if rd_bloom_ready rd \<and> \<not> possibly_contains (rd_bloom rd) key then not_found
      else case rd_file rd of
             None \<Rightarrow> not_found
           | Some c \<Rightarrow>
               let start = (if rd_index_ready rd
                            then (case find_start_offset (rd_index rd) key of None \<Rightarrow> 0 | Some off \<Rightarrow> off)
                            else 0)
               in reader_scan (getlines (drop start c)) key t False 0 not_found)"

section \<open>Tables the format can carry\<close>

definition key_ok :: "string \<Rightarrow> bool" where
  "key_ok k \<longleftrightarrow> k \<noteq> [] \<and> (\<forall>c\<in>set k. \<not> is_space c)"

definition value_ok :: "string \<Rightarrow> bool" where
  "value_ok s \<longleftrightarrow> NL \<notin> set s \<and> (s = [] \<or> \<not> is_space (hd s))"

definition version_ok :: "version \<Rightarrow> bool" where
  "version_ok v \<longleftrightarrow> (case ver_value v of None \<Rightarrow> True | Some s \<Rightarrow> value_ok s)"

definition table_ok :: "entries \<Rightarrow> bool" where
  "table_ok es \<longleftrightarrow> sorted_keys es
     \<and> (\<forall>(k, vs)\<in>set es. key_ok k \<and> ts_sorted vs \<and> (\<forall>v\<in>set vs. version_ok v))"

text \<open>A table as the sequence of its rows.\<close>

definition rows_of :: "entries \<Rightarrow> (string \<times> version) list" where
  "rows_of es = concat (map (\<lambda>(k, vs). map (Pair k) vs) es)"

definition row_line :: "string \<times> version \<Rightarrow> string" where
  "row_line = (\<lambda>(k, v). sst_line k v)"

definition row_ok :: "string \<times> version \<Rightarrow> bool" where
  "row_ok = (\<lambda>(k, v). key_ok k \<and> version_ok v)"

lemma sst_format_rows: "sst_format es = put_lines (map row_line (rows_of es))"
  by (simp add: sst_format_def rows_of_def row_line_def map_concat o_def case_prod_unfold)

lemma rows_of_simps [simp]:
  "rows_of [] = []" "rows_of ((k, vs) # es) = map (Pair k) vs @ rows_of es"
  by (simp_all add: rows_of_def)

lemma rows_of_keys: "fst ` set (rows_of es) \<subseteq> fst ` set es"
  by (force simp: rows_of_def)

lemma table_ok_rows: "table_ok es \<Longrightarrow> \<forall>r\<in>set (rows_of es). row_ok r"
  by (auto simp: table_ok_def rows_of_def row_ok_def)

lemma table_ok_sorted_rows: "table_ok es \<Longrightarrow> sorted (map fst (rows_of es))"
proof (induction es)
  case (Cons e es)
  obtain k vs where e: "e = (k, vs)" by fastforce
  have "sorted (map fst (rows_of es))"
    using Cons by (auto simp: table_ok_def)
  moreover have "\<forall>k'\<in>fst ` set (rows_of es). k \<le> k'"
    using Cons.prems rows_of_keys [of es] by (force simp: table_ok_def e)
  ultimately show ?case
    by (auto simp: e sorted_append o_def map_replicate_const)
qed simp

lemma filter_rows: "sorted_keys es \<Longrightarrow> filter (\<lambda>r. fst r = key) (rows_of es) = map (Pair key) (vers es key)"
proof (induction es)
  case (Cons e es)
  obtain k vs where e: "e = (k, vs)" by fastforce
  have "map_of es k = None"
    using Cons.prems by (intro map_of_above) (auto simp: e)
  with Cons show ?case
    by (auto simp: e vers_def filter_empty_conv)
qed simp

lemma table_ok_versions: "\<lbrakk>table_ok es; v \<in> set (vers es k)\<rbrakk> \<Longrightarrow> version_ok v"
  by (cases "map_of es k") (fastforce simp: table_ok_def vers_def dest: map_of_SomeD)+

lemma vers_ts_sorted: "table_ok es \<Longrightarrow> ts_sorted (vers es k)"
  by (auto simp: table_ok_def vers_def split: option.splits dest!: map_of_SomeD)

section \<open>Rows round-trip\<close>

lemma key_ok_no_sep: "key_ok k \<Longrightarrow> NL \<notin> set k \<and> TAB \<notin> set k"
  by (auto simp: key_ok_def)

lemma row_line_no_NL: "row_ok r \<Longrightarrow> NL \<notin> set (row_line r)"
  by (auto simp: row_ok_def row_line_def sst_line_def version_ok_def value_ok_def
      dest: key_ok_no_sep split: option.splits)

lemma row_line_nonempty [simp]: "row_line r \<noteq> []"
  by (simp add: row_line_def sst_line_def split: prod.splits)

lemma ext_string_row [text_rules]: "row_ok r \<Longrightarrow> \<exists>s. ext_string (row_line r) = Some (fst r, s)"
  by (auto simp: row_ok_def row_line_def sst_line_def key_ok_def ext_string_word split: prod.splits)

definition row_type :: "version \<Rightarrow> char" where
  "row_type v = (case ver_value v of None \<Rightarrow> CHR ''D'' | Some _ \<Rightarrow> CHR ''P'')"

lemma not_is_digit_TAB [simp]: "\<not> is_digit TAB"
  by (simp add: is_digit_def)

lemma parse_row_line [text_rules]:
  assumes "row_ok (k, v)"
  shows "\<exists>r. parse_row (row_line (k, v)) = Some (k, ver_timestamp v, row_type v, r)
           \<and> (\<forall>s. ver_value v = Some s \<longrightarrow> ext_rest r = s)"
proof -
  let ?tail = "case ver_value v of Some s \<Rightarrow> ''P'' @ [TAB] @ s | None \<Rightarrow> ''D''"
  have k: "ext_string (row_line (k, v)) = Some (k, TAB # show_nat (unat (ver_timestamp v)) @ TAB # ?tail)"
    using assms by (simp add: row_ok_def row_line_def sst_line_def key_ok_def ext_string_word)
  have t: "ext_u64 (TAB # show_nat (unat (ver_timestamp v)) @ TAB # ?tail)
     = Some (ver_timestamp v, TAB # ?tail)"
    by (simp add: ext_u64_show_nat)
  show ?thesis
  proof (cases "ver_value v")
    case None
    with k t show ?thesis by (simp add: parse_row_def row_type_def)
  next
    case (Some s)
    then have "NL \<notin> set s" "s = [] \<or> \<not> is_space (hd s)"
      using assms by (simp_all add: row_ok_def version_ok_def value_ok_def)
    then have "ext_rest (TAB # s) = s"
      by (cases s) (auto simp: ext_rest_def)
    with k t Some show ?thesis by (simp add: parse_row_def row_type_def)
  qed
qed

section \<open>The scan over rows\<close>

fun row_scan :: "(string \<times> version) list \<Rightarrow> string \<Rightarrow> u64 \<Rightarrow> bool \<Rightarrow> u64 \<Rightarrow> lookup_result \<Rightarrow> lookup_result" where
  "row_scan [] key t found best_ts best = best"
| "row_scan ((k, v) # rs) key t found best_ts best =
     (if key < k then best
      else if k < key \<or> t < ver_timestamp v \<or> (found \<and> ver_timestamp v < best_ts)
      then row_scan rs key t found best_ts best
      else row_scan rs key t True (ver_timestamp v) (result_of (Some v)))"

lemma reader_scan_rows:
  "\<forall>r\<in>set rs. row_ok r \<Longrightarrow>
   reader_scan (map row_line rs) key t found best_ts best = row_scan rs key t found best_ts best"
proof (induction rs arbitrary: found best_ts best)
  case (Cons r rs)
  obtain k v where r: "r = (k, v)" by fastforce
  obtain q where q: "parse_row (row_line (k, v)) = Some (k, ver_timestamp v, row_type v, q)"
    "\<forall>s. ver_value v = Some s \<longrightarrow> ext_rest q = s"
    using parse_row_line [of k v] Cons.prems r by auto
  have "(if row_type v = CHR ''P'' then found_value (ext_rest q)
         else if row_type v = CHR ''D'' then tombstone else best) = result_of (Some v)"
    using q(2) by (auto simp: row_type_def result_of_def split: option.splits)
  moreover have "reader_scan (map row_line rs) key t f b x = row_scan rs key t f b x" for f b x
    using Cons by simp
  ultimately show ?case
    using q(1) by (auto simp: r not_le)
qed simp

text \<open>Rows of smaller keys are skipped, rows behind the key are not reached.\<close>

lemma row_scan_skip:
  "\<forall>r\<in>set ps. fst r < key \<Longrightarrow> row_scan (ps @ rs) key t found best_ts best = row_scan rs key t found best_ts best"
  by (induction ps) (auto simp: less_imp_not_less)

lemma row_scan_above: "\<forall>r\<in>set rs. key < fst r \<Longrightarrow> row_scan rs key t found best_ts best = best"
  by (cases rs) auto

lemma row_scan_group:
  "\<forall>r\<in>set rs. key < fst r \<Longrightarrow> ts_sorted vs \<Longrightarrow> (\<forall>v\<in>set vs. found \<longrightarrow> best_ts \<le> ver_timestamp v) \<Longrightarrow>
   row_scan (map (Pair key) vs @ rs) key t found best_ts best =
     (case visible vs t of None \<Rightarrow> best | Some v \<Rightarrow> result_of (Some v))"
proof (induction vs arbitrary: found best_ts best)
  case Nil
  then show ?case by (simp add: row_scan_above)
next
  case (Cons v vs)
  have vis: "visible (v # vs) t = (case visible vs t of Some w \<Rightarrow> Some w
     | None \<Rightarrow> if ver_timestamp v \<le> t then Some v else None)"
    using visible_append [of "[v]" vs t] visible_snoc [of "[]" v t] by (simp split: option.splits)
  have *: "\<not> (found \<and> ver_timestamp v < best_ts)"
    using Cons.prems(3) by auto
  show ?case
  proof (cases "t < ver_timestamp v")
    case True
    then show ?thesis
      using Cons by (auto simp: vis split: option.splits)
  next
    case False
    have "\<forall>w\<in>set vs. ver_timestamp v \<le> ver_timestamp w"
      using Cons.prems(2) by (auto intro: less_imp_le)
    then have "row_scan (map (Pair key) vs @ rs) key t True (ver_timestamp v) (result_of (Some v)) =
       (case visible vs t of None \<Rightarrow> result_of (Some v) | Some w \<Rightarrow> result_of (Some w))"
      using Cons by simp
    with False * show ?thesis
      by (auto simp: vis not_less split: option.splits)
  qed
qed

lemma sorted_rows_split:
  "sorted (map fst rs) \<Longrightarrow>
   \<exists>ps qs. rs = ps @ filter (\<lambda>r. fst r = key) rs @ qs \<and> (\<forall>r\<in>set ps. fst r < key) \<and> (\<forall>r\<in>set qs. key < fst r)"
proof (induction rs)
  case (Cons r rs)
  then obtain ps qs where IH: "rs = ps @ filter (\<lambda>r. fst r = key) rs @ qs"
    "\<forall>r\<in>set ps. fst r < key" "\<forall>r\<in>set qs. key < fst r"
    by auto
  consider "fst r < key" | "fst r = key" | "key < fst r" by fastforce
  then show ?case
  proof cases
    case 1
    with IH show ?thesis by (intro exI [of _ "r # ps"] exI [of _ qs]) auto
  next
    case 2
    with Cons.prems have "\<forall>x\<in>set rs. key \<le> fst x" by auto
    with IH have "ps = []"
      by (metis (no_types, lifting) Un_iff last_in_set leD set_append)
    with IH 2 show ?thesis by (intro exI [of _ "[]"] exI [of _ qs]) auto
  next
    case 3
    with Cons.prems have "\<forall>x\<in>set rs. key < fst x" by auto
    with 3 show ?thesis
      by (intro exI [of _ "[]"] exI [of _ "r # rs"]) (auto simp: filter_empty_conv)
  qed
qed simp

lemma row_scan_table:
  assumes "table_ok es" "rows_of es = ps @ rs" "\<forall>r\<in>set ps. fst r < key"
  shows "row_scan rs key t False 0 not_found = result_of (visible (vers es key) t)"
proof -
  obtain as bs where ab: "rows_of es = as @ filter (\<lambda>r. fst r = key) (rows_of es) @ bs"
    "\<forall>r\<in>set as. fst r < key" "\<forall>r\<in>set bs. key < fst r"
    using sorted_rows_split [OF table_ok_sorted_rows [OF assms(1)]] by blast
  have f: "filter (\<lambda>r. fst r = key) (rows_of es) = map (Pair key) (vers es key)"
    using assms(1) by (intro filter_rows) (simp add: table_ok_def)
  have "row_scan rs key t False 0 not_found = row_scan (rows_of es) key t False 0 not_found"
    using assms(2,3) by (simp add: row_scan_skip)
  also have "\<dots> = row_scan (map (Pair key) (vers es key) @ bs) key t False 0 not_found"
    using ab(2) f by (subst ab(1)) (simp add: row_scan_skip)
  also have "\<dots> = result_of (visible (vers es key) t)"
    using ab(3) vers_ts_sorted [OF assms(1)] by (subst row_scan_group)
      (auto simp: result_of_def split: option.splits)
  finally show ?thesis .
qed

section \<open>The sparse index\<close>

definition text_of :: "(string \<times> version) list \<Rightarrow> string" where
  "text_of rs = put_lines (map row_line rs)"

lemma text_of_append: "text_of (ps @ rs) = text_of ps @ text_of rs"
  by (simp add: text_of_def)

lemma getlines_text: "\<forall>r\<in>set rs. row_ok r \<Longrightarrow> getlines (text_of rs) = map row_line rs"
  by (auto simp: text_of_def getlines_put_lines row_line_no_NL)

text \<open>An index entry is good when the rows before its offset have smaller keys.\<close>

definition entry_good :: "(string \<times> version) list \<Rightarrow> string \<times> nat \<Rightarrow> bool" where
  "entry_good rows e \<longleftrightarrow>
     (\<exists>ps rs. rows = ps @ rs \<and> snd e = length (text_of ps) \<and> (\<forall>r\<in>set ps. fst r < fst e))"

lemma set_try_emplace: "set (try_emplace k v m) \<subseteq> insert (k, v) (set m)"
  by (induction k v m rule: try_emplace.induct) auto

lemma keys_try_emplace: "fst ` set (try_emplace k v m) = insert k (fst ` set m)"
  by (induction k v m rule: try_emplace.induct) auto

lemma sorted_try_emplace: "sorted_keys m \<Longrightarrow> sorted_keys (try_emplace k v m)"
proof (induction k v m rule: try_emplace.induct)
  case (2 k v k' v' m)
  have "\<forall>x\<in>fst ` set (try_emplace k v m). k' < x" if "k' < k"
    using that "2.prems" by (auto simp: keys_try_emplace)
  with 2 show ?case by (auto simp: neq_iff)
qed simp

lemma index_loop_row:
  assumes "row_ok r"
  shows "index_loop stride (getlines_at off (text_of (r # rs))) n prev grp ix =
     (let fresh = (n = 0 \<or> fst r \<noteq> prev); grp' = (if fresh then off else grp)
      in index_loop stride (getlines_at (off + length (text_of [r])) (text_of rs)) (n + 1) (fst r) grp'
           (if n mod stride = 0 then try_emplace (fst r) grp' ix else ix))"
proof -
  obtain q where "ext_string (row_line r) = Some (fst r, q)"
    using ext_string_row [OF assms] by blast
  then show ?thesis
    using row_line_no_NL [OF assms] by (simp add: text_of_def getlines_at_line Let_def)
qed

definition index_good :: "(string \<times> version) list \<Rightarrow> (string \<times> nat) list \<Rightarrow> bool" where
  "index_good rows ix \<longleftrightarrow> sorted_keys ix \<and> (\<forall>e\<in>set ix. entry_good rows e)"

text \<open>The loop keeps the start of the current key's group, whatever the stride.\<close>

lemma index_loop_good:
  assumes "rows = pre @ rs" "\<forall>r\<in>set rs. row_ok r" "sorted (map fst rows)" "index_good rows ix"
    "pre \<noteq> [] \<Longrightarrow> \<exists>ps qs. pre = ps @ qs \<and> qs \<noteq> [] \<and> grp = length (text_of ps)
        \<and> (\<forall>r\<in>set ps. fst r < prev) \<and> (\<forall>r\<in>set qs. fst r = prev)"
    "pre \<noteq> [] \<Longrightarrow> fst (hd rows) \<in> fst ` set ix"
  shows "let ix' = index_loop stride (getlines_at (length (text_of pre)) (text_of rs)) (length pre) prev grp ix
         in index_good rows ix' \<and> (rows \<noteq> [] \<longrightarrow> fst (hd rows) \<in> fst ` set ix')"
  using assms
proof (induction rs arbitrary: pre prev grp ix)
  case Nil
  then show ?case by (simp add: text_of_def)
next
  case (Cons r rs)
  define fresh where "fresh \<longleftrightarrow> length pre = 0 \<or> fst r \<noteq> prev"
  define grp' where "grp' = (if fresh then length (text_of pre) else grp)"
  define ix' where "ix' = (if length pre mod stride = 0 then try_emplace (fst r) grp' ix else ix)"
  have below: "fst x \<le> fst r" if "x \<in> set pre" for x
    using Cons.prems(1,3) that by (auto simp: sorted_append)
  obtain ps qs where g: "pre @ [r] = ps @ qs" "qs \<noteq> []" "grp' = length (text_of ps)"
    "\<forall>x\<in>set ps. fst x < fst r" "\<forall>x\<in>set qs. fst x = fst r"
  proof (cases fresh)
    case True
    have "\<forall>x\<in>set pre. fst x < fst r"
    proof (cases "pre = []")
      case False
      with True have "fst r \<noteq> prev" by (simp add: fresh_def)
      from Cons.prems(5) [OF False] obtain ps qs where pq: "pre = ps @ qs" "qs \<noteq> []"
        "\<forall>r\<in>set ps. fst r < prev" "\<forall>r\<in>set qs. fst r = prev" by blast
      have "fst (hd qs) = prev" "hd qs \<in> set pre" using pq by auto
      with below \<open>fst r \<noteq> prev\<close> have "prev < fst r" by fastforce
      with pq show ?thesis by (auto dest: bspec intro: less_trans)
    qed simp
    with True show ?thesis by (intro that [of pre "[r]"]) (auto simp: grp'_def)
  next
    case False
    then have "pre \<noteq> []" "fst r = prev" by (auto simp: fresh_def)
    with Cons.prems(5) obtain ps qs where "pre = ps @ qs" "qs \<noteq> []" "grp = length (text_of ps)"
      "\<forall>r\<in>set ps. fst r < prev" "\<forall>r\<in>set qs. fst r = prev" by blast
    with False \<open>fst r = prev\<close> show ?thesis by (intro that [of ps "qs @ [r]"]) (auto simp: grp'_def)
  qed
  have rows: "rows = (pre @ [r]) @ rs" using Cons.prems(1) by simp
  then have "entry_good rows (fst r, grp')"
    using g by (auto simp: entry_good_def)
  then have good: "index_good rows ix'"
    using Cons.prems(4) set_try_emplace [of "fst r" grp' ix] sorted_try_emplace [of ix "fst r" grp']
    unfolding index_good_def ix'_def by auto
  have first: "fst (hd rows) \<in> fst ` set ix'"
    using Cons.prems(1,6) by (cases "pre = []") (auto simp: ix'_def keys_try_emplace)
  have "index_loop stride (getlines_at (length (text_of pre)) (text_of (r # rs))) (length pre) prev grp ix
     = index_loop stride (getlines_at (length (text_of (pre @ [r]))) (text_of rs)) (length (pre @ [r])) (fst r) grp' ix'"
    using Cons.prems(2) by (subst index_loop_row)
      (auto simp: Let_def fresh_def grp'_def ix'_def text_of_append)
  moreover have "let ix'' = index_loop stride (getlines_at (length (text_of (pre @ [r]))) (text_of rs))
        (length (pre @ [r])) (fst r) grp' ix'
     in index_good rows ix'' \<and> (rows \<noteq> [] \<longrightarrow> fst (hd rows) \<in> fst ` set ix'')"
    using rows Cons.prems(2,3) good g first by (intro Cons.IH) (simp, simp, simp, simp, blast, simp)
  ultimately show ?case by simp
qed

lemma find_start_offset_good:
  assumes "index_good rows (ix_entries ix)" "rows \<noteq> [] \<longrightarrow> fst (hd rows) \<in> fst ` set (ix_entries ix)"
    "sorted (map fst rows)" "find_start_offset ix key = Some off"
  shows "\<exists>ps rs. rows = ps @ rs \<and> off = length (text_of ps)
           \<and> ((\<forall>r\<in>set ps. fst r < key) \<or> (\<forall>r\<in>set rows. key < fst r))"
proof -
  let ?ix = "ix_entries ix" and ?below = "takeWhile (\<lambda>e. fst e \<le> key) (ix_entries ix)"
  obtain k0 off0 es where ix: "?ix = (k0, off0) # es"
    using assms(4) by (cases ?ix) (auto simp: find_start_offset_def)
  show ?thesis
  proof (cases "?below = []")
    case True
    then have "off = off0" using assms(4) ix by (simp add: find_start_offset_def)
    moreover obtain ps rs where "rows = ps @ rs" "off0 = length (text_of ps)"
      using assms(1) ix by (auto simp: index_good_def entry_good_def)
    moreover have "\<forall>r\<in>set rows. key < fst r"
    proof
      fix r assume r: "r \<in> set rows"
      have "key < k0" using True ix by (auto simp: not_le split: if_splits)
      moreover have "\<forall>k\<in>fst ` set ?ix. k0 \<le> k"
        using assms(1) ix by (auto simp: index_good_def intro: less_imp_le)
      ultimately have "key < fst (hd rows)"
        using assms(2) r by (metis empty_iff list.set(1) order.strict_trans2)
      moreover have "fst (hd rows) \<le> fst r"
        using assms(3) r by (cases rows) auto
      ultimately show "key < fst r" by (rule order.strict_trans2)
    qed
    ultimately show ?thesis by blast
  next
    case False
    let ?e = "last ?below"
    have "?e \<in> set ?below" using False by simp
    then have e: "?e \<in> set ?ix" "fst ?e \<le> key"
      using set_takeWhileD by fastforce+
    have "off = snd ?e" using assms(4) ix False by (simp add: find_start_offset_def)
    with e assms(1) obtain ps rs where "rows = ps @ rs" "off = length (text_of ps)" "\<forall>r\<in>set ps. fst r < fst ?e"
      by (auto simp: index_good_def entry_good_def)
    moreover from this(3) e(2) have "\<forall>r\<in>set ps. fst r < key"
      using order.strict_trans2 by blast
    ultimately show ?thesis by blast
  qed
qed

section \<open>The Bloom filter of a table\<close>

lemma bloom_loop_rows:
  "\<forall>r\<in>set rs. row_ok r \<Longrightarrow> bloom_loop (map row_line rs) bf = fold bloom_add (map fst rs) bf"
proof (induction rs arbitrary: bf)
  case (Cons r rs)
  obtain q where "ext_string (row_line r) = Some (fst r, q)"
    using ext_string_row [of r] Cons.prems by auto
  with Cons show ?case by simp
qed simp

section \<open>Reading back what was written\<close>

lemma reader_get_at_written:
  assumes "table_ok es" "fs_files fs path = Some (sst_format es)" "bits + 7 < 2 ^ 64"
  shows "reader_get_at (reader_new fs path stride bits hashes) key t = result_of (visible (vers es key) t)"
proof -
  let ?rd = "reader_new fs path stride bits hashes" and ?rows = "rows_of es"
  have c: "sst_format es = text_of ?rows"
    by (simp add: sst_format_rows text_of_def)
  note ok = table_ok_rows [OF assms(1)] and srt = table_ok_sorted_rows [OF assms(1)]
  let ?ix = "rd_index ?rd"
  have ix: "index_good ?rows (ix_entries ?ix) \<and> (?rows \<noteq> [] \<longrightarrow> fst (hd ?rows) \<in> fst ` set (ix_entries ?ix))"
    using index_loop_good [of ?rows "[]" ?rows "[]" 0 "[]" "ix_stride (index_new stride)"] ok srt
    by (simp add: reader_new_def index_build_def build_bloom_filter_def assms(2) c index_new_def
        index_good_def text_of_def Let_def)
  have bf: "rd_bloom ?rd = fold bloom_add (map fst ?rows) (bloom_new bits hashes)"
    using ok by (simp add: reader_new_def index_build_def build_bloom_filter_def assms(2) c getlines_text
        bloom_loop_rows)
  have flags: "rd_bloom_ready ?rd" "rd_index_ready ?rd" "rd_file ?rd = Some (text_of ?rows)"
    by (simp_all add: reader_new_def index_build_def build_bloom_filter_def assms(2) c)
  show ?thesis
  proof (cases "possibly_contains (rd_bloom ?rd) key")
    case False
    then have "key \<notin> fst ` set ?rows"
      using bloom_no_false_negative [OF bloom_ok_new [OF assms(3)], of key "map fst ?rows"] bf by auto
    moreover have "filter (\<lambda>r. fst r = key) ?rows = map (Pair key) (vers es key)"
      using assms(1) by (intro filter_rows) (simp add: table_ok_def)
    moreover from calculation(1) have "filter (\<lambda>r. fst r = key) ?rows = []"
      by (auto simp: filter_empty_conv)
    ultimately have "vers es key = []" by simp
    with False flags show ?thesis by (simp add: reader_get_at_def result_of_def)
  next
    case True
    obtain ps rs where pr: "?rows = ps @ rs"
      "(case find_start_offset ?ix key of None \<Rightarrow> 0 | Some off \<Rightarrow> off) = length (text_of ps)"
      "(\<forall>r\<in>set ps. fst r < key) \<or> (\<forall>r\<in>set ?rows. key < fst r)"
    proof (cases "find_start_offset ?ix key")
      case None
      then show ?thesis by (intro that [of "[]" ?rows]) (simp_all add: text_of_def)
    next
      case (Some off)
      then show ?thesis
        using find_start_offset_good [OF ix [THEN conjunct1] ix [THEN conjunct2] srt Some] that by auto
    qed
    have "reader_get_at ?rd key t = row_scan rs key t False 0 not_found"
      using True flags pr(1,2) ok
      by (simp add: reader_get_at_def text_of_append getlines_text reader_scan_rows)
    also have "\<dots> = result_of (visible (vers es key) t)"
      using pr(3)
    proof
      assume "\<forall>r\<in>set ps. fst r < key"
      then show ?thesis using row_scan_table [OF assms(1) pr(1)] by blast
    next
      assume above: "\<forall>r\<in>set ?rows. key < fst r"
      then have "row_scan rs key t False 0 not_found = row_scan ?rows key t False 0 not_found"
        using pr(1) by (simp add: row_scan_above)
      then show ?thesis using row_scan_table [OF assms(1), of "[]" ?rows] by simp
    qed
    finally show ?thesis .
  qed
qed

text \<open>The table a reader is given is a level of the store.\<close>

definition file_with :: "string \<Rightarrow> entries \<Rightarrow> fsys" where
  "file_with path es = fs_empty\<lparr>fs_files := [path \<mapsto> sst_format es]\<rparr>"

lemma reader_new_file: "fs_files fs path = Some c \<Longrightarrow> fs_files fs' path = Some c \<Longrightarrow>
  reader_new fs path stride bits hashes = reader_new fs' path stride bits hashes"
  by (simp add: reader_new_def index_build_def build_bloom_filter_def)

interpretation sst_level: versioned_level
  "\<lambda>es. reader_get_at (reader_new (file_with [] es) [] 4 8192 4)" vers table_ok
  by unfold_locales (rule reader_get_at_written, simp_all add: file_with_def)

lemma reader_get_at_missing: "fs_files fs path = None \<Longrightarrow> reader_get_at (reader_new fs path s b h) k t = not_found"
  by (simp add: reader_get_at_def reader_new_def index_build_def build_bloom_filter_def)

section \<open>Properties\<close>

text \<open>
  C18. What is written can be read: once a table has been written without error, a reader opened on the
  file, with any index stride, filter size and number of hash functions, answers every read of every key
  at every timestamp with the version of the written table visible at that time.
\<close>

theorem sstable_read_back:
  assumes "table_ok es" "sst_write fs path es = (fs', True)" "bloom_bits + 7 < 2 ^ 64"
  shows "reader_get_at (reader_new fs' path stride bloom_bits hashes) key t = result_of (visible (vers es key) t)"
  using ofs_write_ok [OF assms(2) [unfolded sst_write_def]] reader_get_at_written [OF assms(1) _ assms(3)] by simp

definition sst_example :: entries where
  "sst_example = [(''a'', [\<lparr>ver_timestamp = 1, ver_value = Some ''x''\<rparr>, \<lparr>ver_timestamp = 4, ver_value = None\<rparr>]),
                  (''b'', [\<lparr>ver_timestamp = 2, ver_value = Some ''y z''\<rparr>])]"

lemma sst_example_ok: "table_ok sst_example"
  by (simp add: sst_example_def table_ok_def key_ok_def version_ok_def value_ok_def is_space_def)

theorem sstable_read_back_witness:
  "reader_get_at (reader_new (fst (sst_write fs_empty ''s'' sst_example)) ''s'' 4 8192 4) ''b'' 3 = found_value ''y z''
   \<and> reader_get_at (reader_new (fst (sst_write fs_empty ''s'' sst_example)) ''s'' 4 8192 4) ''a'' 4 = tombstone"
proof -
  have w: "sst_write fs_empty ''s'' sst_example = (fst (sst_write fs_empty ''s'' sst_example), True)"
    by (simp add: sst_write_def fs_rules)
  show ?thesis
    using sstable_read_back [OF sst_example_ok w, of 8192 4 4 "''b''" 3]
      sstable_read_back [OF sst_example_ok w, of 8192 4 4 "''a''" 4]
    by (simp add: sst_example_def vers_def visible_def result_of_def)
qed

end
