(* ===== verification/Compactor.thy ===== *)
theory Compactor
  imports Sstable
begin

text \<open>
  Compaction (\<^verbatim>\<open>src/compactor.cpp\<close>): the input tables are loaded into one map, the versions of each key
  are sorted by timestamp and repeated timestamps dropped, and the result is written as a new table.
  \<^verbatim>\<open>std::sort\<close> is not stable, so the definitions take the sorting function as an argument and the
  lemmas hold for every function that meets the contract of \<^verbatim>\<open>std::sort\<close>.
\<close>

section \<open>The code\<close>

fun load_loop :: "string list \<Rightarrow> entries \<Rightarrow> entries \<times> bool" where
  "load_loop [] merged = (merged, True)"
| "load_loop (line # ls) merged =
     (if line = [] then load_loop ls merged
      else case parse_row line of
             None \<Rightarrow> (merged, False)
           | Some (key, ts, ty, row) \<Rightarrow>
               if ty = CHR ''P''
               then load_loop ls (entries_push key \<lparr>ver_timestamp = ts, ver_value = Some (ext_rest row)\<rparr> merged)
               else if ty = CHR ''D''
               then load_loop ls (entries_push key \<lparr>ver_timestamp = ts, ver_value = None\<rparr> merged)
               else (merged, False))"

definition load_sstable :: "fsys \<Rightarrow> string \<Rightarrow> entries \<Rightarrow> entries \<times> bool" where
  "load_sstable fs path merged =
     (case fs_files fs path of None \<Rightarrow> (merged, False) | Some c \<Rightarrow> load_loop (getlines c) merged)"

fun load_all :: "fsys \<Rightarrow> string list \<Rightarrow> entries \<Rightarrow> entries \<times> bool" where
  "load_all fs [] merged = (merged, True)"
| "load_all fs (path # ps) merged =
     (let (m, ok) = load_sstable fs path merged in if ok then load_all fs ps m else (m, False))"

text \<open>\<^verbatim>\<open>std::unique\<close> with equality of timestamps: the first version of each run stays.\<close>

fun std_unique :: "version list \<Rightarrow> version list" where
  "std_unique [] = []"
| "std_unique [v] = [v]"
| "std_unique (v # w # vs) =
     (if ver_timestamp v = ver_timestamp w then std_unique (v # vs) else v # std_unique (w # vs))"

definition compact ::
  "(version list \<Rightarrow> version list) \<Rightarrow> fsys \<Rightarrow> string list \<Rightarrow> string \<Rightarrow> fsys \<times> bool" where
  "compact srt fs input_paths output_path =
     (if input_paths = [] then (fs, False)
      else let (merged, ok) = load_all fs input_paths []
           in if \<not> ok then (fs, False)
              else sst_write fs output_path (map (\<lambda>(k, vs). (k, std_unique (srt vs))) merged))"

section \<open>Merging\<close>

lemma load_loop_rows:
  "\<forall>r\<in>set rs. row_ok r \<Longrightarrow> load_loop (map row_line rs) m = (fold (\<lambda>(k, v). entries_push k v) rs m, True)"
proof (induction rs arbitrary: m)
  case (Cons r rs)
  obtain k v where r: "r = (k, v)" by fastforce
  obtain q where q: "parse_row (row_line (k, v)) = Some (k, ver_timestamp v, row_type v, q)"
    "\<forall>s. ver_value v = Some s \<longrightarrow> ext_rest q = s"
    using parse_row_line [of k v] Cons.prems r by auto
  obtain t a where v: "v = \<lparr>ver_timestamp = t, ver_value = a\<rparr>" by (cases v) simp
  from q Cons show ?case
    by (cases a) (simp_all add: r v row_type_def)
qed simp

definition push_table :: "entries \<Rightarrow> entries \<Rightarrow> entries" where
  "push_table es m = fold (\<lambda>(k, v). entries_push k v) (rows_of es) m"

lemma load_sstable_written:
  "\<lbrakk>table_ok es; fs_files fs path = Some (sst_format es)\<rbrakk> \<Longrightarrow> load_sstable fs path m = (push_table es m, True)"
  by (simp add: load_sstable_def sst_format_rows text_of_def [symmetric] getlines_text table_ok_rows
      load_loop_rows push_table_def)

lemma load_all_written:
  "list_all2 (\<lambda>path es. table_ok es \<and> fs_files fs path = Some (sst_format es)) paths tabs \<Longrightarrow>
   load_all fs paths m = (fold push_table tabs m, True)"
  by (induction paths tabs arbitrary: m rule: list_all2_induct) (auto simp: load_sstable_written)

lemma push_rows:
  "sorted_keys m \<Longrightarrow> sorted_keys (fold (\<lambda>(k, v). entries_push k v) rs m)
   \<and> vers (fold (\<lambda>(k, v). entries_push k v) rs m) key = vers m key @ map snd (filter (\<lambda>r. fst r = key) rs)
   \<and> fst ` set (fold (\<lambda>(k, v). entries_push k v) rs m) = fst ` set m \<union> fst ` set rs"
proof (induction rs arbitrary: m)
  case (Cons r rs)
  obtain k v where r: "r = (k, v)" by fastforce
  from Cons.IH [OF sorted_keys_push [OF Cons.prems], of k v] Cons.prems show ?case
    by (auto simp: r vers_push keys_entries_push)
qed simp

lemma push_table_props:
  assumes "sorted_keys m" "sorted_keys es"
  shows "sorted_keys (push_table es m)
    \<and> vers (push_table es m) key = vers m key @ vers es key
    \<and> fst ` set (push_table es m) \<subseteq> fst ` set m \<union> fst ` set es"
  using push_rows [OF assms(1), of "rows_of es" key] filter_rows [OF assms(2), of key] rows_of_keys [of es]
  by (auto simp: push_table_def o_def)

lemma push_tables_props:
  assumes "sorted_keys m" "\<forall>es\<in>set tabs. sorted_keys es"
  shows "sorted_keys (fold push_table tabs m)
    \<and> vers (fold push_table tabs m) key = vers m key @ concat (map (\<lambda>es. vers es key) tabs)
    \<and> fst ` set (fold push_table tabs m) \<subseteq> fst ` set m \<union> (\<Union>es\<in>set tabs. fst ` set es)"
  using assms
proof (induction tabs arbitrary: m)
  case (Cons es tabs)
  then have *: "sorted_keys (push_table es m)" "vers (push_table es m) key = vers m key @ vers es key"
    "fst ` set (push_table es m) \<subseteq> fst ` set m \<union> fst ` set es"
    using push_table_props [of m es key] by auto
  from Cons.IH [OF *(1)] Cons.prems *(2) show ?case
    using *(3) by (simp add: Un_assoc [symmetric]) blast
qed simp

section \<open>Sorting and dropping repeats\<close>

lemma set_std_unique: "set (std_unique vs) \<subseteq> set vs"
  by (induction vs rule: std_unique.induct) auto

lemma timestamps_std_unique: "ver_timestamp ` set (std_unique vs) = ver_timestamp ` set vs"
  by (induction vs rule: std_unique.induct) auto

lemma ts_sorted_std_unique: "sorted (map ver_timestamp vs) \<Longrightarrow> ts_sorted (std_unique vs)"
proof (induction vs rule: std_unique.induct)
  case (3 v w vs)
  show ?case
  proof (cases "ver_timestamp v = ver_timestamp w")
    case False
    with "3.prems" have "\<forall>t\<in>ver_timestamp ` set (w # vs). ver_timestamp v < t"
      by (auto intro: order.strict_trans2 simp: order.strict_iff_order)
    with 3 False show ?thesis
      using timestamps_std_unique [of "w # vs"] by auto
  qed (use 3 in auto)
qed simp_all

text \<open>What a compaction of the tables \<open>tabs\<close> is to write.\<close>

definition merge_tables :: "(version list \<Rightarrow> version list) \<Rightarrow> entries list \<Rightarrow> entries" where
  "merge_tables srt tabs = map (\<lambda>(k, vs). (k, std_unique (srt vs))) (fold push_table tabs [])"

locale std_sort =
  fixes srt :: "version list \<Rightarrow> version list"
  assumes mset_srt: "mset (srt vs) = mset vs"
    and sorted_srt: "sorted (map ver_timestamp (srt vs))"
begin

lemma set_srt [simp]: "set (srt vs) = set vs"
  by (metis mset_srt set_mset_mset)

lemma sort_unique_sorted: "ts_sorted (std_unique (srt vs))"
  by (intro ts_sorted_std_unique sorted_srt)

text \<open>When a timestamp names one version, nothing but repetitions is dropped.\<close>

lemma sort_unique_set:
  assumes "\<forall>v\<in>set vs. \<forall>w\<in>set vs. ver_timestamp v = ver_timestamp w \<longrightarrow> v = w"
  shows "set (std_unique (srt vs)) = set vs"
proof
  show "set (std_unique (srt vs)) \<subseteq> set vs"
    using set_std_unique [of "srt vs"] by simp
  show "set vs \<subseteq> set (std_unique (srt vs))"
  proof
    fix v assume v: "v \<in> set vs"
    then have "ver_timestamp v \<in> ver_timestamp ` set (std_unique (srt vs))"
      by (simp add: timestamps_std_unique)
    then obtain w where "w \<in> set (std_unique (srt vs))" "ver_timestamp w = ver_timestamp v" by auto
    with assms v set_std_unique [of "srt vs"] show "v \<in> set (std_unique (srt vs))" by force
  qed
qed

lemma compact_written:
  assumes "paths \<noteq> []" "list_all2 (\<lambda>path es. table_ok es \<and> fs_files fs path = Some (sst_format es)) paths tabs"
  shows "compact srt fs paths out = sst_write fs out (merge_tables srt tabs)"
  using assms by (simp add: compact_def load_all_written merge_tables_def)

lemma vers_merge_tables:
  assumes "\<forall>es\<in>set tabs. sorted_keys es"
  shows "vers (merge_tables srt tabs) k = std_unique (srt (concat (map (\<lambda>es. vers es k) tabs)))"
proof -
  have "srt [] = []" using mset_srt [of "[]"] by simp
  then have "vers (map (\<lambda>(k, vs). (k, std_unique (srt vs))) m) k = std_unique (srt (vers m k))" for m
    by (auto simp: vers_def map_of_map split: option.splits)
  with push_tables_props [of "[]" tabs k] assms show ?thesis
    by (simp add: merge_tables_def)
qed

lemma merge_tables_set:
  assumes "\<forall>es\<in>set tabs. sorted_keys es"
    and "\<forall>v\<in>\<Union>es\<in>set tabs. set (vers es k). \<forall>w\<in>\<Union>es\<in>set tabs. set (vers es k).
           ver_timestamp v = ver_timestamp w \<longrightarrow> v = w"
  shows "set (vers (merge_tables srt tabs) k) = (\<Union>es\<in>set tabs. set (vers es k))"
  using assms sort_unique_set [of "concat (map (\<lambda>es. vers es k) tabs)"] by (simp add: vers_merge_tables)

text \<open>The merged table can be written and read back like the tables it comes from.\<close>

lemma merge_tables_ok:
  assumes "\<forall>es\<in>set tabs. table_ok es"
  shows "table_ok (merge_tables srt tabs)"
proof -
  have sk: "\<forall>es\<in>set tabs. sorted_keys es" using assms by (simp add: table_ok_def)
  let ?m = "fold push_table tabs []"
  have m: "sorted_keys ?m" "fst ` set ?m \<subseteq> (\<Union>es\<in>set tabs. fst ` set es)"
    using push_tables_props [OF _ sk, of "[]"] by auto
  have keys: "map fst (merge_tables srt tabs) = map fst ?m"
    by (simp add: merge_tables_def case_prod_beta o_def)
  have "key_ok k \<and> ts_sorted vs \<and> (\<forall>v\<in>set vs. version_ok v)" if "(k, vs) \<in> set (merge_tables srt tabs)" for k vs
  proof -
    have "k \<in> fst ` set ?m"
      using that keys by (metis fst_conv image_eqI list.set_map)
    then have "key_ok k" using m(2) assms by (fastforce simp: table_ok_def)
    moreover have "vs = vers (merge_tables srt tabs) k"
      using that m(1) keys by (simp add: vers_def sorted_keys_distinct)
    then have vs: "vs = std_unique (srt (concat (map (\<lambda>es. vers es k) tabs)))"
      by (simp add: vers_merge_tables [OF sk])
    moreover have "\<forall>v\<in>set vs. version_ok v"
      using set_std_unique [of "srt (concat (map (\<lambda>es. vers es k) tabs))"] assms
      by (fastforce simp: vs table_ok_versions)
    ultimately show ?thesis by (simp add: sort_unique_sorted)
  qed
  with m(1) keys show ?thesis by (auto simp: table_ok_def)
qed

end

interpretation stable_sort: std_sort "sort_key ver_timestamp"
  by unfold_locales simp_all

section \<open>Properties\<close>

lemma sst_write_ok: "sst_write fs path es = (fs', True) \<Longrightarrow> fs' = fs\<lparr>fs_files := (fs_files fs)(path \<mapsto> sst_format es)\<rparr>"
  using ofs_write_ok [of fs path False "sst_format es" fs'] by (simp add: sst_write_def)

text \<open>
  C5. Compaction changes no read: when the compaction of tables that lie in order, oldest first, succeeds,
  the new file alone answers every read as the search through the old tables from the newest to the
  oldest did.  This holds for every sorting function that sorts, stable or not.
\<close>

theorem compaction_preserves_reads:
  assumes "std_sort srt" "paths \<noteq> []"
    and files: "list_all2 (\<lambda>path es. table_ok es \<and> fs_files fs path = Some (sst_format es)) paths tabs"
    and layers: "layered (map (\<lambda>es. vers es key) tabs)"
    and run: "compact srt fs paths out = (fs', True)"
  shows "reader_get_at (reader_new fs' out 4 8192 4) key t
       = result_of (search_levels (rev (map (\<lambda>es. vers es key) tabs)) t)"
proof -
  have ok: "\<forall>es\<in>set tabs. table_ok es"
    using files by (auto simp: list_all2_conv_all_nth in_set_conv_nth)
  let ?es = "merge_tables srt tabs"
  have es: "table_ok ?es" by (rule std_sort.merge_tables_ok [OF assms(1) ok])
  have "fs_files fs' out = Some (sst_format ?es)"
    using run sst_write_ok [of fs out ?es fs'] std_sort.compact_written [OF assms(1,2) files] by simp
  then have "reader_get_at (reader_new fs' out 4 8192 4) key t = result_of (visible (vers ?es key) t)"
    using es by (intro reader_get_at_written) simp_all
  moreover have "set (vers ?es key) = (\<Union>es\<in>set tabs. set (vers es key))"
    using ok layered_unique [OF layers]
    by (intro std_sort.merge_tables_set [OF assms(1)]) (simp_all add: table_ok_def)
  then have "search_levels (rev (map (\<lambda>es. vers es key) tabs)) t = visible (vers ?es key) t"
    using vers_ts_sorted [OF es] by (intro search_levels_visible [OF layers]) simp_all
  ultimately show ?thesis by simp
qed

definition compaction_example :: fsys where
  "compaction_example = fs_empty\<lparr>fs_files := [''1'' \<mapsto> sst_format sst_example,
     ''2'' \<mapsto> sst_format [(''b'', [\<lparr>ver_timestamp = 5, ver_value = Some ''w''\<rparr>])]]\<rparr>"

theorem compaction_preserves_reads_witness:
  "reader_get_at (reader_new (fst (compact (sort_key ver_timestamp) compaction_example [''1'', ''2''] ''3''))
     ''3'' 4 8192 4) ''b'' 4 = found_value ''y z''"
proof -
  let ?new = "[(''b'', [\<lparr>ver_timestamp = 5, ver_value = Some ''w''\<rparr>])]"
  have new: "table_ok ?new"
    by (simp add: table_ok_def key_ok_def version_ok_def value_ok_def is_space_def)
  have files: "list_all2 (\<lambda>path es. table_ok es \<and> fs_files compaction_example path = Some (sst_format es))
      [''1'', ''2''] [sst_example, ?new]"
    using new sst_example_ok by (simp add: compaction_example_def)
  have sound: "fs_sound compaction_example" by (simp add: compaction_example_def)
  have run: "compact (sort_key ver_timestamp) compaction_example [''1'', ''2''] ''3'' =
      (fst (compact (sort_key ver_timestamp) compaction_example [''1'', ''2''] ''3''), True)"
    by (simp add: stable_sort.compact_written [OF _ files] sst_write_def sound fs_rules)
  show ?thesis
    using compaction_preserves_reads [OF stable_sort.std_sort_axioms _ files _ run, of "''b''" 4]
    by (simp add: sst_example_def vers_def layered_def older_def visible_def result_of_def)
qed

end
