(* ===== verification/Manifest.thy ===== *)
theory Manifest
  imports File_System
begin

text \<open>
  The list of live tables on disk (\<^verbatim>\<open>src/manifest.cpp\<close>): one path per line, appended to when a table is
  added and replaced through a temporary file and a rename when tables are merged.  A
  \<^verbatim>\<open>Manifest\<close> object is its \<^verbatim>\<open>path_\<close>.
\<close>

section \<open>The code\<close>

definition manifest_open :: "fsys \<Rightarrow> string \<Rightarrow> fsys \<times> bool" where
  "manifest_open fs path = ofs_write fs path True []"

definition load_sstables :: "fsys \<Rightarrow> string \<Rightarrow> string list" where
  "load_sstables fs path =
     (if path = [] then []
      else case fs_files fs path of None \<Rightarrow> [] | Some c \<Rightarrow> filter (\<lambda>line. line \<noteq> []) (getlines c))"

definition append_sstable :: "fsys \<Rightarrow> string \<Rightarrow> string \<Rightarrow> fsys \<times> bool" where
  "append_sstable fs path sstable_path =
     (if path = [] then (fs, False)
      else if sstable_path \<in> set (load_sstables fs path) then (fs, True)
      else ofs_write fs path True (sstable_path @ [NL]))"

definition replace_sstables :: "fsys \<Rightarrow> string \<Rightarrow> string list \<Rightarrow> fsys \<times> bool" where
  "replace_sstables fs path sstable_paths =
     (if path = [] then (fs, False)
      else let temp_path = path @ ''.tmp'';
               (fs1, written) = ofs_write fs temp_path False (put_lines sstable_paths)
           in if \<not> written then (fs1, False)
              else let (fs2, renamed) = fs_rename fs1 temp_path path
                   in if \<not> renamed then (fs_remove fs2 temp_path, False) else (fs2, True))"

section \<open>Lemmas\<close>

definition path_ok :: "string \<Rightarrow> bool" where
  "path_ok p \<longleftrightarrow> p \<noteq> [] \<and> NL \<notin> set p"

text \<open>The file lists these tables: what the code leaves behind when no write was cut short.\<close>

definition manifest_lists :: "fsys \<Rightarrow> string \<Rightarrow> string list \<Rightarrow> bool" where
  "manifest_lists fs path ps \<longleftrightarrow> path \<noteq> [] \<and> (\<forall>p\<in>set ps. path_ok p) \<and> fs_content fs path = put_lines ps"

lemma load_content:
  "load_sstables fs path = (if path = [] then [] else filter (\<lambda>line. line \<noteq> []) (getlines (fs_content fs path)))"
  by (cases "fs_files fs path") (simp_all add: load_sstables_def fs_content_def)

lemma load_listed: "manifest_lists fs path ps \<Longrightarrow> load_sstables fs path = ps"
proof -
  assume m: "manifest_lists fs path ps"
  then have "getlines (put_lines ps) = ps" "filter (\<lambda>line. line \<noteq> []) ps = ps"
    by (auto simp: manifest_lists_def path_ok_def text_rules intro!: filter_True)
  with m show ?thesis by (simp add: manifest_lists_def load_content)
qed

lemma manifest_open_effect:
  "manifest_open fs path = (fs', ok) \<Longrightarrow> ok = (\<not> fs_deny fs path)
   \<and> fs_content fs' = fs_content fs \<and> (\<forall>p. p \<noteq> path \<longrightarrow> fs_files fs' p = fs_files fs p)"
  by (auto simp: manifest_open_def ofs_write_def fs_taken_def fs_fits_def fs_content_def
      split: if_splits option.splits)

lemma manifest_open_sound:
  "fs_sound fs \<Longrightarrow> manifest_open fs path = (fs\<lparr>fs_files := (fs_files fs)(path \<mapsto> fs_content fs path)\<rparr>, True)"
  by (simp add: manifest_open_def fs_rules)

lemma append_listed:
  assumes "manifest_lists fs path ps" "path_ok p" "append_sstable fs path p = (fs', True)"
  shows "manifest_lists fs' path (if p \<in> set ps then ps else ps @ [p])"
  using assms ofs_write_ok [of fs path True "p @ [NL]" fs']
  by (auto simp: append_sstable_def load_listed manifest_lists_def fs_content_def split: if_splits)

lemma append_sound:
  assumes "fs_sound fs" "path \<noteq> []"
  shows "\<exists>fs'. append_sstable fs path p = (fs', True) \<and> fs_sound fs' \<and> (\<forall>q. q \<noteq> path \<longrightarrow> fs_files fs' q = fs_files fs q)"
  using assms by (auto simp: append_sstable_def fs_rules)

lemma temp_path_neq [simp]: "path @ ''.tmp'' \<noteq> path"
  by simp

lemma replace_listed:
  assumes "manifest_lists fs path ps" "\<forall>p\<in>set qs. path_ok p" "replace_sstables fs path qs = (fs', ok)"
  shows "manifest_lists fs' path (if ok then qs else ps)"
proof -
  let ?tmp = "path @ ''.tmp''"
  obtain fs1 b where w: "ofs_write fs ?tmp False (put_lines qs) = (fs1, b)" by fastforce
  have keep: "fs_files fs1 path = fs_files fs path"
    using w by (auto simp: ofs_write_def split: if_splits)
  show ?thesis
  proof (cases b)
    case False
    with assms w keep show ?thesis
      by (auto simp: replace_sstables_def manifest_lists_def fs_content_def)
  next
    case True
    with w have "fs_files fs1 ?tmp = Some (put_lines qs)"
      using ofs_write_ok [of fs ?tmp False "put_lines qs" fs1] by simp
    with assms w keep True show ?thesis
      by (cases "fs_norename fs1 path")
        (auto simp: replace_sstables_def manifest_lists_def fs_content_def fs_rename_def fs_remove_def)
  qed
qed

lemma replace_frame:
  assumes "replace_sstables fs path qs = (fs', ok)" "p \<noteq> path" "p \<noteq> path @ ''.tmp''"
  shows "fs_files fs' p = fs_files fs p"
  using assms by (auto simp: replace_sstables_def ofs_write_def fs_rename_def fs_remove_def Let_def
      split: if_splits option.splits)

lemma replace_sound:
  assumes "fs_sound fs" "path \<noteq> []"
  shows "\<exists>fs'. replace_sstables fs path qs = (fs', True) \<and> fs_sound fs'"
  using assms by (simp add: replace_sstables_def fs_rules)

section \<open>Properties\<close>

text \<open>
  C27. Replacing the list is atomic: whatever fails, the manifest lists the new tables when
  \<^verbatim>\<open>replace_sstables\<close> reports success and still lists the old ones when it does not.
\<close>

theorem manifest_replace_atomic:
  assumes "manifest_lists fs path ps" "\<forall>p\<in>set qs. path_ok p" "replace_sstables fs path qs = (fs', ok)"
  shows "load_sstables fs' path = (if ok then qs else ps)"
  by (rule load_listed [OF replace_listed [OF assms]])

text \<open>A disk that takes three bytes of the temporary file, and one that takes all of it.\<close>

theorem manifest_replace_atomic_witness:
  "load_sstables (fst (replace_sstables (fs_empty\<lparr>fs_files := [''M'' \<mapsto> ''a'' @ [NL]],
      fs_room := (\<lambda>_. Some 3)\<rparr>) ''M'' [''b'', ''c''])) ''M'' = [''a'']
   \<and> load_sstables (fst (replace_sstables (fs_empty\<lparr>fs_files := [''M'' \<mapsto> ''a'' @ [NL]]\<rparr>) ''M'' [''b'', ''c''])) ''M''
     = [''b'', ''c'']"
proof -
  let ?fs = "fs_empty\<lparr>fs_files := [''M'' \<mapsto> ''a'' @ [NL]]\<rparr>"
  let ?fs3 = "?fs\<lparr>fs_room := (\<lambda>_. Some 3)\<rparr>"
  have 1: "manifest_lists ?fs3 ''M'' [''a'']" "manifest_lists ?fs ''M'' [''a'']"
    by (simp_all add: manifest_lists_def path_ok_def fs_content_def fs_empty_def)
  have 2: "replace_sstables ?fs3 ''M'' [''b'', ''c''] = (fst (replace_sstables ?fs3 ''M'' [''b'', ''c'']), False)"
    by (simp add: replace_sstables_def ofs_write_def fs_taken_def fs_fits_def fs_empty_def)
  have 3: "replace_sstables ?fs ''M'' [''b'', ''c''] = (fst (replace_sstables ?fs ''M'' [''b'', ''c'']), True)"
    by (simp add: replace_sstables_def fs_rules)
  have 4: "\<forall>p\<in>set [''b'', ''c'']. path_ok p" by (simp add: path_ok_def)
  show ?thesis
    using manifest_replace_atomic [OF 1(1) 4 2] manifest_replace_atomic [OF 1(2) 4 3] by simp
qed

text \<open>
  A successful \<^verbatim>\<open>append_sstable\<close> adds the table at the end of the list, once: a table already listed
  is left where it is.
\<close>

theorem manifest_append_once:
  assumes "manifest_lists fs path ps" "path_ok p" "append_sstable fs path p = (fs', True)"
  shows "load_sstables fs' path = (if p \<in> set ps then ps else ps @ [p])"
  by (rule load_listed [OF append_listed [OF assms]])

theorem manifest_append_once_witness:
  "load_sstables (fst (append_sstable (fs_empty\<lparr>fs_files := [''M'' \<mapsto> ''a'' @ [NL]]\<rparr>) ''M'' ''b'')) ''M'' = [''a'', ''b'']"
proof -
  let ?fs = "fs_empty\<lparr>fs_files := [''M'' \<mapsto> ''a'' @ [NL]]\<rparr>"
  have 1: "manifest_lists ?fs ''M'' [''a'']" "path_ok ''b''"
    by (simp_all add: manifest_lists_def path_ok_def fs_content_def fs_empty_def)
  have "append_sstable ?fs ''M'' ''b'' = (fst (append_sstable ?fs ''M'' ''b''), True)"
    using load_listed [OF 1(1)] by (simp add: append_sstable_def fs_rules)
  from manifest_append_once [OF 1 this] show ?thesis by simp
qed

end
