(* ===== verification/Flush_Worker.thy ===== *)
theory Flush_Worker
  imports Sstable Manifest
begin

text \<open>
  The background thread that writes frozen tables (\<^verbatim>\<open>src/flush_worker.cpp\<close>).  The object and its thread
  are one record: the two queues, the two flags, and where the thread stands in \<^verbatim>\<open>run()\<close>.  A step of the
  thread is one critical section or one file operation, so that a client can be interleaved between the
  table being written, the manifest being opened and extended, and the completion being posted.
\<close>

section \<open>The code\<close>

record flush_task =
  ft_sstable_path :: string
  ft_manifest_path :: string
  ft_entries :: entries

datatype worker_pc =
    WNone                          \<comment> \<open>no thread\<close>
  | WWait                          \<comment> \<open>at \<^verbatim>\<open>cv_.wait\<close>\<close>
  | WWrite flush_task              \<comment> \<open>a task was popped\<close>
  | WOpen flush_task               \<comment> \<open>its table is written\<close>
  | WAppend flush_task             \<comment> \<open>the manifest is open\<close>
  | WPost flush_task               \<comment> \<open>the manifest lists the table\<close>
  | WExit                          \<comment> \<open>\<^verbatim>\<open>run()\<close> has returned\<close>

record flush_worker =
  fw_tasks :: "flush_task list"
  fw_completions :: "string list"
  fw_started :: bool
  fw_stopping :: bool
  fw_pc :: worker_pc

definition worker_init :: flush_worker where
  "worker_init = \<lparr>fw_tasks = [], fw_completions = [], fw_started = False, fw_stopping = False, fw_pc = WNone\<rparr>"

definition worker_start :: "flush_worker \<Rightarrow> flush_worker" where
  "worker_start fw =
     (if fw_started fw then fw
      else fw\<lparr>fw_stopping := False, fw_started := True, fw_pc := WWait\<rparr>)"

definition enqueue :: "flush_worker \<Rightarrow> string \<Rightarrow> string \<Rightarrow> entries \<Rightarrow> flush_worker \<times> bool" where
  "enqueue fw sstable_path manifest_path es =
     (if \<not> fw_started fw \<or> fw_stopping fw then (fw, False)
      else (fw\<lparr>fw_tasks := fw_tasks fw @ [\<lparr>ft_sstable_path = sstable_path,
                ft_manifest_path = manifest_path, ft_entries = es\<rparr>]\<rparr>, True))"

definition pending_tasks :: "flush_worker \<Rightarrow> nat" where
  "pending_tasks fw = length (fw_tasks fw)"

definition poll_completion :: "flush_worker \<Rightarrow> (string \<times> flush_worker) option" where
  "poll_completion fw =
     (case fw_completions fw of [] \<Rightarrow> None | p # ps \<Rightarrow> Some (p, fw\<lparr>fw_completions := ps\<rparr>))"

text \<open>One step of \<^verbatim>\<open>run()\<close>; a waiting thread with nothing to do stays where it is.\<close>

definition worker_step :: "flush_worker \<Rightarrow> fsys \<Rightarrow> flush_worker \<times> fsys" where
  "worker_step fw fs =
     (case fw_pc fw of
        WNone \<Rightarrow> (fw, fs)
      | WWait \<Rightarrow>
          (case fw_tasks fw of
             [] \<Rightarrow> (if fw_stopping fw then fw\<lparr>fw_pc := WExit\<rparr> else fw, fs)
           | t # ts \<Rightarrow> (fw\<lparr>fw_tasks := ts, fw_pc := WWrite t\<rparr>, fs))
      | WWrite t \<Rightarrow>
          (let (fs', ok) = sst_write fs (ft_sstable_path t) (ft_entries t)
           in (fw\<lparr>fw_pc := if ok then WOpen t else WWait\<rparr>, fs'))
      | WOpen t \<Rightarrow>
          (let (fs', ok) = manifest_open fs (ft_manifest_path t)
           in (fw\<lparr>fw_pc := if ok then WAppend t else WWait\<rparr>, fs'))
      | WAppend t \<Rightarrow>
          (let (fs', ok) = append_sstable fs (ft_manifest_path t) (ft_sstable_path t)
           in (fw\<lparr>fw_pc := if ok then WPost t else WWait\<rparr>, fs'))
      | WPost t \<Rightarrow> (fw\<lparr>fw_completions := fw_completions fw @ [ft_sstable_path t], fw_pc := WWait\<rparr>, fs)
      | WExit \<Rightarrow> (fw, fs))"

text \<open>\<^verbatim>\<open>worker_.join()\<close> after \<^verbatim>\<open>stopping_\<close> has been set: the thread runs until \<^verbatim>\<open>run()\<close> returns.\<close>

fun pc_rank :: "worker_pc \<Rightarrow> nat" where
  "pc_rank WNone = 0" | "pc_rank WWait = 1" | "pc_rank (WPost t) = 2" | "pc_rank (WAppend t) = 3"
| "pc_rank (WOpen t) = 4" | "pc_rank (WWrite t) = 5" | "pc_rank WExit = 0"

definition worker_rank :: "flush_worker \<Rightarrow> nat" where
  "worker_rank fw = 5 * length (fw_tasks fw) + pc_rank (fw_pc fw)"

lemma worker_step_rank:
  assumes "fw_stopping fw" "fw_pc fw \<noteq> WExit" "fw_pc fw \<noteq> WNone" "worker_step fw fs = (fw', fs')"
  shows "worker_rank fw' < worker_rank fw \<and> fw_stopping fw'"
  using assms by (cases "fw_pc fw") (auto simp: worker_step_def worker_rank_def split: list.splits prod.splits if_splits)

function worker_join :: "flush_worker \<Rightarrow> fsys \<Rightarrow> flush_worker \<times> fsys" where
  "worker_join fw fs =
     (if \<not> fw_stopping fw \<or> fw_pc fw = WExit \<or> fw_pc fw = WNone then (fw, fs)
      else let (fw', fs') = worker_step fw fs in worker_join fw' fs')"
  by pat_completeness auto
termination
  by (relation "measure (\<lambda>(fw, fs). worker_rank fw)") (auto dest: worker_step_rank split: prod.splits)

declare worker_join.simps [simp del]

definition worker_stop :: "flush_worker \<Rightarrow> fsys \<Rightarrow> flush_worker \<times> fsys" where
  "worker_stop fw fs =
     (if \<not> fw_started fw then (fw, fs)
      else let (fw', fs') = worker_join (fw\<lparr>fw_stopping := True\<rparr>) fs
           in (fw'\<lparr>fw_started := False\<rparr>, fs'))"

section \<open>The tasks of a worker\<close>

text \<open>Tasks that are queued or being worked on, in order.\<close>

fun pc_task :: "worker_pc \<Rightarrow> flush_task list" where
  "pc_task (WWrite t) = [t]" | "pc_task (WOpen t) = [t]" | "pc_task (WAppend t) = [t]"
| "pc_task (WPost t) = [t]" | "pc_task WNone = []" | "pc_task WWait = []" | "pc_task WExit = []"

definition in_work :: "flush_worker \<Rightarrow> flush_task list" where
  "in_work fw = pc_task (fw_pc fw) @ fw_tasks fw"

text \<open>How far the files have got with a task.\<close>

definition task_done :: "fsys \<Rightarrow> flush_task \<Rightarrow> bool" where
  "task_done fs t \<longleftrightarrow> fs_files fs (ft_sstable_path t) = Some (sst_format (ft_entries t))
     \<and> ft_sstable_path t \<in> set (load_sstables fs (ft_manifest_path t))"

text \<open>
  Tasks a client hands in: the table's path is a line of the manifest and is not the manifest, and the
  manifest lists well-formed paths.
\<close>

definition task_ok :: "string \<Rightarrow> flush_task \<Rightarrow> bool" where
  "task_ok man t \<longleftrightarrow> ft_manifest_path t = man \<and> path_ok (ft_sstable_path t)
     \<and> ft_sstable_path t \<noteq> man \<and> ft_sstable_path t \<noteq> man @ ''.tmp''"

definition worker_ok :: "string \<Rightarrow> flush_worker \<Rightarrow> fsys \<Rightarrow> bool" where
  "worker_ok man fw fs \<longleftrightarrow> fs_sound fs \<and> (\<exists>ps. manifest_lists fs man ps) \<and> (\<forall>t\<in>set (in_work fw). task_ok man t)
     \<and> (fw_started fw \<longrightarrow> fw_pc fw \<noteq> WNone)
     \<and> (case fw_pc fw of
          WOpen t \<Rightarrow> fs_files fs (ft_sstable_path t) = Some (sst_format (ft_entries t))
        | WAppend t \<Rightarrow> fs_files fs (ft_sstable_path t) = Some (sst_format (ft_entries t))
        | WPost t \<Rightarrow> task_done fs t
        | _ \<Rightarrow> True)"

text \<open>
  One step on a sound file system: the file of the task being written changes, the manifest gains at
  most this table, and nothing else changes; a task leaves the work list only by its completion being
  posted, when it is done.
\<close>

lemma worker_step_ok:
  assumes ok: "worker_ok man fw fs" and step: "worker_step fw fs = (fw', fs')"
  shows "worker_ok man fw' fs'
    \<and> (\<forall>p. p \<noteq> man \<longrightarrow> p \<notin> ft_sstable_path ` set (in_work fw) \<longrightarrow> fs_files fs' p = fs_files fs p)
    \<and> (case in_work fw of [] \<Rightarrow> fs' = fs | t # _ \<Rightarrow>
         (fs_files fs' (ft_sstable_path t) = fs_files fs (ft_sstable_path t)
            \<or> fs_files fs' (ft_sstable_path t) = Some (sst_format (ft_entries t)))
         \<and> (load_sstables fs' man = load_sstables fs man
            \<or> ft_sstable_path t \<notin> set (load_sstables fs man)
              \<and> load_sstables fs' man = load_sstables fs man @ [ft_sstable_path t] \<and> task_done fs' t))
    \<and> (in_work fw' = in_work fw \<and> fw_completions fw' = fw_completions fw
       \<or> (\<exists>t. in_work fw = t # in_work fw' \<and> task_done fs' t
            \<and> fw_completions fw' = fw_completions fw @ [ft_sstable_path t]))"
proof -
  obtain ps where sound: "fs_sound fs" and ps: "manifest_lists fs man ps" and man: "man \<noteq> []"
    and tasks: "\<forall>t\<in>set (in_work fw). task_ok man t"
    using ok by (auto simp: worker_ok_def manifest_lists_def)
  show ?thesis
  proof (cases "fw_pc fw")
    case (WWrite t)
    have t: "task_ok man t" using tasks WWrite by (simp add: in_work_def)
    then have "fs_content fs' man = fs_content fs man"
      using step WWrite by (auto simp: worker_step_def sst_write_def fs_sound_write [OF sound] task_ok_def fs_content_def)
    moreover from this have "load_sstables fs' man = load_sstables fs man" by (simp add: load_content)
    ultimately show ?thesis
      using ok step WWrite ps t
      by (auto simp: worker_step_def sst_write_def fs_sound_write [OF sound] worker_ok_def in_work_def
          manifest_lists_def task_ok_def)
  next
    case (WOpen t)
    have t: "task_ok man t" using tasks WOpen by (simp add: in_work_def)
    then have "fs_content fs' man = fs_content fs man"
      using step WOpen by (auto simp: worker_step_def manifest_open_sound [OF sound] task_ok_def fs_content_def)
    moreover from this have "load_sstables fs' man = load_sstables fs man" by (simp add: load_content)
    ultimately show ?thesis
      using ok step WOpen ps t
      by (auto simp: worker_step_def manifest_open_sound [OF sound] worker_ok_def in_work_def
          manifest_lists_def task_ok_def)
  next
    case (WAppend t)
    have t: "task_ok man t" using tasks WAppend by (simp add: in_work_def)
    obtain fs1 where a: "append_sstable fs man (ft_sstable_path t) = (fs1, True)" "fs_sound fs1"
      "\<forall>q. q \<noteq> man \<longrightarrow> fs_files fs1 q = fs_files fs q"
      using append_sound [OF sound man] by blast
    have l: "manifest_lists fs1 man (if ft_sstable_path t \<in> set ps then ps else ps @ [ft_sstable_path t])"
      using append_listed [OF ps _ a(1)] t by (simp add: task_ok_def)
    have l': "load_sstables fs man = ps"
      "load_sstables fs1 man = (if ft_sstable_path t \<in> set ps then ps else ps @ [ft_sstable_path t])"
      using load_listed [OF l] load_listed [OF ps] by auto
    have "fw' = fw\<lparr>fw_pc := WPost t\<rparr>" "fs' = fs1"
      using step WAppend a(1) t by (auto simp: worker_step_def task_ok_def)
    moreover have "task_done fs1 t"
      using ok WAppend t a(3) load_listed [OF l] by (auto simp: task_done_def worker_ok_def task_ok_def)
    ultimately show ?thesis
      using ok WAppend a(2,3) l l' t by (auto simp: worker_ok_def in_work_def task_done_def)
  next
    case (WPost t)
    then show ?thesis
      using ok step by (auto simp: worker_step_def worker_ok_def in_work_def)
  qed (use ok step in \<open>auto simp: worker_step_def worker_ok_def in_work_def split: list.splits if_splits\<close>)
qed

text \<open>A task that is done stays done when no task in work has its path.\<close>

lemma task_done_step:
  assumes "worker_ok man fw fs" "worker_step fw fs = (fw', fs')" "task_done fs t" "task_ok man t"
    "ft_sstable_path t \<notin> ft_sstable_path ` set (in_work fw)"
  shows "task_done fs' t"
  using worker_step_ok [OF assms(1,2)] assms(3-5) by (auto simp: task_done_def task_ok_def split: list.splits)

lemma worker_join_unfold:
  "\<lbrakk>fw_stopping fw; fw_pc fw \<noteq> WExit; fw_pc fw \<noteq> WNone; worker_step fw fs = (fw', fs')\<rbrakk>
   \<Longrightarrow> worker_join fw fs = worker_join fw' fs'"
  by (subst worker_join.simps) simp

text \<open>Stopping works off every task that was handed in.\<close>

lemma worker_join_ok:
  assumes "worker_ok man fw fs" "fw_stopping fw" "fw_pc fw \<noteq> WNone" "fw_pc fw = WExit \<longrightarrow> fw_tasks fw = []"
    "distinct (map ft_sstable_path (in_work fw))" "worker_join fw fs = (fw', fs')"
  shows "worker_ok man fw' fs' \<and> in_work fw' = [] \<and> fw_pc fw' = WExit
    \<and> fw_completions fw' = fw_completions fw @ map ft_sstable_path (in_work fw)
    \<and> (\<forall>t\<in>set (in_work fw). task_done fs' t)
    \<and> (\<forall>t. task_ok man t \<longrightarrow> task_done fs t \<longrightarrow> ft_sstable_path t \<notin> ft_sstable_path ` set (in_work fw) \<longrightarrow> task_done fs' t)"
  using assms
proof (induction "worker_rank fw" arbitrary: fw fs rule: less_induct)
  case less
  show ?case
  proof (cases "fw_pc fw = WExit")
    case True
    with less.prems show ?thesis
      by (subst (asm) worker_join.simps) (auto simp: in_work_def)
  next
    case False
    obtain fw1 fs1 where s: "worker_step fw fs = (fw1, fs1)" by fastforce
    have rank: "worker_rank fw1 < worker_rank fw" "fw_stopping fw1"
      using worker_step_rank [OF less.prems(2) False less.prems(3) s] by auto
    have pc1: "fw_pc fw1 \<noteq> WNone" "fw_pc fw1 = WExit \<longrightarrow> fw_tasks fw1 = []"
      using s False less.prems(3)
      by (auto simp: worker_step_def split: worker_pc.splits list.splits prod.splits if_splits)
    note st = worker_step_ok [OF less.prems(1) s]
    have d: "distinct (map ft_sstable_path (in_work fw1))"
      using st less.prems(5) by auto
    have j: "worker_join fw1 fs1 = (fw', fs')"
      using less.prems(6) worker_join_unfold [OF less.prems(2) False less.prems(3) s] by simp
    note IH = less.hyps [OF rank(1) conjunct1 [OF st] rank(2) pc1 d j]
    have old: "task_done fs' t" if "task_ok man t" "task_done fs t" "ft_sstable_path t \<notin> ft_sstable_path ` set (in_work fw)" for t
      using IH st that task_done_step [OF less.prems(1) s that(2,1,3)] by auto
    from st consider "in_work fw1 = in_work fw" "fw_completions fw1 = fw_completions fw"
      | t where "in_work fw = t # in_work fw1" "task_done fs1 t" "fw_completions fw1 = fw_completions fw @ [ft_sstable_path t]"
      by blast
    then show ?thesis
    proof cases
      case 1
      with IH old show ?thesis by auto
    next
      case (2 t)
      have "task_ok man t" using less.prems(1) 2(1) by (auto simp: worker_ok_def)
      then have "task_done fs' t" using IH 2 less.prems(5) by auto
      with IH old 2 show ?thesis by auto
    qed
  qed
qed

section \<open>Properties\<close>

text \<open>
  C28. \<^verbatim>\<open>stop()\<close> drains the queue: on a file system without failures, for a started thread and tasks with different
  table names, when it returns every task that was queued or being worked on has its table on disk and in the
  manifest, and its completion has been posted in order; the queue is empty and the thread has ended.
\<close>

theorem worker_stop_drains:
  assumes "worker_ok man fw fs" "fw_started fw" "fw_pc fw \<noteq> WExit" "distinct (map ft_sstable_path (in_work fw))"
    "worker_stop fw fs = (fw', fs')"
  shows "in_work fw' = [] \<and> \<not> fw_started fw' \<and> fw_pc fw' = WExit
    \<and> fw_completions fw' = fw_completions fw @ map ft_sstable_path (in_work fw)
    \<and> (\<forall>t\<in>set (in_work fw). task_done fs' t)"
proof -
  let ?fw = "fw\<lparr>fw_stopping := True\<rparr>"
  obtain fw1 where j: "worker_join ?fw fs = (fw1, fs')" "fw' = fw1\<lparr>fw_started := False\<rparr>"
    using assms(2,5) by (auto simp: worker_stop_def split: prod.splits)
  have w: "in_work ?fw = in_work fw" by (simp add: in_work_def)
  have "worker_ok man ?fw fs"
    using assms(1) by (simp add: worker_ok_def w cong: worker_pc.case_cong)
  from worker_join_ok [OF this _ _ _ _ j(1)] assms(1-4) show ?thesis
    by (auto simp: j(2) w in_work_def worker_ok_def)
qed

definition worker_example :: flush_worker where
  "worker_example = \<lparr>fw_tasks = [\<lparr>ft_sstable_path = ''s'', ft_manifest_path = ''M'', ft_entries = sst_example\<rparr>],
     fw_completions = [], fw_started = True, fw_stopping = False, fw_pc = WWait\<rparr>"

theorem worker_stop_drains_witness:
  "fw_completions (fst (worker_stop worker_example fs_empty)) = [''s'']
   \<and> task_done (snd (worker_stop worker_example fs_empty))
       \<lparr>ft_sstable_path = ''s'', ft_manifest_path = ''M'', ft_entries = sst_example\<rparr>"
proof -
  have ok: "worker_ok ''M'' worker_example fs_empty"
    by (auto simp: worker_ok_def worker_example_def manifest_lists_def in_work_def task_ok_def path_ok_def
        fs_content_def fs_empty_def fs_sound_def intro: exI [of _ "[]"])
  show ?thesis
    using worker_stop_drains [OF ok _ _ _ prod.collapse [symmetric]]
    by (simp add: worker_example_def in_work_def)
qed

end
