(* ===== verification/Kv_Store.thy ===== *)
theory Kv_Store
  imports Wal Memtable Compactor Flush_Worker
begin

text \<open>
  The store itself (\<^verbatim>\<open>src/kv_store.cpp\<close>): the latest-value map, the active and the frozen table, the list
  of on-disk tables, the log, and the operations over them.  The record is the object, the file system
  is passed along with it; every operation is one critical section of \<^verbatim>\<open>mu_\<close>.

  \<^verbatim>\<open>map_\<close>, a \<^verbatim>\<open>std::unordered_map\<close>, is an association list without repeated keys; its iteration order is
  unspecified and no lemma depends on the order of the list.  A \<^verbatim>\<open>std::map\<close> that has been moved from is
  empty.  \<open>srt\<close> is the function \<^verbatim>\<open>std::sort\<close> computes in a compaction.
\<close>

section \<open>State\<close>

record kv_store =
  kv_map :: "(string \<times> string) list"
  kv_memtable :: memtable
  kv_immutable :: "entries option"           \<comment> \<open>\<^verbatim>\<open>immutable_memtable_\<close>\<close>
  kv_paths :: "string list"                  \<comment> \<open>\<^verbatim>\<open>sstable_paths_\<close>\<close>
  kv_worker :: flush_worker
  kv_next_id :: u64                          \<comment> \<open>\<^verbatim>\<open>next_sstable_id_\<close>\<close>
  kv_manifest :: string                      \<comment> \<open>the path inside \<^verbatim>\<open>manifest_\<close>\<close>
  kv_manifest_path :: string
  kv_wal :: wal
  kv_seq :: u64
  kv_group :: int                            \<comment> \<open>\<^verbatim>\<open>group_commit_every_\<close>\<close>
  kv_opened :: bool

definition kv_init :: kv_store where
  "kv_init = \<lparr>kv_map = [], kv_memtable = memtable_init, kv_immutable = None, kv_paths = [],
     kv_worker = worker_init, kv_next_id = 0, kv_manifest = [], kv_manifest_path = ''/tmp/veristore-MANIFEST'',
     kv_wal = wal_init, kv_seq = 0, kv_group = 5, kv_opened = False\<rparr>"

definition kMemTableFlushThresholdBytes :: u64 where
  "kMemTableFlushThresholdBytes = 4 * 1024 * 1024"

definition kCompactionTrigger :: nat where
  "kCompactionTrigger = 4"

definition snapshot_file :: string where
  "snapshot_file = ''/tmp/kv.snapshot''"

section \<open>File names\<close>

definition extract_sstable_id :: "string \<Rightarrow> u64" where
  "extract_sstable_id path =
     (case (find_last_char path (CHR ''-''), rfind_str path ''.sst'') of
        (Some dash, Some dot) \<Rightarrow>
          if dash + 1 \<ge> dot then 0
          else (case stoull (substr path (dash + 1) (dot - dash - 1)) of None \<Rightarrow> 0 | Some n \<Rightarrow> n)
      | _ \<Rightarrow> 0)"

definition flush_path :: "u64 \<Rightarrow> string" where
  "flush_path i = ''/tmp/veristore-'' @ show_nat (unat i) @ ''.sst''"

definition compact_path :: "u64 \<Rightarrow> string" where
  "compact_path i = ''/tmp/veristore-compacted-'' @ show_nat (unat i) @ ''.sst''"

text \<open>
  The loop that looks for an unused output name, with the name found and the next id.  It tries one name
  per unit of fuel; the number of tables plus one is enough (lemma \<open>fresh_output_found\<close>).
\<close>

fun fresh_output :: "nat \<Rightarrow> u64 \<Rightarrow> string list \<Rightarrow> (string \<times> u64) option" where
  "fresh_output 0 i paths = None"
| "fresh_output (Suc n) i paths =
     (let output = compact_path i
      in if output \<in> set paths then fresh_output n (i + 1) paths else Some (output, i + 1))"

section \<open>Compaction and flushing\<close>

definition maybe_compact_sstables ::
  "(version list \<Rightarrow> version list) \<Rightarrow> kv_store \<Rightarrow> fsys \<Rightarrow> kv_store \<times> fsys \<times> bool" where
  "maybe_compact_sstables srt kv fs =
     (if length (kv_paths kv) < kCompactionTrigger then (kv, fs, True)
      else let first = kv_paths kv ! 0; second = kv_paths kv ! 1
           in if first = second
              then let paths = first # drop 2 (kv_paths kv);
                       (fs', ok) = replace_sstables fs (kv_manifest kv) paths
                   in (kv\<lparr>kv_paths := paths\<rparr>, fs', ok)
              else case fresh_output (Suc (length (kv_paths kv))) (kv_next_id kv) (kv_paths kv) of
                     None \<Rightarrow> (kv, fs, False)
                   | Some (output, next_id) \<Rightarrow>
                       let kv1 = kv\<lparr>kv_next_id := next_id\<rparr>;
                           temp_output = output @ ''.tmp'';
                           (fs1, compacted) = compact srt fs [first, second] temp_output
                       in if \<not> compacted then (kv1, fs1, False)
                          else let (fs2, renamed) = fs_rename fs1 temp_output output
                               in if \<not> renamed then (kv1, fs_remove fs2 temp_output, False)
                                  else let updated_paths = output # drop 2 (kv_paths kv);
                                           (fs3, replaced) = replace_sstables fs2 (kv_manifest kv) updated_paths
                                       in if \<not> replaced then (kv1, fs_remove fs3 output, False)
                                          else (kv1\<lparr>kv_paths := updated_paths\<rparr>,
                                                fs_remove (fs_remove fs3 first) second, True))"

text \<open>The argument of \<^verbatim>\<open>enqueue\<close> is moved out of \<^verbatim>\<open>*immutable_memtable_\<close>, which stays engaged and empty.\<close>

definition maybe_flush_memtable :: "kv_store \<Rightarrow> kv_store \<times> bool" where
  "maybe_flush_memtable kv =
     (if approximate_size_bytes (kv_memtable kv) < kMemTableFlushThresholdBytes then (kv, True)
      else if kv_immutable kv \<noteq> None then (kv, False)
      else let (es, mt) = take_entries (kv_memtable kv);
               kv1 = kv\<lparr>kv_memtable := mt, kv_immutable := Some es\<rparr>
           in if es = [] then (kv1\<lparr>kv_immutable := None\<rparr>, True)
              else let path = flush_path (kv_next_id kv);
                       (fw, ok) = enqueue (kv_worker kv) path (kv_manifest_path kv) es
                   in (kv1\<lparr>kv_next_id := kv_next_id kv + 1, kv_worker := fw, kv_immutable := Some []\<rparr>, ok))"

function drain_loop :: "kv_store \<Rightarrow> bool \<Rightarrow> kv_store \<times> bool" where
  "drain_loop kv added_new_sstable =
     (case poll_completion (kv_worker kv) of
        None \<Rightarrow> (kv, added_new_sstable)
      | Some (p, fw) \<Rightarrow>
          if p \<in> set (kv_paths kv)
          then drain_loop (kv\<lparr>kv_worker := fw, kv_immutable := None\<rparr>) added_new_sstable
          else drain_loop (kv\<lparr>kv_worker := fw, kv_immutable := None, kv_paths := kv_paths kv @ [p]\<rparr>) True)"
  by pat_completeness auto
termination
  by (relation "measure (\<lambda>(kv, _). length (fw_completions (kv_worker kv)))")
    (auto simp: poll_completion_def split: list.splits)

declare drain_loop.simps [simp del]

definition drain_completed_flushes ::
  "(version list \<Rightarrow> version list) \<Rightarrow> kv_store \<Rightarrow> fsys \<Rightarrow> kv_store \<times> fsys" where
  "drain_completed_flushes srt kv fs =
     (let (kv1, added_new_sstable) = drain_loop kv False
      in if added_new_sstable
         then let (kv2, fs2, _) = maybe_compact_sstables srt kv1 fs in (kv2, fs2)
         else (kv1, fs))"

section \<open>Reading and writing\<close>

definition kv_put :: "kv_store \<Rightarrow> fsys \<Rightarrow> string \<Rightarrow> string \<Rightarrow> kv_store \<times> fsys" where
  "kv_put kv fs key val =
     (if \<not> kv_opened kv then (kv, fs)
      else let s = kv_seq kv + 1;
               kv1 = kv\<lparr>kv_seq := s\<rparr>;
               (w, logged) = append_put (kv_wal kv1) s key val
           in if \<not> logged then (kv1\<lparr>kv_wal := w\<rparr>, fs)
              else let kv2 = kv1\<lparr>kv_wal := w, kv_map := AList.update key val (kv_map kv1),
                               kv_memtable := memtable_put key s val (kv_memtable kv1)\<rparr>;
                       (kv3, ok) = maybe_flush_memtable kv2
                   in if \<not> ok then (kv3, fs)
                      else if s mod word_of_int (kv_group kv3) = 0
                      then let (w', fs', _) = wal_flush (kv_wal kv3) fs in (kv3\<lparr>kv_wal := w'\<rparr>, fs')
                      else (kv3, fs))"

definition kv_get :: "kv_store \<Rightarrow> string \<Rightarrow> string option" where
  "kv_get kv key = map_of (kv_map kv) key"

definition lookup_entries :: "entries \<Rightarrow> string \<Rightarrow> u64 \<Rightarrow> lookup_result" where
  "lookup_entries es key t =
     (case map_of es key of None \<Rightarrow> not_found | Some versions \<Rightarrow> scan_back (rev versions) t)"

text \<open>The loop over \<^verbatim>\<open>sstable_paths_\<close> from the newest table; the argument is the reversed vector.\<close>

fun lookup_paths :: "fsys \<Rightarrow> string list \<Rightarrow> string \<Rightarrow> u64 \<Rightarrow> string option" where
  "lookup_paths fs [] key t = None"
| "lookup_paths fs (path # ps) key t =
     (let result = reader_get_at (reader_new fs path 4 8192 4) key t
      in if lr_state result = Value then lr_value result
         else if lr_state result = Tombstone then None
         else lookup_paths fs ps key t)"

definition kv_get_at ::
  "(version list \<Rightarrow> version list) \<Rightarrow> kv_store \<Rightarrow> fsys \<Rightarrow> string \<Rightarrow> u64 \<Rightarrow> kv_store \<times> fsys \<times> string option" where
  "kv_get_at srt kv fs key t =
     (let (kv1, fs1) = drain_completed_flushes srt kv fs;
          mem_result = memtable_get_at (kv_memtable kv1) key t
      in (kv1, fs1,
          if lr_state mem_result = Value then lr_value mem_result
          else if lr_state mem_result = Tombstone then None
          else case kv_immutable kv1 of
                 None \<Rightarrow> lookup_paths fs1 (rev (kv_paths kv1)) key t
               | Some es \<Rightarrow>
                   let immutable_result = lookup_entries es key t
                   in if lr_state immutable_result = Value then lr_value immutable_result
                      else if lr_state immutable_result = Tombstone then None
                      else lookup_paths fs1 (rev (kv_paths kv1)) key t))"

definition kv_del :: "kv_store \<Rightarrow> fsys \<Rightarrow> string \<Rightarrow> kv_store \<times> fsys \<times> bool" where
  "kv_del kv fs key =
     (if \<not> kv_opened kv then (kv, fs, False)
      else if map_of (kv_map kv) key = None then (kv, fs, False)
      else let s = kv_seq kv + 1;
               kv1 = kv\<lparr>kv_seq := s\<rparr>;
               (w, logged) = append_del (kv_wal kv1) s key
           in if \<not> logged then (kv1\<lparr>kv_wal := w\<rparr>, fs, False)
              else let kv2 = kv1\<lparr>kv_wal := w, kv_memtable := memtable_del key s (kv_memtable kv1),
                               kv_map := AList.delete key (kv_map kv1)\<rparr>;
                       (kv3, ok) = maybe_flush_memtable kv2
                   in if \<not> ok then (kv3, fs, False)
                      else if s mod word_of_int (kv_group kv3) = 0
                      then let (w', fs', flushed) = wal_flush (kv_wal kv3) fs
                           in (kv3\<lparr>kv_wal := w'\<rparr>, fs', flushed)
                      else (kv3, fs, True))"

definition kv_size :: "kv_store \<Rightarrow> nat" where
  "kv_size kv = length (kv_map kv)"

definition set_group_commit_every :: "int \<Rightarrow> kv_store \<Rightarrow> kv_store" where
  "set_group_commit_every n kv = kv\<lparr>kv_group := if n \<le> 0 then 1 else n\<rparr>"

definition kv_flush_wal :: "kv_store \<Rightarrow> fsys \<Rightarrow> kv_store \<times> fsys \<times> bool" where
  "kv_flush_wal kv fs = (let (w, fs', ok) = wal_flush (kv_wal kv) fs in (kv\<lparr>kv_wal := w\<rparr>, fs', ok))"

definition ApplyPut :: "string \<Rightarrow> string \<Rightarrow> kv_store \<Rightarrow> kv_store" where
  "ApplyPut key val kv = kv\<lparr>kv_map := AList.update key val (kv_map kv)\<rparr>"

definition ApplyDel :: "string \<Rightarrow> kv_store \<Rightarrow> kv_store" where
  "ApplyDel key kv = kv\<lparr>kv_map := AList.delete key (kv_map kv)\<rparr>"

definition list_keys_with_prefix :: "string \<Rightarrow> kv_store \<Rightarrow> string list" where
  "list_keys_with_prefix pre kv = filter (has_prefix pre) (map fst (kv_map kv))"

section \<open>Snapshot files\<close>

text \<open>\<^verbatim>\<open>save_snapshot\<close> and \<^verbatim>\<open>load_snapshot\<close>: the latest values only, read back by \<^verbatim>\<open>in >> k >> v\<close>.\<close>

definition save_snapshot :: "kv_store \<Rightarrow> fsys \<Rightarrow> string \<Rightarrow> fsys \<times> bool" where
  "save_snapshot kv fs path =
     (let tmp = path @ ''.tmp''
      in if fs_deny fs tmp then (fs, False)
         else let (fs1, _) = ofs_write fs tmp False (put_lines (map (\<lambda>(k, v). k @ TAB # v) (kv_map kv)))
              in fs_rename fs1 tmp path)"

lemma ext_string_shorter: "ext_string s = Some (w, r) \<Longrightarrow> length r < length s"
proof -
  assume e: "ext_string s = Some (w, r)"
  let ?r = "skip_ws s"
  have "?r \<noteq> []" and r: "r = dropWhile (\<lambda>c. \<not> is_space c) ?r"
    using e by (auto simp: ext_string_def Let_def split: if_splits)
  moreover from this have "\<not> is_space (hd ?r)"
    using hd_dropWhile [of is_space s] by (simp add: skip_ws_def)
  ultimately have "length r < length ?r"
    by (cases ?r) (simp_all add: length_dropWhile_le le_imp_less_Suc)
  also have "\<dots> \<le> length s" by (simp add: skip_ws_def length_dropWhile_le)
  finally show ?thesis .
qed

function load_pairs :: "string \<Rightarrow> (string \<times> string) list \<Rightarrow> (string \<times> string) list" where
  "load_pairs s m =
     (case ext_string s of
        None \<Rightarrow> m
      | Some (k, r) \<Rightarrow>
          (case ext_string r of None \<Rightarrow> m | Some (v, r') \<Rightarrow> load_pairs r' (AList.update k v m)))"
  by pat_completeness auto
termination
  by (relation "measure (length \<circ> fst)") (auto intro: less_trans ext_string_shorter)

declare load_pairs.simps [simp del]

definition load_snapshot :: "kv_store \<Rightarrow> fsys \<Rightarrow> string \<Rightarrow> kv_store \<times> bool" where
  "load_snapshot kv fs path =
     (case fs_files fs path of
        None \<Rightarrow> (kv, False)
      | Some c \<Rightarrow> (kv\<lparr>kv_map := load_pairs c []\<rparr>, True))"

text \<open>\<^verbatim>\<open>save_to_file\<close> and \<^verbatim>\<open>load_from_file\<close>: every version of the active table.\<close>

definition save_to_file :: "kv_store \<Rightarrow> fsys \<Rightarrow> string \<Rightarrow> fsys \<times> bool" where
  "save_to_file kv fs path = ofs_write_noflush fs path (sst_format (snapshot_entries (kv_memtable kv)))"

text \<open>One line: key, timestamp, type and, for a put, the value; \<^const>\<open>None\<close> is \<^verbatim>\<open>return false\<close>.\<close>

definition parse_snapshot_line :: "string \<Rightarrow> (string \<times> version) option" where
  "parse_snapshot_line line =
     (case find_char line TAB of
        None \<Rightarrow> None
      | Some first_tab \<Rightarrow>
          (case find_from line TAB (first_tab + 1) of
             None \<Rightarrow> None
           | Some second_tab \<Rightarrow>
               let third_tab = find_from line TAB (second_tab + 1);
                   key = substr line 0 first_tab;
                   timestamp_text = substr line (first_tab + 1) (second_tab - first_tab - 1);
                   ty = (case third_tab of
                           None \<Rightarrow> drop (second_tab + 1) line
                         | Some tab \<Rightarrow> substr line (second_tab + 1) (tab - second_tab - 1))
               in case stoull timestamp_text of
                    None \<Rightarrow> None
                  | Some timestamp \<Rightarrow>
                      if ty = ''P''
                      then (case third_tab of
                              None \<Rightarrow> None
                            | Some tab \<Rightarrow> Some (key, \<lparr>ver_timestamp = timestamp, ver_value = Some (drop (tab + 1) line)\<rparr>))
                      else if ty = ''D'' then Some (key, \<lparr>ver_timestamp = timestamp, ver_value = None\<rparr>)
                      else None))"

text \<open>The update of \<^verbatim>\<open>map_\<close> and \<^verbatim>\<open>memtable_\<close> that recovery from either file makes for one version.\<close>

definition restore :: "string \<times> version \<Rightarrow> kv_store \<Rightarrow> kv_store" where
  "restore = (\<lambda>(key, v) kv. case ver_value v of
     Some val \<Rightarrow> kv\<lparr>kv_map := AList.update key val (kv_map kv),
                    kv_memtable := memtable_put key (ver_timestamp v) val (kv_memtable kv)\<rparr>
   | None \<Rightarrow> kv\<lparr>kv_map := AList.delete key (kv_map kv),
                kv_memtable := memtable_del key (ver_timestamp v) (kv_memtable kv)\<rparr>)"

fun load_lines :: "string list \<Rightarrow> kv_store \<Rightarrow> kv_store \<times> bool" where
  "load_lines [] kv = (kv, True)"
| "load_lines (line # ls) kv =
     (if line = [] then load_lines ls kv
      else case parse_snapshot_line line of
             None \<Rightarrow> (kv, False)
           | Some (key, v) \<Rightarrow>
               load_lines ls ((restore (key, v) kv)\<lparr>kv_seq := max (kv_seq kv) (ver_timestamp v)\<rparr>))"

definition load_from_file :: "kv_store \<Rightarrow> fsys \<Rightarrow> string \<Rightarrow> kv_store \<times> bool" where
  "load_from_file kv fs path =
     (case fs_files fs path of
        None \<Rightarrow> (kv, False)
      | Some c \<Rightarrow> load_lines (getlines c)
                    (kv\<lparr>kv_map := [], kv_memtable := memtable_clear (kv_memtable kv)\<rparr>))"

definition checkpoint :: "kv_store \<Rightarrow> fsys \<Rightarrow> string \<Rightarrow> string \<Rightarrow> kv_store \<times> fsys \<times> bool" where
  "checkpoint kv fs snapshot_path wpath =
     (if \<not> kv_opened kv then (kv, fs, False)
      else let (fs1, saved) = save_to_file kv fs snapshot_path
           in if \<not> saved then (kv, fs1, False)
              else let (w, fs2, reopened) = wal_open_file (wal_close (kv_wal kv)) (fs_remove fs1 wpath) wpath
                   in (kv\<lparr>kv_wal := w\<rparr>, fs2, reopened))"

section \<open>Opening\<close>

definition record_version :: "wal_record \<Rightarrow> string \<times> version" where
  "record_version r = (wr_key r,
     \<lparr>ver_timestamp = wr_seq r, ver_value = (if wr_type r = WalPut then Some (wr_val r) else None)\<rparr>)"

definition max_sstable_id :: "string list \<Rightarrow> u64" where
  "max_sstable_id paths = foldl (\<lambda>n path. max n (extract_sstable_id path + 1)) 0 paths"

definition kv_open ::
  "(version list \<Rightarrow> version list) \<Rightarrow> kv_store \<Rightarrow> fsys \<Rightarrow> string \<Rightarrow> kv_store \<times> fsys \<times> bool" where
  "kv_open srt kv fs wpath =
     (if kv_opened kv then (kv, fs, True)
      else let (kv1, _) = load_from_file kv fs snapshot_file;
               (w, fs1, wal_opened) = wal_open_file (kv_wal kv1) fs wpath
           in if \<not> wal_opened then (kv1\<lparr>kv_wal := w\<rparr>, fs1, False)
              else let (w', kv2, max_seq, replayed) = replay_into (restore \<circ> record_version) w fs1 (kv1\<lparr>kv_wal := w\<rparr>)
                   in if \<not> replayed then (kv2\<lparr>kv_wal := w'\<rparr>, fs1, False)
                      else let kv3 = kv2\<lparr>kv_wal := w', kv_seq := max_seq, kv_opened := True,
                                       kv_manifest := kv_manifest_path kv2\<rparr>;
                               (fs2, man_opened) = manifest_open fs1 (kv_manifest_path kv3)
                           in if \<not> man_opened then (kv3, fs2, False)
                              else let paths = load_sstables fs2 (kv_manifest kv3);
                                       kv4 = kv3\<lparr>kv_paths := paths, kv_next_id := max_sstable_id paths\<rparr>;
                                       (kv5, fs3, _) = maybe_compact_sstables srt kv4 fs2
                                   in (kv5\<lparr>kv_worker := worker_start (kv_worker kv5),
                                           kv_next_id := word_of_nat (length (kv_paths kv5))\<rparr>, fs3, True))"

end
