(* ===== verification/Kv_Invariant.thy ===== *)
theory Kv_Invariant
  imports Kv_Store
begin

text \<open>
  What the store promises, and that every operation keeps it.  The specification is the history of
  accepted writes: \<open>latest\<close> gives the current value of a key, the newest version not newer than \<open>t\<close> gives
  the value at \<open>t\<close>.  The invariant ties the map, the levels (on-disk tables, a table in flight, the
  active table), the files, the manifest and the log to that history.
\<close>

section \<open>File names\<close>

definition manifest_file :: string where
  "manifest_file = ''/tmp/veristore-MANIFEST''"

definition store_path :: "string \<Rightarrow> bool" where
  "store_path p \<longleftrightarrow> (\<exists>i. p = flush_path i \<or> p = compact_path i)"

text \<open>Every file the store writes besides its log and snapshots.\<close>

definition private_path :: "string \<Rightarrow> bool" where
  "private_path p \<longleftrightarrow> p = manifest_file \<or> p = manifest_file @ ''.tmp''
     \<or> (\<exists>q. store_path q \<and> (p = q \<or> p = q @ ''.tmp''))"

lemma flush_path_inject [simp]: "flush_path i = flush_path j \<longleftrightarrow> i = j"
  by (auto simp: flush_path_def intro: word_unat_eq_iff [THEN iffD2])

lemma compact_path_inject [simp]: "compact_path i = compact_path j \<longleftrightarrow> i = j"
  by (auto simp: compact_path_def intro: word_unat_eq_iff [THEN iffD2])

lemma hd_show_nat: "is_digit (hd (show_nat n))"
  using show_nat_digits [of "hd (show_nat n)" n] by simp

lemma flush_compact_path [simp]: "flush_path i \<noteq> compact_path j"
proof
  assume "flush_path i = compact_path j"
  then have "hd (show_nat (unat i) @ ''.sst'') = CHR ''c''"
    by (simp add: flush_path_def compact_path_def)
  then show False using hd_show_nat [of "unat i"] by (simp add: is_digit_def)
qed

lemma store_path_suffix: "store_path p \<Longrightarrow> \<exists>q. p = q @ ''.sst''"
  by (auto simp: store_path_def flush_path_def compact_path_def)

lemma store_path_ok:
  assumes "store_path p"
  shows "path_ok p" "p \<noteq> manifest_file" "p \<noteq> manifest_file @ ''.tmp''"
proof -
  show "path_ok p"
    using assms by (auto simp: store_path_def path_ok_def flush_path_def compact_path_def)
  obtain q where "p = q @ ''.sst''" using store_path_suffix [OF assms] by blast
  then have "last p = CHR ''t''" by simp
  then show "p \<noteq> manifest_file" "p \<noteq> manifest_file @ ''.tmp''"
    by (auto simp: manifest_file_def)
qed

lemma store_path_tmp [simp]: "\<lbrakk>store_path p; store_path q\<rbrakk> \<Longrightarrow> p \<noteq> q @ ''.tmp''"
  by (auto dest!: store_path_suffix)

lemma manifest_not_tmp [simp]: "manifest_file \<noteq> q @ ''.tmp''"
proof
  assume a: "manifest_file = q @ ''.tmp''"
  have "last (q @ ''.tmp'') = CHR ''p''" by simp
  with a have "last manifest_file = CHR ''p''" by (simp only:)
  then show False by (simp add: manifest_file_def)
qed

lemma private_store_path: "store_path p \<Longrightarrow> private_path p \<and> private_path (p @ ''.tmp'')"
  by (auto simp: private_path_def)

lemma private_manifest [simp]: "private_path manifest_file" "private_path (manifest_file @ ''.tmp'')"
  by (simp_all add: private_path_def)

lemma not_private_snapshot: "\<not> private_path snapshot_file"
  by (auto simp: private_path_def store_path_def flush_path_def compact_path_def snapshot_file_def manifest_file_def)

text \<open>The search for an unused output name always ends.\<close>

lemma fresh_output_None: "fresh_output n i paths = None \<Longrightarrow> j < n \<Longrightarrow> compact_path (i + word_of_nat j) \<in> set paths"
proof (induction n arbitrary: i j)
  case (Suc n)
  have tail: "fresh_output n (i + 1) paths = None" and here: "compact_path i \<in> set paths"
    using Suc.prems(1) by (auto simp: Let_def split: if_splits)
  show ?case
  proof (cases j)
    case 0
    with here show ?thesis by simp
  next
    case (Suc k)
    then show ?thesis using Suc.IH [OF tail, of k] Suc.prems(2) by (simp add: add.assoc)
  qed
qed simp

lemma fresh_output_Some:
  "fresh_output n i paths = Some (out, nx) \<Longrightarrow>
   \<exists>j<n. out = compact_path (i + word_of_nat j) \<and> nx = i + word_of_nat j + 1 \<and> out \<notin> set paths"
proof (induction n arbitrary: i)
  case (Suc n)
  show ?case
  proof (cases "compact_path i \<in> set paths")
    case True
    with Suc.prems have "fresh_output n (i + 1) paths = Some (out, nx)" by (simp add: Let_def)
    from Suc.IH [OF this] obtain j where "j < n" "out = compact_path (i + 1 + word_of_nat j)"
      "nx = i + 1 + word_of_nat j + 1" "out \<notin> set paths"
      by blast
    then show ?thesis by (intro exI [of _ "Suc j"]) (simp add: add.assoc)
  next
    case False
    with Suc.prems show ?thesis by (intro exI [of _ 0]) (simp add: Let_def)
  qed
qed simp

lemma fresh_output_found:
  assumes "length paths < 2 ^ 64"
  shows "\<exists>out nx. fresh_output (Suc (length paths)) i paths = Some (out, nx)"
proof (rule ccontr)
  assume "\<not> ?thesis"
  then have none: "fresh_output (Suc (length paths)) i paths = None"
    by (cases "fresh_output (Suc (length paths)) i paths") auto
  let ?f = "\<lambda>j. compact_path (i + word_of_nat j)"
  have "inj_on ?f {..length paths}"
  proof (rule inj_onI)
    fix x y assume xy: "x \<in> {..length paths}" "y \<in> {..length paths}" "?f x = ?f y"
    then have "(word_of_nat x :: u64) = word_of_nat y" by simp
    moreover have "unat (word_of_nat x :: u64) = x" "unat (word_of_nat y :: u64) = y"
      using xy(1,2) assms by (simp_all add: unsigned_of_nat take_bit_nat_eq_self)
    ultimately show "x = y" by metis
  qed
  then have "card (?f ` {..length paths}) = Suc (length paths)"
    by (simp add: card_image)
  moreover have "?f ` {..length paths} \<subseteq> set paths"
    using fresh_output_None [OF none] by auto
  ultimately show False
    using card_mono [of "set paths" "?f ` {..length paths}"] card_length [of paths] by simp
qed

section \<open>Histories\<close>

type_synonym history = "(string \<times> version) list"

definition hist_of :: "history \<Rightarrow> string \<Rightarrow> version list" where
  "hist_of H k = map snd (filter (\<lambda>op. fst op = k) H)"

definition latest :: "history \<Rightarrow> string \<Rightarrow> string option" where
  "latest H k = (if hist_of H k = [] then None else ver_value (last (hist_of H k)))"

definition value_of :: "version option \<Rightarrow> string option" where
  "value_of r = (case r of None \<Rightarrow> None | Some v \<Rightarrow> ver_value v)"

text \<open>The value of a key at a time: that of the newest write not newer.\<close>

definition value_at :: "history \<Rightarrow> string \<Rightarrow> u64 \<Rightarrow> string option" where
  "value_at H k t = value_of (visible (hist_of H k) t)"

lemma hist_of_snoc: "hist_of (H @ [(k, v)]) k' = hist_of H k' @ (if k' = k then [v] else [])"
  by (simp add: hist_of_def)

lemma latest_snoc: "latest (H @ [(k, v)]) k' = (if k' = k then ver_value v else latest H k')"
  by (simp add: latest_def hist_of_snoc)

lemma set_hist_of: "set (hist_of H k) = {v. (k, v) \<in> set H}"
  by (force simp: hist_of_def)

lemma ts_sorted_hist_of: "sorted_wrt (<) (map (ver_timestamp \<circ> snd) H) \<Longrightarrow> ts_sorted (hist_of H k)"
  by (auto simp: hist_of_def sorted_wrt_map o_def intro: sorted_wrt_filter)

text \<open>The latest value is the value at any time from the last write on.\<close>

lemma value_at_latest:
  assumes "\<forall>(k, v)\<in>set H. ver_timestamp v \<le> t"
  shows "value_at H k t = latest H k"
proof -
  have "filter (\<lambda>v. ver_timestamp v \<le> t) (hist_of H k) = hist_of H k"
    using assms by (intro filter_True) (auto simp: set_hist_of)
  then show ?thesis by (simp add: value_at_def visible_def latest_def value_of_def)
qed

section \<open>Levels\<close>

lemma layered_snoc_iff:
  "layered (ls @ [m]) \<longleftrightarrow> layered ls \<and> ts_sorted m
     \<and> (\<forall>l\<in>set ls. older l m)"
  by (auto simp: layered_def sorted_wrt_append)

lemma layered_push:
  assumes "layered (ls @ [m])" "\<forall>l\<in>set (ls @ [m]). \<forall>u\<in>set l. ver_timestamp u < ver_timestamp v"
  shows "layered (ls @ [m @ [v]])"
  using assms by (auto simp: layered_snoc_iff sorted_wrt_append older_def)

lemma layered_fresh_top: "layered ls \<Longrightarrow> layered (ls @ [[]])"
  by (simp add: layered_snoc_iff older_def)

lemma older_Un: "\<lbrakk>set m = set a \<union> set b; older a l; older b l\<rbrakk> \<Longrightarrow> older m l"
  by (simp add: older_def ball_Un)

lemma layered_merge:
  assumes "layered (a # b # ls)" "ts_sorted m" "set m = set a \<union> set b"
  shows "layered (m # ls)"
  using assms by (auto simp: layered_def intro: older_Un)

text \<open>The levels of the store, oldest first, hold the history of every key, in layers.\<close>

definition holds :: "history \<Rightarrow> entries list \<Rightarrow> bool" where
  "holds H tabs \<longleftrightarrow> (\<forall>es\<in>set tabs. table_ok es)
     \<and> (\<forall>k. layered (map (\<lambda>es. vers es k) tabs) \<and> (\<Union>es\<in>set tabs. set (vers es k)) = {v. (k, v) \<in> set H})"

definition hist_ok :: "history \<Rightarrow> u64 \<Rightarrow> bool" where
  "hist_ok H seq \<longleftrightarrow> sorted_wrt (<) (map (ver_timestamp \<circ> snd) H)
     \<and> (\<forall>(k, v)\<in>set H. ver_timestamp v \<le> seq \<and> key_ok k \<and> version_ok v)"

lemma holds_search:
  assumes "holds H tabs" "hist_ok H seq"
  shows "value_of (search_levels (rev (map (\<lambda>es. vers es k) tabs)) t) = value_at H k t"
proof -
  have "search_levels (rev (map (\<lambda>es. vers es k) tabs)) t = visible (hist_of H k) t"
    using assms by (intro search_levels_visible)
      (auto simp: holds_def hist_ok_def set_hist_of intro: ts_sorted_hist_of)
  then show ?thesis by (simp add: value_at_def)
qed

lemma map_of_table: "sorted_keys es \<Longrightarrow> (k, vs) \<in> set es \<Longrightarrow> vers es k = vs"
  by (simp add: vers_def sorted_keys_distinct)

lemma table_ok_push:
  assumes "table_ok es" "key_ok k" "version_ok v" "\<forall>u\<in>set (vers es k). ver_timestamp u < ver_timestamp v"
  shows "table_ok (entries_push k v es)"
proof -
  have s: "sorted_keys es" "sorted_keys (entries_push k v es)"
    using assms(1) sorted_keys_push by (auto simp: table_ok_def)
  have "key_ok k' \<and> ts_sorted vs \<and> (\<forall>u\<in>set vs. version_ok u)" if e: "(k', vs) \<in> set (entries_push k v es)" for k' vs
  proof -
    have vs: "vs = vers es k' @ (if k' = k then [v] else [])"
      using map_of_table [OF s(2) e] vers_push [OF s(1), of k v k'] by simp
    have "k' \<in> insert k (fst ` set es)"
      using e keys_entries_push [of k v es] by (metis fst_conv image_eqI)
    then have "key_ok k'" using assms(1,2) by (auto simp: table_ok_def)
    with vs vers_ts_sorted [OF assms(1), of k'] table_ok_versions [OF assms(1)] assms(3,4) show ?thesis
      by (auto simp: sorted_wrt_append)
  qed
  with s(2) show ?thesis by (auto simp: table_ok_def)
qed

lemma holds_push:
  assumes "holds H (tabs @ [es])" "\<forall>(k', u)\<in>set H. ver_timestamp u < ver_timestamp v" "key_ok k" "version_ok v"
  shows "holds (H @ [(k, v)]) (tabs @ [entries_push k v es])"
proof -
  have all: "\<forall>es'\<in>set (tabs @ [es]). \<forall>u\<in>set (vers es' k'). ver_timestamp u < ver_timestamp v" for k'
    using assms(1,2) unfolding holds_def by fast
  have sk: "sorted_keys es" and ok: "table_ok es" using assms(1) by (auto simp: holds_def table_ok_def)
  have "table_ok (entries_push k v es)"
    using table_ok_push [OF ok assms(3,4)] all by auto
  moreover have "layered (map (\<lambda>es. vers es k') (tabs @ [entries_push k v es]))" for k'
  proof (cases "k' = k")
    case True
    then show ?thesis
      using assms(1) all [of k] layered_push [of "map (\<lambda>es. vers es k) tabs" "vers es k" v]
      by (auto simp: holds_def vers_push [OF sk])
  next
    case False
    then show ?thesis using assms(1) by (auto simp: holds_def vers_push [OF sk])
  qed
  moreover have "(\<Union>es'\<in>set (tabs @ [entries_push k v es]). set (vers es' k')) = {u. (k', u) \<in> set (H @ [(k, v)])}" for k'
  proof -
    have "(\<Union>es'\<in>set (tabs @ [es]). set (vers es' k')) = {u. (k', u) \<in> set H}"
      using assms(1) by (simp add: holds_def)
    then show ?thesis by (auto simp: vers_push [OF sk])
  qed
  ultimately show ?thesis
    using assms(1) by (auto simp: holds_def)
qed

lemma hist_ok_push:
  assumes "hist_ok H seq" "key_ok k" "version_ok v" "seq < ver_timestamp v"
  shows "hist_ok (H @ [(k, v)]) (ver_timestamp v)" "\<forall>(k', u)\<in>set H. ver_timestamp u < ver_timestamp v"
proof -
  show old: "\<forall>(k', u)\<in>set H. ver_timestamp u < ver_timestamp v"
    using assms(1,4) by (auto simp: hist_ok_def)
  show "hist_ok (H @ [(k, v)]) (ver_timestamp v)"
    using assms old by (force simp: hist_ok_def sorted_wrt_append)
qed

lemma table_ok_Nil [simp]: "table_ok []"
  by (simp add: table_ok_def)

lemma holds_rotate: "holds H tabs \<Longrightarrow> holds H (tabs @ [[]])"
  by (auto simp: holds_def layered_fresh_top)

lemma holds_merge:
  assumes "std_sort srt" "holds H (a # b # tabs)"
  shows "holds H (merge_tables srt [a, b] # tabs)"
proof -
  let ?m = "merge_tables srt [a, b]"
  have ab: "table_ok a" "table_ok b" using assms(2) by (auto simp: holds_def)
  have ok: "table_ok ?m" using std_sort.merge_tables_ok [OF assms(1), of "[a, b]"] ab by simp
  have m: "set (vers ?m k) = set (vers a k) \<union> set (vers b k)" for k
  proof -
    have "layered [vers a k, vers b k]" using assms(2) by (auto simp: holds_def layered_def)
    from layered_unique [OF this] show ?thesis
      using std_sort.merge_tables_set [OF assms(1), of "[a, b]" k] ab by (simp add: table_ok_def)
  qed
  have "layered (vers ?m k # map (\<lambda>es. vers es k) tabs)" for k
  proof -
    have "layered (vers a k # vers b k # map (\<lambda>es. vers es k) tabs)"
      using assms(2) by (simp add: holds_def)
    from layered_merge [OF this vers_ts_sorted [OF ok] m] show ?thesis .
  qed
  with ok assms(2) m show ?thesis by (auto simp: holds_def Un_assoc)
qed

text \<open>A table built from writes with increasing timestamps.\<close>

lemma applied_table:
  assumes "sorted_wrt (<) (map (ver_timestamp \<circ> snd) ops)" "\<forall>(k, v) \<in> set ops. key_ok k \<and> version_ok v"
  shows "table_ok (mt_entries (fold memtable_apply ops memtable_init))
    \<and> vers (mt_entries (fold memtable_apply ops memtable_init)) k = hist_of ops k"
  using assms
proof (induction ops arbitrary: k rule: rev_induct)
  case Nil
  show ?case by (simp add: memtable_init_def hist_of_def)
next
  case (snoc op ops)
  obtain k' v where op: "op = (k', v)" by fastforce
  have IH: "table_ok (mt_entries (fold memtable_apply ops memtable_init))"
    "vers (mt_entries (fold memtable_apply ops memtable_init)) k'' = hist_of ops k''" for k''
    using snoc by (auto simp: sorted_wrt_append)
  have "\<forall>u \<in> set (hist_of ops k'). ver_timestamp u < ver_timestamp v"
    using snoc.prems(1) by (force simp: set_hist_of sorted_wrt_append op)
  then have "table_ok (entries_push k' v (mt_entries (fold memtable_apply ops memtable_init)))"
    using snoc.prems(2) op by (intro table_ok_push [OF IH(1)]) (auto simp: IH(2))
  moreover have "sorted_keys (mt_entries (fold memtable_apply ops memtable_init))" using IH(1) by (simp add: table_ok_def)
  ultimately show ?case using IH(2) by (simp add: op vers_push hist_of_snoc)
qed

section \<open>Properties\<close>

text \<open>
  C35. The search for the name of a compaction output ends: from every id, after at most one more attempt than
  there are tables it has found a name no table has.
\<close>

theorem compaction_name_found:
  assumes "length paths < 2 ^ 64"
  shows "\<exists>out nx. fresh_output (Suc (length paths)) i paths = Some (out, nx) \<and> out \<notin> set paths"
  using fresh_output_found [OF assms, of i] fresh_output_Some by blast

theorem compaction_name_found_witness:
  "\<exists>out nx. fresh_output 2 4 [compact_path 4] = Some (out, nx) \<and> out \<notin> {compact_path 4}"
  using compaction_name_found [of "[compact_path 4]" 4] by (simp add: numeral_2_eq_2)

end
