(* ===== verification/Kv_Operations.thy ===== *)
theory Kv_Operations
  imports Kv_Invariant
begin

text \<open>
  The invariant of an open store and its preservation by \<^verbatim>\<open>put\<close>, \<^verbatim>\<open>del\<close>, \<^verbatim>\<open>get_at\<close>, \<^verbatim>\<open>flush_wal\<close> and the
  steps of the flush thread, on a file system without failures.  Ghost arguments of the invariant: the
  history \<open>H\<close>, the tables \<open>tabs\<close> behind \<^verbatim>\<open>sstable_paths_\<close>, and the table \<open>fl\<close> in flight, if there is one.
\<close>

section \<open>The invariant\<close>

definition data_inv :: "history \<Rightarrow> entries list \<Rightarrow> entries list \<Rightarrow> kv_store \<Rightarrow> bool" where
  "data_inv H tabs fl kv \<longleftrightarrow> holds H (tabs @ fl @ [mt_entries (kv_memtable kv)]) \<and> hist_ok H (kv_seq kv)
     \<and> distinct (map fst (kv_map kv)) \<and> (\<forall>k. map_of (kv_map kv) k = latest H k)"

definition flight_paths :: "kv_store \<Rightarrow> string list" where
  "flight_paths kv = map ft_sstable_path (in_work (kv_worker kv)) @ fw_completions (kv_worker kv)"

definition names_inv :: "kv_store \<Rightarrow> bool" where
  "names_inv kv \<longleftrightarrow> distinct (kv_paths kv @ flight_paths kv)
     \<and> (\<forall>p\<in>set (kv_paths kv @ flight_paths kv). store_path p \<and> (\<forall>i. p = flush_path i \<longrightarrow> i < kv_next_id kv))
     \<and> kv_manifest kv = manifest_file \<and> kv_manifest_path kv = manifest_file"

definition files_inv :: "entries list \<Rightarrow> kv_store \<Rightarrow> fsys \<Rightarrow> bool" where
  "files_inv tabs kv fs \<longleftrightarrow> list_all2 (\<lambda>p es. fs_files fs p = Some (sst_format es)) (kv_paths kv) tabs"

text \<open>Nothing in flight; a task the thread has not finished; a completion not yet collected.\<close>

definition flight_inv :: "entries list \<Rightarrow> kv_store \<Rightarrow> fsys \<Rightarrow> bool" where
  "flight_inv fl kv fs \<longleftrightarrow>
     (in_work (kv_worker kv) = [] \<and> fw_completions (kv_worker kv) = [] \<and> kv_immutable kv = None \<and> fl = []
        \<and> load_sstables fs manifest_file = kv_paths kv)
   \<or> (\<exists>t. in_work (kv_worker kv) = [t] \<and> fw_completions (kv_worker kv) = [] \<and> kv_immutable kv = Some []
        \<and> fl = [ft_entries t]
        \<and> (load_sstables fs manifest_file = kv_paths kv
           \<or> load_sstables fs manifest_file = kv_paths kv @ [ft_sstable_path t]
             \<and> fs_files fs (ft_sstable_path t) = Some (sst_format (ft_entries t))))
   \<or> (\<exists>p es. in_work (kv_worker kv) = [] \<and> fw_completions (kv_worker kv) = [p] \<and> kv_immutable kv = Some []
        \<and> fl = [es] \<and> fs_files fs p = Some (sst_format es)
        \<and> load_sstables fs manifest_file = kv_paths kv @ [p])"

definition thread_inv :: "kv_store \<Rightarrow> fsys \<Rightarrow> bool" where
  "thread_inv kv fs \<longleftrightarrow> worker_ok manifest_file (kv_worker kv) fs \<and> fw_started (kv_worker kv)
     \<and> \<not> fw_stopping (kv_worker kv) \<and> fw_pc (kv_worker kv) \<noteq> WExit \<and> kv_opened kv"

definition kv_inv :: "history \<Rightarrow> entries list \<Rightarrow> entries list \<Rightarrow> kv_store \<Rightarrow> fsys \<Rightarrow> bool" where
  "kv_inv H tabs fl kv fs \<longleftrightarrow> data_inv H tabs fl kv \<and> names_inv kv \<and> files_inv tabs kv fs
     \<and> flight_inv fl kv fs \<and> thread_inv kv fs"

lemmas kv_inv_defs = kv_inv_def data_inv_def names_inv_def files_inv_def flight_inv_def thread_inv_def flight_paths_def

text \<open>The log: the file and the buffer together hold the encoded history.  No snapshot file exists: the
  histories considered here contain no checkpoint.\<close>

definition version_record :: "string \<times> version \<Rightarrow> wal_record" where
  "version_record = (\<lambda>(k, v). \<lparr>wr_type = (if ver_value v = None then WalDel else WalPut),
     wr_seq = ver_timestamp v, wr_key = k, wr_val = (case ver_value v of None \<Rightarrow> [] | Some s \<Rightarrow> s)\<rparr>)"

definition log_inv :: "string \<Rightarrow> history \<Rightarrow> history \<Rightarrow> kv_store \<Rightarrow> fsys \<Rightarrow> bool" where
  "log_inv wpath F B kv fs \<longleftrightarrow> wal_open (kv_wal kv) \<and> wal_path (kv_wal kv) = wpath
     \<and> \<not> private_path wpath \<and> wpath \<noteq> snapshot_file \<and> fs_files fs snapshot_file = None
     \<and> wal_pos (kv_wal kv) = length (fs_content fs wpath)
     \<and> fs_content fs wpath = concat (map (wal_encode \<circ> version_record) F)
     \<and> wal_buffer (kv_wal kv) = map (wal_encode \<circ> version_record) B
     \<and> (\<forall>op\<in>set (F @ B). wal_ok (version_record op))"

lemma record_version_record [simp]: "record_version (version_record op) = op"
  by (cases op) (auto simp: record_version_def version_record_def split: option.splits)

section \<open>Framing\<close>

definition same_private :: "fsys \<Rightarrow> fsys \<Rightarrow> bool" where
  "same_private fs fs' \<longleftrightarrow> (\<forall>p. private_path p \<longrightarrow> fs_files fs' p = fs_files fs p)"

lemma same_private_content:
  assumes "same_private fs fs'"
  shows "load_sstables fs' manifest_file = load_sstables fs manifest_file"
    "store_path p \<Longrightarrow> fs_files fs' p = fs_files fs p"
    "manifest_lists fs' manifest_file ps = manifest_lists fs manifest_file ps"
  using assms private_manifest private_store_path
  by (auto simp: same_private_def load_content manifest_lists_def fs_content_def)

lemma task_ok_private: "task_ok manifest_file t \<Longrightarrow> store_path (ft_sstable_path t) \<Longrightarrow> same_private fs fs' \<Longrightarrow>
  task_done fs' t = task_done fs t"
  by (simp add: task_done_def task_ok_def same_private_content)

lemma kv_inv_frame:
  assumes "kv_inv H tabs fl kv fs" "same_private fs fs'" "fs_sound fs'"
  shows "kv_inv H tabs fl kv fs'"
proof -
  let ?w = "kv_worker kv"
  note sp = same_private_content [OF assms(2)]
  have store: "\<forall>p\<in>set (kv_paths kv @ flight_paths kv). store_path p"
    using assms(1) by (simp add: kv_inv_def names_inv_def)
  have "files_inv tabs kv fs'"
    using assms(1) store sp(2) by (auto simp: kv_inv_def files_inv_def list_all2_conv_all_nth)
  moreover have "flight_inv fl kv fs'"
    using assms(1) store sp(1,2) by (auto simp: kv_inv_def flight_inv_def flight_paths_def)
  moreover have "worker_ok manifest_file ?w fs'"
  proof -
    have ok: "worker_ok manifest_file ?w fs" using assms(1) by (simp add: kv_inv_def thread_inv_def)
    have "store_path (ft_sstable_path t) \<and> task_ok manifest_file t" if "t \<in> set (in_work ?w)" for t
      using that store ok by (auto simp: flight_paths_def worker_ok_def)
    with ok sp(2,3) assms(3) task_ok_private [OF _ _ assms(2)] show ?thesis
      unfolding worker_ok_def by (cases "fw_pc ?w") (auto simp: in_work_def)
  qed
  ultimately show ?thesis
    using assms(1) by (simp add: kv_inv_def thread_inv_def)
qed

section \<open>Handing the active table to the flush thread\<close>

lemma take_entries_simps [simp]:
  "fst (take_entries mt) = mt_entries mt" "mt_entries (snd (take_entries mt)) = []"
  by (simp_all add: take_entries_def)

lemma in_work_enqueue: "in_work (fw\<lparr>fw_tasks := fw_tasks fw @ [t]\<rparr>) = in_work fw @ [t]"
  by (simp add: in_work_def)

lemma worker_ok_enqueue:
  "\<lbrakk>worker_ok man fw fs; task_ok man t\<rbrakk> \<Longrightarrow> worker_ok man (fw\<lparr>fw_tasks := fw_tasks fw @ [t]\<rparr>) fs"
  by (simp add: worker_ok_def in_work_enqueue cong: worker_pc.case_cong)

lemma maybe_flush_inv:
  assumes inv: "kv_inv H tabs fl kv fs" and ids: "unat (kv_next_id kv) + 1 < 2 ^ 64"
    and run: "maybe_flush_memtable kv = (kv', ok)"
  shows "\<exists>fl'. kv_inv H tabs fl' kv' fs" "kv_wal kv' = kv_wal kv \<and> kv_group kv' = kv_group kv"
proof -
  let ?es = "mt_entries (kv_memtable kv)" and ?mt = "snd (take_entries (kv_memtable kv))"
  have *: "(\<exists>fl'. kv_inv H tabs fl' kv' fs) \<and> kv_wal kv' = kv_wal kv \<and> kv_group kv' = kv_group kv"
  proof (cases "approximate_size_bytes (kv_memtable kv) < kMemTableFlushThresholdBytes \<or> kv_immutable kv \<noteq> None")
    case True
    with run have "kv' = kv" by (auto simp: maybe_flush_memtable_def split: if_splits)
    with inv show ?thesis by blast
  next
    case False
    with inv have fl: "fl = []" "in_work (kv_worker kv) = []" "fw_completions (kv_worker kv) = []"
      "kv_immutable kv = None" "load_sstables fs manifest_file = kv_paths kv"
      by (auto simp: kv_inv_def flight_inv_def)
    show ?thesis
    proof (cases "?es = []")
      case True
      with False run have "kv' = kv\<lparr>kv_memtable := ?mt, kv_immutable := None\<rparr>"
        by (auto simp: maybe_flush_memtable_def take_entries_def split: if_splits)
      with True inv fl show ?thesis by (auto simp: kv_inv_defs)
    next
      case nonempty: False
      let ?t = "\<lparr>ft_sstable_path = flush_path (kv_next_id kv), ft_manifest_path = manifest_file, ft_entries = ?es\<rparr>"
      let ?fw = "(kv_worker kv)\<lparr>fw_tasks := fw_tasks (kv_worker kv) @ [?t]\<rparr>"
      have kv': "kv' = kv\<lparr>kv_memtable := ?mt, kv_next_id := kv_next_id kv + 1, kv_worker := ?fw, kv_immutable := Some []\<rparr>"
        using run False nonempty inv
        by (auto simp: maybe_flush_memtable_def take_entries_def enqueue_def kv_inv_def names_inv_def thread_inv_def
            split: if_splits)
      have store: "store_path (flush_path (kv_next_id kv))" by (auto simp: store_path_def)
      then have t: "task_ok manifest_file ?t" by (simp add: task_ok_def store_path_ok)
      have w: "in_work ?fw = [?t]" by (simp add: in_work_enqueue fl)
      have "worker_ok manifest_file ?fw fs"
        using inv t by (intro worker_ok_enqueue) (simp_all add: kv_inv_def thread_inv_def)
      then have "thread_inv kv' fs" using inv by (simp add: kv_inv_def thread_inv_def kv')
      moreover have "names_inv kv'"
        using inv store by (auto simp: kv_inv_def names_inv_def flight_paths_def kv' w fl less_Suc_u64 [OF ids])
      moreover have "data_inv H tabs [?es] kv'"
        using inv holds_rotate [of H "tabs @ [?es]"] by (simp add: kv_inv_def data_inv_def kv' fl)
      moreover have "flight_inv [?es] kv' fs" by (simp add: flight_inv_def kv' w fl)
      ultimately have "kv_inv H tabs [?es] kv' fs" using inv by (simp add: kv_inv_def files_inv_def kv')
      then show ?thesis by (auto simp: kv')
    qed
  qed
  from * show "\<exists>fl'. kv_inv H tabs fl' kv' fs" "kv_wal kv' = kv_wal kv \<and> kv_group kv' = kv_group kv" by auto
qed

section \<open>Writes\<close>

lemma kv_inv_wal [simp]: "kv_inv H tabs fl (kv\<lparr>kv_wal := w\<rparr>) fs = kv_inv H tabs fl kv fs"
  by (simp add: kv_inv_defs)

lemma kv_inv_sound: "kv_inv H tabs fl kv fs \<Longrightarrow> fs_sound fs"
  by (simp add: kv_inv_def thread_inv_def worker_ok_def)

lemma wal_flush_log:
  assumes "log_inv wpath F B kv fs" "fs_sound fs" "wal_flush (kv_wal kv) fs = (w, fs', ok)"
  shows "ok \<and> fs_sound fs' \<and> log_inv wpath (F @ B) [] (kv\<lparr>kv_wal := w\<rparr>) fs' \<and> (\<forall>p. p \<noteq> wpath \<longrightarrow> fs_files fs' p = fs_files fs p)"
proof -
  let ?w = "kv_wal kv"
  have w: "wal_open ?w" "wal_pos ?w = length (fs_content fs (wal_path ?w))" "wal_path ?w = wpath"
    using assms(1) by (auto simp: log_inv_def)
  have ok: "ok" "fs_sound fs'" using wal_flush_sound [OF assms(2) w(1,2)] assms(3) by auto
  have "fs_content fs' wpath = fs_content fs wpath @ concat (wal_buffer ?w)"
    "w = ?w\<lparr>wal_pos := length (fs_content fs' wpath), wal_buffer := []\<rparr>" "\<forall>p. p \<noteq> wpath \<longrightarrow> fs_files fs' p = fs_files fs p"
    using wal_flush_appends [OF assms(3) w(1,2)] ok(1) w(3) by auto
  with ok assms(1) show ?thesis by (auto simp: log_inv_def)
qed

lemma wal_flush_inv:
  assumes inv: "kv_inv H tabs fl kv fs" and log: "log_inv wpath F B kv fs" and run: "wal_flush (kv_wal kv) fs = (w, fs', ok)"
  shows "ok \<and> kv_inv H tabs fl (kv\<lparr>kv_wal := w\<rparr>) fs' \<and> log_inv wpath (F @ B) [] (kv\<lparr>kv_wal := w\<rparr>) fs'"
proof -
  have f: ok "fs_sound fs'" "log_inv wpath (F @ B) [] (kv\<lparr>kv_wal := w\<rparr>) fs'" "\<forall>p. p \<noteq> wpath \<longrightarrow> fs_files fs' p = fs_files fs p"
    using wal_flush_log [OF log kv_inv_sound [OF inv] run] by auto
  have "same_private fs fs'" using f(4) log unfolding same_private_def log_inv_def by metis
  then have "kv_inv H tabs fl kv fs'" using kv_inv_frame [OF inv _ f(2)] by blast
  with f(1,3) show ?thesis by simp
qed

lemma kv_write_inv:
  assumes inv: "kv_inv H tabs fl kv fs" and log: "log_inv wpath F B kv fs"
    and v: "key_ok key" "version_ok v" "ver_timestamp v = kv_seq kv + 1" "wal_ok (version_record (key, v))"
    and seq: "unat (kv_seq kv) + 1 < 2 ^ 64"
    and kv': "kv' = kv\<lparr>kv_seq := kv_seq kv + 1,
        kv_wal := (kv_wal kv)\<lparr>wal_buffer := wal_buffer (kv_wal kv) @ [wal_encode (version_record (key, v))]\<rparr>,
        kv_map := m, kv_memtable := mt\<rparr>"
    and m: "distinct (map fst m)" "map_of m = (map_of (kv_map kv))(key := ver_value v)"
    and mt: "mt_entries mt = entries_push key v (mt_entries (kv_memtable kv))"
  shows "kv_inv (H @ [(key, v)]) tabs fl kv' fs" "log_inv wpath F (B @ [(key, v)]) kv' fs"
proof -
  have lt: "kv_seq kv < ver_timestamp v" using less_Suc_u64 [OF seq, of "kv_seq kv"] v(3) by simp
  have h: "holds H ((tabs @ fl) @ [mt_entries (kv_memtable kv)])" "hist_ok H (kv_seq kv)"
    using inv by (simp_all add: kv_inv_def data_inv_def)
  note hp = hist_ok_push [OF h(2) v(1,2) lt]
  from holds_push [OF h(1) hp(2) v(1,2)] hp(1) have "data_inv (H @ [(key, v)]) tabs fl kv'"
    using inv m v(3) by (simp add: kv_inv_def data_inv_def kv' mt latest_snoc)
  then show "kv_inv (H @ [(key, v)]) tabs fl kv' fs"
    using inv by (simp add: kv_inv_def kv' names_inv_def files_inv_def flight_inv_def thread_inv_def flight_paths_def)
  show "log_inv wpath F (B @ [(key, v)]) kv' fs"
    using log v(4) by (auto simp: log_inv_def kv')
qed

text \<open>The tail that \<^verbatim>\<open>put\<close> and \<^verbatim>\<open>del\<close> share: hand over the table, then the group commit.\<close>

definition write_tail :: "kv_store \<Rightarrow> fsys \<Rightarrow> u64 \<Rightarrow> kv_store \<times> fsys \<times> bool" where
  "write_tail kv fs s =
     (let (kv3, ok) = maybe_flush_memtable kv
      in if \<not> ok then (kv3, fs, False)
         else if s mod word_of_int (kv_group kv3) = 0
         then let (w', fs', flushed) = wal_flush (kv_wal kv3) fs in (kv3\<lparr>kv_wal := w'\<rparr>, fs', flushed)
         else (kv3, fs, True))"

lemma maybe_flush_accepted:
  "\<lbrakk>kv_inv H tabs fl kv fs; maybe_flush_memtable kv = (kv', ok); kv_immutable kv = None\<rbrakk> \<Longrightarrow> ok"
  by (auto simp: maybe_flush_memtable_def enqueue_def kv_inv_def thread_inv_def Let_def split: if_splits prod.splits)

lemma write_tail_inv:
  assumes inv: "kv_inv H tabs fl kv fs" and log: "log_inv wpath F B kv fs" and ids: "unat (kv_next_id kv) + 1 < 2 ^ 64"
    and run: "write_tail kv fs s = (kv', fs', ok)"
  shows "\<exists>fl' F' B'. kv_inv H tabs fl' kv' fs' \<and> log_inv wpath F' B' kv' fs' \<and> F' @ B' = F @ B
    \<and> (kv_immutable kv = None \<longrightarrow> s mod word_of_int (kv_group kv) = 0 \<longrightarrow> B' = [])"
proof -
  obtain kv3 ok3 where m: "maybe_flush_memtable kv = (kv3, ok3)" by fastforce
  obtain fl3 where inv3: "kv_inv H tabs fl3 kv3 fs" using maybe_flush_inv(1) [OF inv ids m] by blast
  have log3: "log_inv wpath F B kv3 fs"
    using maybe_flush_inv(2) [OF inv ids m] log by (simp add: log_inv_def)
  obtain w f b where wf: "wal_flush (kv_wal kv3) fs = (w, f, b)" by (metis prod_cases3)
  have fl: "b \<and> kv_inv H tabs fl3 (kv3\<lparr>kv_wal := w\<rparr>) f \<and> log_inv wpath (F @ B) [] (kv3\<lparr>kv_wal := w\<rparr>) f"
    by (rule wal_flush_inv [OF inv3 log3 wf])
  have now: "kv_immutable kv = None \<longrightarrow> ok3" using maybe_flush_accepted [OF inv m] by blast
  consider "kv' = kv3 \<and> fs' = fs \<and> \<not> (ok3 \<and> s mod word_of_int (kv_group kv3) = 0)" | "kv' = kv3\<lparr>kv_wal := w\<rparr> \<and> fs' = f"
    using run m wf by (auto simp: write_tail_def split: if_splits)
  then show ?thesis
  proof cases
    case 1
    then show ?thesis
      using inv3 log3 now maybe_flush_inv(2) [OF inv ids m] by (intro exI [of _ fl3] exI [of _ F] exI [of _ B]) auto
  next
    case 2
    then show ?thesis using fl by (intro exI [of _ fl3] exI [of _ "F @ B"] exI [of _ "[]"]) auto
  qed
qed

lemma kv_put_tail:
  assumes "kv_opened kv" "wal_open (kv_wal kv)"
  shows "kv_put kv fs key val =
    (let v = \<lparr>ver_timestamp = kv_seq kv + 1, ver_value = Some val\<rparr>;
         (kv', fs', _) = write_tail (kv\<lparr>kv_seq := kv_seq kv + 1,
            kv_wal := (kv_wal kv)\<lparr>wal_buffer := wal_buffer (kv_wal kv) @ [wal_encode (version_record (key, v))]\<rparr>,
            kv_map := AList.update key val (kv_map kv),
            kv_memtable := memtable_put key (kv_seq kv + 1) val (kv_memtable kv)\<rparr>)
          fs (kv_seq kv + 1)
     in (kv', fs'))"
  using assms by (simp add: kv_put_def write_tail_def append_put_def write_record_def version_record_def Let_def
      case_prod_beta)

lemma kv_del_tail:
  assumes "kv_opened kv" "wal_open (kv_wal kv)" "map_of (kv_map kv) key = Some x"
  shows "kv_del kv fs key =
    (let v = \<lparr>ver_timestamp = kv_seq kv + 1, ver_value = None\<rparr>
     in write_tail (kv\<lparr>kv_seq := kv_seq kv + 1,
            kv_wal := (kv_wal kv)\<lparr>wal_buffer := wal_buffer (kv_wal kv) @ [wal_encode (version_record (key, v))]\<rparr>,
            kv_memtable := memtable_del key (kv_seq kv + 1) (kv_memtable kv),
            kv_map := AList.delete key (kv_map kv)\<rparr>)
          fs (kv_seq kv + 1))"
  using assms by (simp add: kv_del_def write_tail_def append_del_def write_record_def version_record_def Let_def
      case_prod_beta)

definition kv_limits :: "kv_store \<Rightarrow> bool" where
  "kv_limits kv \<longleftrightarrow> unat (kv_seq kv) + 1 < 2 ^ 64 \<and> unat (kv_next_id kv) + length (kv_paths kv) + 3 < 2 ^ 64"

lemma kv_put_inv:
  assumes inv: "kv_inv H tabs fl kv fs" and log: "log_inv wpath F B kv fs" and lim: "kv_limits kv"
    and ok: "key_ok key" "value_ok val" "length key < 2 ^ 32" "length val < 2 ^ 32"
    and run: "kv_put kv fs key val = (kv', fs')"
  shows "\<exists>fl' F' B'. kv_inv (H @ [(key, \<lparr>ver_timestamp = kv_seq kv + 1, ver_value = Some val\<rparr>)]) tabs fl' kv' fs'
    \<and> log_inv wpath F' B' kv' fs' \<and> F' @ B' = F @ B @ [(key, \<lparr>ver_timestamp = kv_seq kv + 1, ver_value = Some val\<rparr>)]
    \<and> (kv_immutable kv = None \<longrightarrow> (kv_seq kv + 1) mod word_of_int (kv_group kv) = 0 \<longrightarrow> B' = [])"
proof -
  let ?v = "\<lparr>ver_timestamp = kv_seq kv + 1, ver_value = Some val\<rparr>"
  let ?kv = "kv\<lparr>kv_seq := kv_seq kv + 1,
            kv_wal := (kv_wal kv)\<lparr>wal_buffer := wal_buffer (kv_wal kv) @ [wal_encode (version_record (key, ?v))]\<rparr>,
            kv_map := AList.update key val (kv_map kv),
            kv_memtable := memtable_put key (kv_seq kv + 1) val (kv_memtable kv)\<rparr>"
  have "distinct (map fst (kv_map kv))" using inv by (simp add: kv_inv_def data_inv_def)
  then have m: "distinct (map fst (AList.update key val (kv_map kv)))"
      "map_of (AList.update key val (kv_map kv)) = (map_of (kv_map kv))(key := ver_value ?v)"
    by (simp_all add: distinct_update update_conv')
  have v: "version_ok ?v" "ver_timestamp ?v = kv_seq kv + 1" "wal_ok (version_record (key, ?v))"
      "unat (kv_seq kv) + 1 < 2 ^ 64"
      "mt_entries (memtable_put key (kv_seq kv + 1) val (kv_memtable kv)) = entries_push key ?v (mt_entries (kv_memtable kv))"
    using lim ok by (simp_all add: kv_limits_def version_ok_def wal_ok_def version_record_def memtable_put_def)
  note w = kv_write_inv [OF inv log ok(1) v(1-4) refl m v(5)]
  obtain b where t: "write_tail ?kv fs (kv_seq kv + 1) = (kv', fs', b)"
    using run inv log kv_put_tail [of kv fs key val]
    by (auto simp: kv_inv_def thread_inv_def log_inv_def Let_def split: prod.splits)
  have "unat (kv_next_id ?kv) + 1 < 2 ^ 64" using lim by (simp add: kv_limits_def)
  from write_tail_inv [OF w this t] show ?thesis by auto
qed

lemma kv_del_inv:
  assumes inv: "kv_inv H tabs fl kv fs" and log: "log_inv wpath F B kv fs" and lim: "kv_limits kv"
    and ok: "map_of (kv_map kv) key \<noteq> None" "length key < 2 ^ 32"
    and run: "kv_del kv fs key = (kv', fs', b)"
  shows "\<exists>fl' F' B'. kv_inv (H @ [(key, \<lparr>ver_timestamp = kv_seq kv + 1, ver_value = None\<rparr>)]) tabs fl' kv' fs'
    \<and> log_inv wpath F' B' kv' fs' \<and> F' @ B' = F @ B @ [(key, \<lparr>ver_timestamp = kv_seq kv + 1, ver_value = None\<rparr>)]"
proof -
  let ?v = "\<lparr>ver_timestamp = kv_seq kv + 1, ver_value = None\<rparr>"
  let ?kv = "kv\<lparr>kv_seq := kv_seq kv + 1,
            kv_wal := (kv_wal kv)\<lparr>wal_buffer := wal_buffer (kv_wal kv) @ [wal_encode (version_record (key, ?v))]\<rparr>,
            kv_memtable := memtable_del key (kv_seq kv + 1) (kv_memtable kv),
            kv_map := AList.delete key (kv_map kv)\<rparr>"
  have d: "distinct (map fst (kv_map kv))" "hist_ok H (kv_seq kv)" "latest H key \<noteq> None"
    using inv ok(1) by (auto simp: kv_inv_def data_inv_def)
  then have "hist_of H key \<noteq> []" by (auto simp: latest_def)
  then obtain u where "u \<in> set (hist_of H key)" by fastforce
  then have "key_ok key" using d(2) by (auto simp: hist_ok_def set_hist_of)
  moreover have m: "distinct (map fst (AList.delete key (kv_map kv)))"
      "map_of (AList.delete key (kv_map kv)) = (map_of (kv_map kv))(key := ver_value ?v)"
    using d(1) by (simp_all add: distinct_delete delete_conv')
  moreover have v: "version_ok ?v" "ver_timestamp ?v = kv_seq kv + 1" "wal_ok (version_record (key, ?v))"
      "unat (kv_seq kv) + 1 < 2 ^ 64"
      "mt_entries (memtable_del key (kv_seq kv + 1) (kv_memtable kv)) = entries_push key ?v (mt_entries (kv_memtable kv))"
    using lim ok by (simp_all add: kv_limits_def version_ok_def wal_ok_def version_record_def memtable_del_def)
  ultimately have w: "kv_inv (H @ [(key, ?v)]) tabs fl ?kv fs" "log_inv wpath F (B @ [(key, ?v)]) ?kv fs"
    using kv_write_inv [OF inv log _ v(1-4) _ m v(5), of ?kv] by simp_all
  have t: "write_tail ?kv fs (kv_seq kv + 1) = (kv', fs', b)"
    using run inv log ok(1) kv_del_tail [of kv key _ fs]
    by (auto simp: kv_inv_def thread_inv_def log_inv_def)
  have "unat (kv_next_id ?kv) + 1 < 2 ^ 64" using lim by (simp add: kv_limits_def)
  from write_tail_inv [OF w this t] show ?thesis by auto
qed

section \<open>The flush thread\<close>

lemma worker_step_flags:
  assumes "worker_step fw fs = (fw', fs')"
  shows "fw_started fw' = fw_started fw" "fw_stopping fw' = fw_stopping fw"
    "\<not> fw_stopping fw \<Longrightarrow> fw_pc fw \<noteq> WExit \<Longrightarrow> fw_pc fw' \<noteq> WExit"
  using assms by (cases "fw_pc fw"; auto simp: worker_step_def split: list.splits prod.splits if_splits)+

lemma log_inv_frame:
  assumes "log_inv wpath F B kv fs" "\<forall>p. \<not> private_path p \<longrightarrow> fs_files fs' p = fs_files fs p" "kv_wal kv' = kv_wal kv"
  shows "log_inv wpath F B kv' fs'"
  using assms not_private_snapshot by (simp add: log_inv_def fs_content_def)

lemma worker_step_inv:
  assumes inv: "kv_inv H tabs fl kv fs" and run: "worker_step (kv_worker kv) fs = (fw, fs')"
  shows "kv_inv H tabs fl (kv\<lparr>kv_worker := fw\<rparr>) fs'"
    "\<forall>p. \<not> private_path p \<longrightarrow> fs_files fs' p = fs_files fs p"
proof -
  let ?w = "kv_worker kv" and ?kv = "kv\<lparr>kv_worker := fw\<rparr>"
  have ok: "worker_ok manifest_file ?w fs" using inv by (simp add: kv_inv_def thread_inv_def)
  note st = worker_step_ok [OF ok run]
  have names: "names_inv kv" using inv by (simp add: kv_inv_def)
  have keep: "fs_files fs' p = fs_files fs p" if "p \<noteq> manifest_file" "p \<notin> ft_sstable_path ` set (in_work ?w)" for p
    using st that by blast
  have paths: "fs_files fs' p = fs_files fs p" if "p \<in> set (kv_paths kv)" for p
  proof (rule keep)
    show "p \<noteq> manifest_file" using that names store_path_ok(2) [of p] by (auto simp: names_inv_def)
    show "p \<notin> ft_sstable_path ` set (in_work ?w)" using that names by (auto simp: names_inv_def flight_paths_def)
  qed
  show "\<forall>p. \<not> private_path p \<longrightarrow> fs_files fs' p = fs_files fs p"
  proof (intro allI impI keep)
    fix p assume "\<not> private_path p"
    then show "p \<noteq> manifest_file" "p \<notin> ft_sstable_path ` set (in_work ?w)"
      using names private_store_path by (auto simp: names_inv_def flight_paths_def)
  qed
  have "thread_inv ?kv fs'"
    using inv st worker_step_flags [OF run] by (simp add: kv_inv_def thread_inv_def)
  moreover have "files_inv tabs ?kv fs'"
    using inv paths by (auto simp: kv_inv_def files_inv_def list_all2_conv_all_nth)
  moreover have "flight_inv fl ?kv fs' \<and> flight_paths ?kv = flight_paths kv"
  proof -
    have "flight_inv fl kv fs" using inv by (simp add: kv_inv_def)
    then consider (none) "in_work ?w = []" | (work) t where "in_work ?w = [t]" "fw_completions ?w = []" "kv_immutable kv = Some []"
        "fl = [ft_entries t]" "load_sstables fs manifest_file = kv_paths kv
           \<or> load_sstables fs manifest_file = kv_paths kv @ [ft_sstable_path t]
             \<and> fs_files fs (ft_sstable_path t) = Some (sst_format (ft_entries t))"
      by (auto simp: flight_inv_def)
    then show ?thesis
    proof cases
      case none
      with st inv show ?thesis by (auto simp: kv_inv_def flight_inv_def flight_paths_def)
    next
      case (work t)
      have "ft_sstable_path t \<notin> set (kv_paths kv)" using names work(1) by (auto simp: names_inv_def flight_paths_def)
      moreover have "ft_manifest_path t = manifest_file" using ok work(1) by (simp add: worker_ok_def task_ok_def)
      ultimately show ?thesis using st work by (auto simp: flight_inv_def flight_paths_def task_done_def)
    qed
  qed
  moreover from this have "names_inv ?kv"
    using names by (simp add: names_inv_def)
  ultimately show "kv_inv H tabs fl ?kv fs'"
    using inv by (simp add: kv_inv_def data_inv_def)
qed

section \<open>Compaction\<close>

text \<open>The part of the invariant that concerns the tables when nothing is in flight.\<close>

definition tables_inv :: "history \<Rightarrow> entries list \<Rightarrow> kv_store \<Rightarrow> fsys \<Rightarrow> bool" where
  "tables_inv H tabs kv fs \<longleftrightarrow> data_inv H tabs [] kv \<and> files_inv tabs kv fs \<and> distinct (kv_paths kv)
     \<and> (\<forall>p\<in>set (kv_paths kv). store_path p) \<and> kv_manifest kv = manifest_file \<and> fs_sound fs
     \<and> manifest_lists fs manifest_file (kv_paths kv)"

text \<open>Files written by one compaction with no failure.\<close>

lemma compaction_files:
  assumes "std_sort srt" "tables_inv H (a # b # tabs) kv fs" "kv_paths kv = pa # pb # ps"
    and "store_path out" "out \<notin> set (kv_paths kv)"
  shows "\<exists>fs1 fs2. compact srt fs [pa, pb] (out @ ''.tmp'') = (fs1, True)
     \<and> fs_rename fs1 (out @ ''.tmp'') out = (fs2, True) \<and> fs_sound fs2
     \<and> fs_files fs2 out = Some (sst_format (merge_tables srt [a, b]))
     \<and> (\<forall>p. p \<noteq> out \<longrightarrow> p \<noteq> out @ ''.tmp'' \<longrightarrow> fs_files fs2 p = fs_files fs p)"
proof -
  have sound: "fs_sound fs" using assms(2) by (simp add: tables_inv_def)
  have files: "list_all2 (\<lambda>p es. table_ok es \<and> fs_files fs p = Some (sst_format es)) [pa, pb] [a, b]"
    using assms(2,3) by (simp add: tables_inv_def files_inv_def data_inv_def holds_def)
  let ?tmp = "out @ ''.tmp''" and ?m = "sst_format (merge_tables srt [a, b])"
  let ?fs1 = "fs\<lparr>fs_files := (fs_files fs)(?tmp \<mapsto> ?m)\<rparr>"
  have c: "compact srt fs [pa, pb] ?tmp = (?fs1, True)"
    using std_sort.compact_written [OF assms(1) _ files, of ?tmp] by (simp add: sst_write_def fs_sound_write [OF sound])
  have "fs_rename ?fs1 ?tmp out = (?fs1\<lparr>fs_files := ((fs_files ?fs1)(?tmp := None))(out \<mapsto> ?m)\<rparr>, True)"
    using sound by (intro fs_sound_rename) simp_all
  with c sound show ?thesis by auto
qed

lemma maybe_compact_ok:
  assumes srt: "std_sort srt" and inv: "tables_inv H tabs kv fs"
    and ids: "unat (kv_next_id kv) + length (kv_paths kv) + 2 < 2 ^ 64"
    and run: "maybe_compact_sstables srt kv fs = (kv', fs', ok)"
  shows "ok \<and> (\<exists>tabs' ps nx. tables_inv H tabs' kv' fs' \<and> kv' = kv\<lparr>kv_next_id := nx, kv_paths := ps\<rparr>
     \<and> kv_next_id kv \<le> nx \<and> (\<forall>i. flush_path i \<in> set ps \<longrightarrow> flush_path i \<in> set (kv_paths kv)))
     \<and> (\<forall>p. \<not> private_path p \<longrightarrow> fs_files fs' p = fs_files fs p)"
proof (cases "length (kv_paths kv) < kCompactionTrigger")
  case True
  with run have eq: "kv' = kv" "fs' = fs" ok by (auto simp: maybe_compact_sstables_def)
  with inv show ?thesis
    by (auto intro!: exI [of _ tabs] exI [of _ "kv_paths kv"] exI [of _ "kv_next_id kv"])
next
  case False
  then obtain pa pb ps where paths: "kv_paths kv = pa # pb # ps"
    by (cases "kv_paths kv"; cases "tl (kv_paths kv)") (auto simp: kCompactionTrigger_def)
  with inv have neq: "pa \<noteq> pb" "pa \<notin> set ps" "pb \<notin> set ps" and store: "store_path pa" "store_path pb" "\<forall>p\<in>set ps. store_path p"
    by (auto simp: tables_inv_def)
  obtain a b rest where tabs: "tabs = a # b # rest"
    using inv paths by (auto simp: tables_inv_def files_inv_def list_all2_Cons1)
  obtain out nx where fo: "fresh_output (Suc (length (kv_paths kv))) (kv_next_id kv) (kv_paths kv) = Some (out, nx)"
    using fresh_output_found [of "kv_paths kv" "kv_next_id kv"] ids by auto
  obtain j where j: "j < Suc (length (kv_paths kv))" "out = compact_path (kv_next_id kv + word_of_nat j)"
    "nx = kv_next_id kv + word_of_nat j + 1" "out \<notin> set (kv_paths kv)"
    using fresh_output_Some [OF fo] by blast
  have so: "store_path out" using j(2) by (auto simp: store_path_def)
  have nx: "kv_next_id kv \<le> nx"
  proof -
    have "nx = kv_next_id kv + word_of_nat (j + 1)" by (simp add: j(3) add.assoc)
    then show ?thesis using unat_add_u64 [of "kv_next_id kv" "j + 1"] ids j(1) by (simp add: word_le_nat_alt)
  qed
  obtain fs1 fs2 where c: "compact srt fs [pa, pb] (out @ ''.tmp'') = (fs1, True)"
    "fs_rename fs1 (out @ ''.tmp'') out = (fs2, True)" "fs_sound fs2"
    "fs_files fs2 out = Some (sst_format (merge_tables srt [a, b]))"
    "\<forall>p. p \<noteq> out \<longrightarrow> p \<noteq> out @ ''.tmp'' \<longrightarrow> fs_files fs2 p = fs_files fs p"
    using compaction_files [OF srt inv [unfolded tabs] paths so j(4)] by blast
  obtain fs3 where r: "replace_sstables fs2 manifest_file (out # ps) = (fs3, True)" "fs_sound fs3"
    using replace_sound [OF c(3), of manifest_file "out # ps"] by (auto simp: manifest_file_def)
  let ?fs = "fs_remove (fs_remove fs3 pa) pb"
  let ?kv = "kv\<lparr>kv_next_id := nx, kv_paths := out # ps\<rparr>"
  have run': "kv' = ?kv" "fs' = ?fs" ok
    using run False neq(1) paths fo c(1,2) r(1) inv by (auto simp: maybe_compact_sstables_def tables_inv_def Let_def)
  have keep: "fs_files ?fs p = fs_files fs p"
    if "p \<noteq> out" "p \<noteq> out @ ''.tmp''" "p \<noteq> manifest_file" "p \<noteq> manifest_file @ ''.tmp''" "p \<noteq> pa" "p \<noteq> pb" for p
    using that c(5) replace_frame [OF r(1)] by (simp add: fs_remove_def)
  have "fs_files ?fs out = Some (sst_format (merge_tables srt [a, b]))"
    using c(4) replace_frame [OF r(1), of out] store_path_ok [OF so] j(4) paths by (auto simp: fs_remove_def)
  moreover have "fs_files ?fs p = fs_files fs p" if "p \<in> set ps" for p
    using that store(3) store_path_ok [of p] so j(4) paths neq by (intro keep) auto
  ultimately have "files_inv (merge_tables srt [a, b] # rest) ?kv ?fs"
    using inv paths tabs by (auto simp: tables_inv_def files_inv_def elim!: list.rel_mono_strong)
  moreover have "manifest_lists ?fs manifest_file (out # ps)"
  proof -
    have "fs_files fs2 manifest_file = fs_files fs manifest_file"
      using c(5) store_path_ok(2) [OF so] by simp
    then have "manifest_lists fs2 manifest_file (kv_paths kv)"
      using inv by (simp add: tables_inv_def manifest_lists_def fs_content_def)
    from replace_listed [OF this _ r(1)] have "manifest_lists fs3 manifest_file (out # ps)"
      using store(3) so store_path_ok(1) by simp
    then show ?thesis
      using store_path_ok(2) [OF store(1)] store_path_ok(2) [OF store(2)]
      by (simp add: manifest_lists_def fs_content_def fs_remove_def)
  qed
  moreover have "data_inv H (merge_tables srt [a, b] # rest) [] ?kv"
    using inv tabs holds_merge [OF srt, of H a b "rest @ [mt_entries (kv_memtable kv)]"]
    by (simp add: tables_inv_def data_inv_def)
  ultimately have "tables_inv H (merge_tables srt [a, b] # rest) ?kv ?fs"
    using inv paths j(4) so store(3) r(2) by (auto simp: tables_inv_def fs_remove_def)
  moreover have "fs_files ?fs p = fs_files fs p" if "\<not> private_path p" for p
    using that private_store_path [OF so] private_store_path [OF store(1)] private_store_path [OF store(2)]
    by (intro keep) auto
  ultimately show ?thesis
    using run' nx paths j(2) flush_compact_path
    by (auto intro!: exI [of _ "merge_tables srt [a, b] # rest"] exI [of _ "out # ps"] exI [of _ nx])
qed

section \<open>Collecting finished flushes\<close>

lemma drain_loop_none: "fw_completions (kv_worker kv) = [] \<Longrightarrow> drain_loop kv b = (kv, b)"
  by (subst drain_loop.simps) (simp add: poll_completion_def)

lemma drain_loop_one:
  assumes "fw_completions (kv_worker kv) = [p]" "p \<notin> set (kv_paths kv)"
  shows "drain_loop kv b =
    (kv\<lparr>kv_worker := (kv_worker kv)\<lparr>fw_completions := []\<rparr>, kv_immutable := None, kv_paths := kv_paths kv @ [p]\<rparr>, True)"
  using assms by (subst drain_loop.simps) (simp add: poll_completion_def drain_loop_none)

lemma thread_idle:
  "\<lbrakk>thread_inv kv fs; in_work (kv_worker kv) = []\<rbrakk> \<Longrightarrow> fw_pc (kv_worker kv) = WWait"
  by (cases "fw_pc (kv_worker kv)") (auto simp: thread_inv_def worker_ok_def in_work_def)

lemma tables_to_kv_inv:
  assumes "tables_inv H tabs kv fs" "thread_inv kv0 fs0" "in_work (kv_worker kv) = []" "fw_completions (kv_worker kv) = []"
    "kv_worker kv = (kv_worker kv0)\<lparr>fw_completions := []\<rparr>" "kv_opened kv" "kv_immutable kv = None"
    "kv_manifest_path kv = manifest_file" "\<forall>i. flush_path i \<in> set (kv_paths kv) \<longrightarrow> i < kv_next_id kv"
  shows "kv_inv H tabs [] kv fs"
proof -
  have "in_work (kv_worker kv0) = []" using assms(3,5) by (simp add: in_work_def)
  then have pc: "fw_pc (kv_worker kv) = WWait" using thread_idle [OF assms(2)] assms(5) by simp
  then have "thread_inv kv fs"
    using assms by (auto simp: thread_inv_def worker_ok_def tables_inv_def)
  moreover have "flight_inv [] kv fs"
    using assms load_listed by (auto simp: flight_inv_def tables_inv_def)
  ultimately show ?thesis
    using assms by (auto simp: kv_inv_def tables_inv_def names_inv_def flight_paths_def)
qed

lemma drain_inv:
  assumes srt: "std_sort srt" and inv: "kv_inv H tabs fl kv fs" and lim: "kv_limits kv"
    and run: "drain_completed_flushes srt kv fs = (kv1, fs1)"
  shows "\<exists>tabs1 fl1. kv_inv H tabs1 fl1 kv1 fs1 \<and> (in_work (kv_worker kv) = [] \<longrightarrow> fl1 = [])"
    "kv_wal kv1 = kv_wal kv \<and> (\<forall>p. \<not> private_path p \<longrightarrow> fs_files fs1 p = fs_files fs p)"
proof -
  have "flight_inv fl kv fs" using inv by (simp add: kv_inv_def)
  then consider (none) "fw_completions (kv_worker kv) = []" "in_work (kv_worker kv) = [] \<longrightarrow> fl = []"
    | (one) p es where "in_work (kv_worker kv) = []" "fw_completions (kv_worker kv) = [p]"
        "fl = [es]" "fs_files fs p = Some (sst_format es)" "load_sstables fs manifest_file = kv_paths kv @ [p]"
    by (auto simp: flight_inv_def)
  then have "(\<exists>tabs1 fl1. kv_inv H tabs1 fl1 kv1 fs1 \<and> (in_work (kv_worker kv) = [] \<longrightarrow> fl1 = []))
    \<and> kv_wal kv1 = kv_wal kv \<and> (\<forall>p. \<not> private_path p \<longrightarrow> fs_files fs1 p = fs_files fs p)"
  proof cases
    case none
    with run have "kv1 = kv" "fs1 = fs" by (auto simp: drain_completed_flushes_def drain_loop_none)
    with none inv show ?thesis by blast
  next
    case (one p es)
    let ?kv = "kv\<lparr>kv_worker := (kv_worker kv)\<lparr>fw_completions := []\<rparr>, kv_immutable := None, kv_paths := kv_paths kv @ [p]\<rparr>"
    have names: "names_inv kv" and th: "thread_inv kv fs" using inv by (simp_all add: kv_inv_def)
    have p: "p \<notin> set (kv_paths kv)" "store_path p" using names one(1,2) by (auto simp: names_inv_def flight_paths_def)
    obtain ok where c: "maybe_compact_sstables srt ?kv fs = (kv1, fs1, ok)"
      using run drain_loop_one [OF one(2) p(1), of False]
      by (auto simp: drain_completed_flushes_def split: prod.splits)
    obtain ps where ml: "manifest_lists fs manifest_file ps" using th by (auto simp: thread_inv_def worker_ok_def)
    then have "ps = kv_paths kv @ [p]" using one(5) load_listed by simp
    then have "tables_inv H (tabs @ [es]) ?kv fs"
      using inv one p names ml kv_inv_sound [OF inv]
      by (auto simp: tables_inv_def kv_inv_def data_inv_def files_inv_def names_inv_def intro!: list_all2_appendI)
    from maybe_compact_ok [OF srt this _ c] lim obtain tabs' qs nx where m: "tables_inv H tabs' kv1 fs1"
      "kv1 = ?kv\<lparr>kv_next_id := nx, kv_paths := qs\<rparr>" "kv_next_id kv \<le> nx"
      "\<forall>i. flush_path i \<in> set qs \<longrightarrow> flush_path i \<in> set (kv_paths kv @ [p])"
      "\<forall>p. \<not> private_path p \<longrightarrow> fs_files fs1 p = fs_files fs p"
      by (auto simp: kv_limits_def)
    have "i < nx" if "flush_path i \<in> set qs" for i
    proof -
      have "flush_path i \<in> set (kv_paths kv @ flight_paths kv)"
        using that m(4) one(1,2) by (auto simp: flight_paths_def)
      then have "i < kv_next_id kv" using names unfolding names_inv_def by blast
      then show ?thesis using m(3) by (rule less_le_trans)
    qed
    then have "kv_inv H tabs' [] kv1 fs1"
      using th names one(1) by (intro tables_to_kv_inv [OF m(1), of kv fs])
        (auto simp: m(2) in_work_def thread_inv_def names_inv_def)
    then show ?thesis using m(2,5) by auto
  qed
  then show "\<exists>tabs1 fl1. kv_inv H tabs1 fl1 kv1 fs1 \<and> (in_work (kv_worker kv) = [] \<longrightarrow> fl1 = [])"
    "kv_wal kv1 = kv_wal kv \<and> (\<forall>p. \<not> private_path p \<longrightarrow> fs_files fs1 p = fs_files fs p)" by auto
qed

section \<open>Reads\<close>

lemma result_of_cases:
  "(if lr_state (result_of r) = Value then lr_value (result_of r)
    else if lr_state (result_of r) = Tombstone then None else x)
   = (case r of None \<Rightarrow> x | Some v \<Rightarrow> ver_value v)"
  by (auto simp: result_of_def not_found_def tombstone_def found_value_def split: option.splits)

lemma lookup_paths_levels:
  "list_all2 (\<lambda>p es. table_ok es \<and> fs_files fs p = Some (sst_format es)) ps tabs \<Longrightarrow>
   lookup_paths fs ps key t = value_of (search_levels (map (\<lambda>es. vers es key) tabs) t)"
proof (induction ps tabs rule: list_all2_induct)
  case (Cons p ps es tabs)
  have "reader_get_at (reader_new fs p 4 8192 4) key t = result_of (visible (vers es key) t)"
    using Cons(1) by (intro reader_get_at_written) simp_all
  then show ?case
    using Cons.IH by (simp add: Let_def result_of_cases value_of_def split: option.splits)
qed (simp add: value_of_def)

lemma kv_get_at_value:
  assumes data: "data_inv H tabs [] kv1" and files: "files_inv tabs kv1 fs1" and im: "kv_immutable kv1 = None"
    and drain: "drain_completed_flushes srt kv fs = (kv1, fs1)"
  shows "kv_get_at srt kv fs key t = (kv1, fs1, value_at H key t)"
proof -
  let ?mem = "mt_entries (kv_memtable kv1)"
  have ok: "\<forall>es\<in>set tabs. table_ok es" and h: "holds H (tabs @ [?mem])" "hist_ok H (kv_seq kv1)"
    using data by (auto simp: data_inv_def holds_def)
  have "list_all2 (\<lambda>p es. table_ok es \<and> fs_files fs1 p = Some (sst_format es)) (rev (kv_paths kv1)) (rev tabs)"
    using files ok by (auto simp: files_inv_def list_all2_rev elim!: list.rel_mono_strong)
  note lp = lookup_paths_levels [OF this, of key t]
  from im have "kv_get_at srt kv fs key t = (kv1, fs1,
      value_of (search_levels (rev (map (\<lambda>es. vers es key) (tabs @ [?mem]))) t))"
    by (simp add: kv_get_at_def drain memtable_get_at_visible result_of_cases rev_map)
      (simp add: lp value_of_def split: option.splits)
  then show ?thesis using holds_search [OF h] by simp
qed

end
