(* ===== verification/Kv_Open.thy ===== *)
theory Kv_Open
  imports Kv_Operations
begin

text \<open>
  Opening a store on the files an earlier process left: the log is replayed into the map and the active
  table, the manifest gives the on-disk tables.  A crash is the loss of the store object; the file system
  stays as it is.
\<close>

section \<open>Replaying a history\<close>

lemma restore_fields [simp]:
  "kv_immutable (restore op kv) = kv_immutable kv" "kv_paths (restore op kv) = kv_paths kv"
  "kv_worker (restore op kv) = kv_worker kv" "kv_next_id (restore op kv) = kv_next_id kv"
  "kv_manifest (restore op kv) = kv_manifest kv" "kv_manifest_path (restore op kv) = kv_manifest_path kv"
  "kv_wal (restore op kv) = kv_wal kv" "kv_seq (restore op kv) = kv_seq kv" "kv_group (restore op kv) = kv_group kv"
  "kv_opened (restore op kv) = kv_opened kv"
  by (cases op; simp add: restore_def split: option.splits)+

lemma restore_effect:
  "mt_entries (kv_memtable (restore (k, v) kv)) = entries_push k v (mt_entries (kv_memtable kv))"
  "map_of (kv_map (restore (k, v) kv)) = (map_of (kv_map kv))(k := ver_value v)"
  "distinct (map fst (kv_map kv)) \<Longrightarrow> distinct (map fst (kv_map (restore (k, v) kv)))"
  by (cases v; auto simp: restore_def memtable_put_def memtable_del_def update_conv' delete_conv' distinct_update
      distinct_delete split: option.splits)+

lemma fold_restore_fields [simp]:
  "kv_immutable (fold restore ops kv) = kv_immutable kv" "kv_paths (fold restore ops kv) = kv_paths kv"
  "kv_worker (fold restore ops kv) = kv_worker kv" "kv_next_id (fold restore ops kv) = kv_next_id kv"
  "kv_manifest (fold restore ops kv) = kv_manifest kv" "kv_manifest_path (fold restore ops kv) = kv_manifest_path kv"
  "kv_wal (fold restore ops kv) = kv_wal kv" "kv_seq (fold restore ops kv) = kv_seq kv"
  "kv_group (fold restore ops kv) = kv_group kv" "kv_opened (fold restore ops kv) = kv_opened kv"
  by (induction ops arbitrary: kv) simp_all

lemma fold_restore_map:
  assumes "kv_map kv = []"
  shows "map_of (kv_map (fold restore H kv)) = latest H \<and> distinct (map fst (kv_map (fold restore H kv)))"
proof (induction H rule: rev_induct)
  case Nil
  then show ?case using assms by (simp add: latest_def hist_of_def fun_eq_iff)
next
  case (snoc op H)
  obtain k v where op: "op = (k, v)" by fastforce
  show ?case using snoc by (auto simp: op restore_effect latest_snoc fun_eq_iff)
qed

lemma fold_restore_holds:
  assumes "mt_entries (kv_memtable kv) = []" "hist_ok H seq"
  shows "holds H [mt_entries (kv_memtable (fold restore H kv))]"
  using assms(2)
proof (induction H rule: rev_induct)
  case Nil
  then show ?case using assms(1) by (simp add: holds_def layered_def)
next
  case (snoc op H)
  obtain k v where op: "op = (k, v)" by fastforce
  have "hist_ok H seq" "\<forall>(k', u)\<in>set H. ver_timestamp u < ver_timestamp v" "key_ok k" "version_ok v"
    using snoc.prems by (auto simp: op hist_ok_def sorted_wrt_append)
  with snoc.IH show ?case using holds_push [of H "[]"] by (auto simp: op restore_effect)
qed

lemma fold_max_seq:
  "(\<forall>r\<in>set rs. wr_seq r \<le> fold (\<lambda>r m. max m (wr_seq r)) rs m) \<and> m \<le> fold (\<lambda>r m. max m (wr_seq r)) rs m"
proof (induction rs arbitrary: m)
  case (Cons r rs)
  from Cons [of "max m (wr_seq r)"] show ?case by auto
qed simp

lemma fold_max_in: "fold (\<lambda>r m. max m (wr_seq r)) rs m \<in> insert m (wr_seq ` set rs)"
proof (induction rs arbitrary: m)
  case (Cons r rs)
  from Cons [of "max m (wr_seq r)"] show ?case by (auto simp: max_def)
qed simp

text \<open>The largest timestamp of a history, 0 for the empty one.\<close>

definition last_seq :: "history \<Rightarrow> u64" where
  "last_seq H = fold (\<lambda>r m. max m (wr_seq r)) (map version_record H) 0"

lemma wr_seq_version_record [simp]: "wr_seq (version_record (k, v)) = ver_timestamp v"
  by (simp add: version_record_def)

lemma hist_ok_last_seq: "hist_ok H seq \<Longrightarrow> hist_ok H (last_seq H)"
  using fold_max_seq [of "map version_record H" 0] by (auto simp: hist_ok_def last_seq_def)

lemma fold_restore_vers:
  assumes "mt_entries (kv_memtable kv) = []"
  shows "vers (mt_entries (kv_memtable (fold restore H kv))) k = hist_of H k
    \<and> sorted_keys (mt_entries (kv_memtable (fold restore H kv)))"
proof (induction H rule: rev_induct)
  case Nil
  then show ?case using assms by (simp add: hist_of_def)
next
  case (snoc op H)
  obtain k' v where op: "op = (k', v)" by fastforce
  show ?case using snoc by (simp add: op restore_effect vers_push sorted_keys_push hist_of_snoc)
qed

section \<open>Snapshot files\<close>

text \<open>A line of a snapshot is read back exactly.\<close>

lemma parse_snapshot_row:
  assumes "row_ok (k, v)"
  shows "parse_snapshot_line (row_line (k, v)) = Some (k, v)"
proof -
  let ?d = "show_nat (unat (ver_timestamp v))"
  let ?tail = "case ver_value v of Some s \<Rightarrow> ''P'' @ [TAB] @ s | None \<Rightarrow> ''D''"
  let ?line = "k @ TAB # ?d @ TAB # ?tail"
  have line: "row_line (k, v) = ?line" by (simp add: row_line_def sst_line_def)
  have "TAB \<notin> set k" using assms key_ok_no_sep by (simp add: row_ok_def)
  then have 1: "find_char ?line TAB = Some (length k)" by (simp add: find_char_append)
  have 2: "find_from ?line TAB (length k + 1) = Some (length k + 1 + length ?d)"
    by (simp add: find_from_def find_char_append)
  obtain t a where v: "v = \<lparr>ver_timestamp = t, ver_value = a\<rparr>" by (cases v) simp
  show ?thesis
  proof (cases a)
    case None
    have 3: "find_from ?line TAB (length k + 1 + length ?d + 1) = None" by (simp add: find_from_def v None)
    show ?thesis unfolding line parse_snapshot_line_def 1 2 option.case Let_def 3
      by (simp add: substr_def v None stoull_show_nat)
  next
    case (Some s)
    have 3: "find_from ?line TAB (length k + 1 + length ?d + 1) = Some (length k + 1 + length ?d + 1 + 1)"
      by (simp add: find_from_def v Some)
    show ?thesis unfolding line parse_snapshot_line_def 1 2 option.case Let_def 3
      by (simp add: substr_def v Some stoull_show_nat eval_nat_numeral)
  qed
qed

lemma restore_seq_comm: "restore op (kv\<lparr>kv_seq := x\<rparr>) = (restore op kv)\<lparr>kv_seq := x\<rparr>"
  by (cases op) (auto simp: restore_def split: option.splits)

lemma fold_restore_seq_comm: "fold restore ops (kv\<lparr>kv_seq := x\<rparr>) = (fold restore ops kv)\<lparr>kv_seq := x\<rparr>"
  by (induction ops arbitrary: kv) (simp_all add: restore_seq_comm)

lemma load_lines_rows:
  "\<forall>r\<in>set rs. row_ok r \<Longrightarrow> load_lines (map row_line rs) kv =
    ((fold restore rs kv)\<lparr>kv_seq := fold (\<lambda>(k, v) m. max m (ver_timestamp v)) rs (kv_seq kv)\<rparr>, True)"
proof (induction rs arbitrary: kv)
  case (Cons r rs)
  obtain k v where r: "r = (k, v)" by fastforce
  have p: "parse_snapshot_line (row_line (k, v)) = Some (k, v)"
    using Cons.prems r by (intro parse_snapshot_row) simp
  from Cons.IH Cons.prems show ?case
    by (simp add: r p fold_restore_seq_comm)
qed simp

lemma load_table:
  assumes "fs_files fs path = Some (text_of (rows_of es))" "table_ok es"
  shows "load_from_file kv fs path = ((fold restore (rows_of es) (kv\<lparr>kv_map := [], kv_memtable := memtable_clear (kv_memtable kv)\<rparr>))
    \<lparr>kv_seq := fold (\<lambda>(k, v) m. max m (ver_timestamp v)) (rows_of es) (kv_seq kv)\<rparr>, True)"
  using assms(1) table_ok_rows [OF assms(2)] by (simp add: load_from_file_def getlines_text load_lines_rows)

lemma fold_max_ts:
  "(\<forall>(k, v)\<in>set ops. ver_timestamp v \<le> fold (\<lambda>(k, v) m. max m (ver_timestamp v)) ops m)
   \<and> m \<le> fold (\<lambda>(k, v) m. max m (ver_timestamp v)) ops m"
proof (induction ops arbitrary: m)
  case (Cons op ops)
  obtain k v where op: "op = (k, v)" by fastforce
  from Cons [of "max m (ver_timestamp v)"] show ?case by (auto simp: op)
qed simp

lemma load_lines_fields:
  "load_lines ls kv = (kv', b) \<Longrightarrow> kv_wal kv' = kv_wal kv \<and> kv_opened kv' = kv_opened kv \<and> kv_worker kv' = kv_worker kv
     \<and> kv_manifest_path kv' = kv_manifest_path kv \<and> kv_immutable kv' = kv_immutable kv"
proof (induction ls arbitrary: kv)
  case (Cons l ls)
  then show ?case by (auto split: if_splits option.splits dest!: Cons.IH)
qed simp

lemma load_from_file_fields:
  "load_from_file kv fs path = (kv', b) \<Longrightarrow> kv_wal kv' = kv_wal kv \<and> kv_opened kv' = kv_opened kv
     \<and> kv_worker kv' = kv_worker kv \<and> kv_manifest_path kv' = kv_manifest_path kv \<and> kv_immutable kv' = kv_immutable kv"
  by (auto simp: load_from_file_def split: option.splits dest!: load_lines_fields)

section \<open>Opening after a crash\<close>

lemma wal_reopen:
  assumes "fs_sound fs"
  shows "\<exists>fs1. wal_open_file wal_init fs wpath = (wal_init\<lparr>wal_path := wpath, wal_open := True,
       wal_pos := length (fs_content fs wpath)\<rparr>, fs1, True) \<and> fs_sound fs1 \<and> fs_content fs1 = fs_content fs
     \<and> (\<forall>p. p \<noteq> wpath \<longrightarrow> fs_files fs1 p = fs_files fs p)"
  using assms by (cases "fs_files fs wpath")
    (auto simp: wal_open_file_def fs_sound_def wal_init_def fs_content_def fun_eq_iff Let_def)

lemma replay_history:
  assumes "wal_open w" "fs_content fs (wal_path w) = concat (map (wal_encode \<circ> version_record) F)"
    "\<forall>op\<in>set F. wal_ok (version_record op)"
  shows "\<exists>w'. replay_into (restore \<circ> record_version) w fs kv = (w', fold restore F kv, last_seq F, True)
    \<and> wal_open w' \<and> wal_path w' = wal_path w \<and> wal_buffer w' = wal_buffer w
    \<and> wal_pos w' = length (fs_content fs (wal_path w))"
proof -
  have f: "fold (restore \<circ> record_version) (map version_record F) kv = fold restore F kv"
    by (simp add: fold_map o_def)
  show ?thesis
    using replay_into_append [of w "map version_record F" fs "[]" "restore \<circ> record_version" kv] assms
    by (simp add: f last_seq_def)
qed

text \<open>What \<^verbatim>\<open>open\<close> does up to the start-up compaction, on top of what it loaded from the snapshot file.\<close>

lemma open_recovers:
  assumes sound: "fs_sound fs" and snap: "load_from_file kv_init fs snapshot_file = (kv1, loaded)"
    and log: "fs_content fs wpath = concat (map (wal_encode \<circ> version_record) F)" "\<forall>op\<in>set F. wal_ok (version_record op)"
    and run: "kv_open srt kv_init fs wpath = (kv', fs', ok)"
  shows "\<exists>w fs2 kv4 kv5 b. maybe_compact_sstables srt kv4 fs2 = (kv5, fs', b) \<and> ok
    \<and> kv4 = (fold restore F (kv1\<lparr>kv_wal := wal_init\<lparr>wal_path := wpath, wal_open := True,
         wal_pos := length (fs_content fs wpath)\<rparr>\<rparr>))\<lparr>kv_wal := w, kv_seq := last_seq F, kv_opened := True,
         kv_manifest := manifest_file, kv_paths := load_sstables fs manifest_file,
         kv_next_id := max_sstable_id (load_sstables fs manifest_file)\<rparr>
    \<and> kv' = kv5\<lparr>kv_worker := worker_start (kv_worker kv5), kv_next_id := word_of_nat (length (kv_paths kv5))\<rparr>
    \<and> fs_sound fs2 \<and> fs_content fs2 = fs_content fs \<and> (\<forall>p. p \<noteq> wpath \<longrightarrow> p \<noteq> manifest_file \<longrightarrow> fs_files fs2 p = fs_files fs p)
    \<and> wal_open w \<and> wal_path w = wpath \<and> wal_buffer w = [] \<and> wal_pos w = length (fs_content fs wpath)"
proof -
  let ?w = "wal_init\<lparr>wal_path := wpath, wal_open := True, wal_pos := length (fs_content fs wpath)\<rparr>"
  let ?kv = "kv1\<lparr>kv_wal := ?w\<rparr>"
  have kv1: "kv_wal kv1 = wal_init" "kv_manifest_path kv1 = manifest_file"
    using load_from_file_fields [OF snap] by (simp_all add: kv_init_def manifest_file_def)
  obtain fs1 where w: "wal_open_file wal_init fs wpath = (?w, fs1, True)" "fs_sound fs1" "fs_content fs1 = fs_content fs"
    "\<forall>p. p \<noteq> wpath \<longrightarrow> fs_files fs1 p = fs_files fs p"
    using wal_reopen [OF sound] by blast
  obtain w' where r: "replay_into (restore \<circ> record_version) ?w fs1 ?kv = (w', fold restore F ?kv, last_seq F, True)"
    and w': "wal_open w'" "wal_path w' = wpath" "wal_buffer w' = []" "wal_pos w' = length (fs_content fs wpath)"
    using replay_history [of ?w fs1 F ?kv] log w(3) by (auto simp: wal_init_def)
  define fs2 where "fs2 = fs1\<lparr>fs_files := (fs_files fs1)(manifest_file \<mapsto> fs_content fs1 manifest_file)\<rparr>"
  have m: "manifest_open fs1 manifest_file = (fs2, True)" by (simp add: fs2_def manifest_open_sound [OF w(2)])
  have c: "fs_content fs2 = fs_content fs" using w(3) by (auto simp: fs2_def fs_content_def fun_eq_iff)
  then have l: "load_sstables fs2 manifest_file = load_sstables fs manifest_file" by (simp add: load_content)
  define kv4 where "kv4 = (fold restore F ?kv)\<lparr>kv_wal := w', kv_seq := last_seq F, kv_opened := True,
         kv_manifest := manifest_file, kv_paths := load_sstables fs manifest_file,
         kv_next_id := max_sstable_id (load_sstables fs manifest_file)\<rparr>"
  obtain kv5 fs3 b where mc: "maybe_compact_sstables srt kv4 fs2 = (kv5, fs3, b)" by (metis prod_cases3)
  have "kv' = kv5\<lparr>kv_worker := worker_start (kv_worker kv5), kv_next_id := word_of_nat (length (kv_paths kv5))\<rparr>" "fs' = fs3" ok
    using run w(1) r m mc l snap kv1
    by (auto simp: kv_open_def kv_init_def kv4_def Let_def)
  then show ?thesis
    using mc c w(2,4) w' by (intro exI [of _ w'] exI [of _ fs2] exI [of _ kv4] exI [of _ kv5] exI [of _ b])
      (auto simp: kv4_def fs2_def)
qed

lemma load_no_snapshot: "fs_files fs path = None \<Longrightarrow> load_from_file kv fs path = (kv, False)"
  by (simp add: load_from_file_def)

lemma maybe_compact_fields:
  assumes "maybe_compact_sstables srt kv fs = (kv', fs', ok)"
  shows "\<exists>nx ps. kv' = kv\<lparr>kv_next_id := nx, kv_paths := ps\<rparr>"
  using assms
  by (auto simp: maybe_compact_sstables_def Let_def split: if_splits option.splits prod.splits)
    (metis kv_store.surjective kv_store.update_convs(4) kv_store.update_convs(6))+

text \<open>The tables the manifest lists hold versions of the history, in layers; a complete active table on top
  of them holds the whole history.\<close>

lemma holds_full_top:
  assumes "holds H (tabs @ rest)" "holds H [es]"
  shows "holds H (tabs @ [es])"
proof -
  have "layered (map (\<lambda>es. vers es k) (tabs @ [es]))" for k
  proof -
    have "layered (map (\<lambda>es. vers es k) tabs)" "ts_sorted (vers es k)"
      using assms vers_ts_sorted by (auto simp: holds_def layered_def sorted_wrt_append)
    moreover have "older (vers e k) (vers es k)" if "e \<in> set tabs" for e
    proof -
      have "set (vers e k) \<subseteq> {v. (k, v) \<in> set H}" "set (vers es k) = {v. (k, v) \<in> set H}"
        using assms that by (auto simp: holds_def)
      then show ?thesis by (auto simp: older_def)
    qed
    ultimately show ?thesis by (auto simp: layered_snoc_iff)
  qed
  moreover have "(\<Union>e\<in>set (tabs @ [es]). set (vers e k)) = {v. (k, v) \<in> set H}" for k
  proof -
    have "set (vers e k) \<subseteq> {v. (k, v) \<in> set H}" if "e \<in> set tabs" for e
      using assms(1) that by (auto simp: holds_def)
    moreover have "set (vers es k) = {v. (k, v) \<in> set H}" using assms(2) by (simp add: holds_def)
    ultimately show ?thesis by auto
  qed
  ultimately show ?thesis using assms by (auto simp: holds_def)
qed

lemma manifest_tables:
  assumes "kv_inv H tabs fl kv fs"
  shows "\<exists>T rest. list_all2 (\<lambda>p es. fs_files fs p = Some (sst_format es)) (load_sstables fs manifest_file) T
     \<and> holds H (T @ rest) \<and> distinct (load_sstables fs manifest_file)
     \<and> (\<forall>p\<in>set (load_sstables fs manifest_file). store_path p)
     \<and> manifest_lists fs manifest_file (load_sstables fs manifest_file)"
proof -
  have h: "holds H (tabs @ fl @ [mt_entries (kv_memtable kv)])" and n: "names_inv kv"
    and f: "list_all2 (\<lambda>p es. fs_files fs p = Some (sst_format es)) (kv_paths kv) tabs"
    and fl: "flight_inv fl kv fs"
    using assms by (auto simp: kv_inv_def data_inv_def files_inv_def)
  obtain ps where "manifest_lists fs manifest_file ps"
    using assms by (auto simp: kv_inv_def thread_inv_def worker_ok_def)
  then have ml: "manifest_lists fs manifest_file (load_sstables fs manifest_file)" using load_listed by simp
  from fl consider "load_sstables fs manifest_file = kv_paths kv"
    | p es where "load_sstables fs manifest_file = kv_paths kv @ [p]" "fs_files fs p = Some (sst_format es)" "fl = [es]"
        "p \<in> set (flight_paths kv)"
    by (auto simp: flight_inv_def flight_paths_def)
  then show ?thesis
  proof cases
    case 1
    with h n f ml show ?thesis
      by (intro exI [of _ tabs] exI [of _ "fl @ [mt_entries (kv_memtable kv)]"]) (auto simp: names_inv_def)
  next
    case (2 p es)
    with h n f ml show ?thesis
      by (intro exI [of _ "tabs @ [es]"] exI [of _ "[mt_entries (kv_memtable kv)]"])
        (auto simp: names_inv_def intro!: list_all2_appendI)
  qed
qed

text \<open>A store opened on tables that hold a history answers snapshot reads from it, whether or not the start-up
  compaction merged tables.\<close>

lemma started_reads:
  assumes "tables_inv H T kv fs" "kv_immutable kv = None" "kv_worker kv = worker_init"
  shows "snd (snd (kv_get_at srt (kv\<lparr>kv_worker := worker_start (kv_worker kv), kv_next_id := nx\<rparr>) fs key t)) = value_at H key t"
proof -
  let ?kv = "kv\<lparr>kv_worker := worker_start (kv_worker kv), kv_next_id := nx\<rparr>"
  have "drain_completed_flushes srt ?kv fs = (?kv, fs)"
    using assms(3) by (simp add: drain_completed_flushes_def drain_loop_none worker_start_def worker_init_def)
  moreover have "data_inv H T [] ?kv" "files_inv T ?kv fs" "kv_immutable ?kv = None"
    using assms(1,2) by (simp_all add: tables_inv_def data_inv_def files_inv_def)
  ultimately show ?thesis
    using kv_get_at_value [of H T ?kv fs srt ?kv fs] by simp
qed

lemma reopened_reads:
  assumes srt: "std_sort srt" and inv: "tables_inv H T kv4 fs2"
    and kv4: "kv_immutable kv4 = None" "kv_worker kv4 = worker_init"
    and ids: "length (kv_paths kv4) < kCompactionTrigger \<or> unat (kv_next_id kv4) + length (kv_paths kv4) + 2 < 2 ^ 64"
    and run: "maybe_compact_sstables srt kv4 fs2 = (kv5, fs', b)"
  shows "snd (snd (kv_get_at srt (kv5\<lparr>kv_worker := worker_start (kv_worker kv5), kv_next_id := nx\<rparr>) fs' key t)) = value_at H key t"
proof -
  obtain T' where T': "tables_inv H T' kv5 fs'"
  proof (cases "length (kv_paths kv4) < kCompactionTrigger")
    case True
    then show ?thesis using run inv that by (auto simp: maybe_compact_sstables_def)
  next
    case False
    then show ?thesis using maybe_compact_ok [OF srt inv _ run] ids that by blast
  qed
  have kv5: "kv_immutable kv5 = None" "kv_worker kv5 = worker_init"
    using maybe_compact_fields [OF run] kv4 by auto
  show ?thesis by (rule started_reads [OF T' kv5])
qed

section \<open>Restart\<close>

text \<open>
  Opening on the files of a crashed process restores the invariant for the writes \<open>F\<close> that were in the log file, when
  the lost part \<open>B\<close> of the history is empty or no table has been listed: a table may hold writes the log never got.
\<close>

lemma reopened_tables:
  assumes srt: "std_sort srt" and inv: "kv_inv H tabs fl kv fs" and log: "log_inv wpath F B kv fs" "F @ B = H"
    and kept: "B = [] \<or> load_sstables fs manifest_file = []"
    and ids: "unat (max_sstable_id (load_sstables fs manifest_file)) + length (load_sstables fs manifest_file) + 2 < 2 ^ 64"
    and run: "kv_open srt kv_init fs wpath = (kv', fs', ok)"
  shows "ok \<and> (\<exists>T kv5. kv' = kv5\<lparr>kv_worker := worker_start (kv_worker kv5), kv_next_id := word_of_nat (length (kv_paths kv5))\<rparr>
    \<and> tables_inv F T kv5 fs' \<and> log_inv wpath F [] kv5 fs' \<and> kv_immutable kv5 = None \<and> kv_worker kv5 = worker_init
    \<and> kv_opened kv5 \<and> kv_manifest_path kv5 = manifest_file)"
proof -
  let ?P = "load_sstables fs manifest_file"
  have l: "fs_files fs snapshot_file = None" "fs_content fs wpath = concat (map (wal_encode \<circ> version_record) F)"
    "\<forall>op\<in>set F. wal_ok (version_record op)" "\<not> private_path wpath" "wpath \<noteq> snapshot_file"
    using log(1) by (auto simp: log_inv_def)
  have h: "hist_ok F (kv_seq kv)" using inv log(2) by (auto simp: kv_inv_def data_inv_def hist_ok_def sorted_wrt_append)
  obtain w fs2 kv4 kv5 b where o: "maybe_compact_sstables srt kv4 fs2 = (kv5, fs', b)" ok
    "kv4 = (fold restore F (kv_init\<lparr>kv_wal := wal_init\<lparr>wal_path := wpath, wal_open := True,
         wal_pos := length (fs_content fs wpath)\<rparr>\<rparr>))\<lparr>kv_wal := w, kv_seq := last_seq F, kv_opened := True,
         kv_manifest := manifest_file, kv_paths := ?P, kv_next_id := max_sstable_id ?P\<rparr>"
    "kv' = kv5\<lparr>kv_worker := worker_start (kv_worker kv5), kv_next_id := word_of_nat (length (kv_paths kv5))\<rparr>"
    "fs_sound fs2" "fs_content fs2 = fs_content fs" "\<forall>p. p \<noteq> wpath \<longrightarrow> p \<noteq> manifest_file \<longrightarrow> fs_files fs2 p = fs_files fs p"
    "wal_open w" "wal_path w = wpath" "wal_buffer w = []" "wal_pos w = length (fs_content fs wpath)"
    using open_recovers [OF kv_inv_sound [OF inv] load_no_snapshot [OF l(1)] l(2,3) run] by blast
  obtain T rest where T: "list_all2 (\<lambda>p es. fs_files fs p = Some (sst_format es)) ?P T" "holds H (T @ rest)"
    "distinct ?P" "\<forall>p\<in>set ?P. store_path p" "manifest_lists fs manifest_file ?P"
    using manifest_tables [OF inv] by blast
  have mem: "holds F [mt_entries (kv_memtable kv4)]"
    using fold_restore_holds [OF _ h] by (simp add: o(3) kv_init_def memtable_init_def)
  have "holds F (T @ [mt_entries (kv_memtable kv4)])"
    using kept
  proof
    assume "B = []"
    then show ?thesis using holds_full_top [OF T(2)] mem log(2) by simp
  qed (use T(1) mem in simp)
  moreover have "\<forall>k. map_of (kv_map kv4) k = latest F k" "distinct (map fst (kv_map kv4))"
    using fold_restore_map [of _ F] by (simp_all add: o(3) kv_init_def)
  ultimately have "data_inv F T [] kv4"
    using hist_ok_last_seq [OF h] by (simp add: data_inv_def o(3))
  moreover have "files_inv T kv4 fs2"
  proof -
    have "fs_files fs2 p = fs_files fs p" if "p \<in> set ?P" for p
      using that T(4) o(7) l(4) private_store_path [of p] store_path_ok(2) [of p] by auto
    with T(1) show ?thesis by (auto simp: files_inv_def o(3) elim!: list.rel_mono_strong)
  qed
  ultimately have "tables_inv F T kv4 fs2"
    using T o(5,6) by (simp add: tables_inv_def o(3) manifest_lists_def)
  from maybe_compact_ok [OF srt this _ o(1)] ids obtain T' where T': "tables_inv F T' kv5 fs'"
    and same: "\<forall>p. \<not> private_path p \<longrightarrow> fs_files fs' p = fs_files fs2 p"
    by (auto simp: o(3))
  have kv5: "kv_immutable kv5 = None" "kv_worker kv5 = worker_init" "kv_opened kv5" "kv_manifest_path kv5 = manifest_file" "kv_wal kv5 = w"
    using maybe_compact_fields [OF o(1)] by (auto simp: o(3) kv_init_def manifest_file_def)
  have "fs_content fs' wpath = fs_content fs wpath" "fs_files fs' snapshot_file = None"
    using same l o(6,7) not_private_snapshot private_manifest(1) by (auto simp: fs_content_def fun_eq_iff)
  then have "log_inv wpath F [] kv5 fs'" using o(8-11) l by (simp add: log_inv_def kv5)
  with T' kv5 o(2,4) show ?thesis by blast
qed

lemma restart_inv:
  assumes "std_sort srt" "kv_inv H tabs fl kv fs" "log_inv wpath F B kv fs" "F @ B = H"
    and "B = [] \<or> load_sstables fs manifest_file = []"
    and "unat (max_sstable_id (load_sstables fs manifest_file)) + length (load_sstables fs manifest_file) + 2 < 2 ^ 64"
    and "kv_open srt kv_init fs wpath = (kv', fs', ok)"
    and "\<forall>i. flush_path i \<in> set (kv_paths kv') \<longrightarrow> i < kv_next_id kv'"
  shows "\<exists>T. kv_inv F T [] kv' fs' \<and> log_inv wpath F [] kv' fs'"
proof -
  obtain T kv5 where r: "kv' = kv5\<lparr>kv_worker := worker_start (kv_worker kv5), kv_next_id := word_of_nat (length (kv_paths kv5))\<rparr>"
    "tables_inv F T kv5 fs'" "log_inv wpath F [] kv5 fs'" "kv_immutable kv5 = None" "kv_worker kv5 = worker_init"
    "kv_opened kv5" "kv_manifest_path kv5 = manifest_file"
    using reopened_tables [OF assms(1-7)] by blast
  have idle: "in_work (kv_worker kv') = []" "fw_completions (kv_worker kv') = []"
    by (simp_all add: r(1,5) worker_start_def worker_init_def in_work_def)
  have "thread_inv kv' fs'"
    using r(2,5,6) idle by (auto simp: thread_inv_def worker_ok_def tables_inv_def r(1) worker_start_def worker_init_def)
  moreover have "names_inv kv'"
    using r(2,7) idle assms(8) by (auto simp: names_inv_def flight_paths_def tables_inv_def r(1))
  moreover have "flight_inv [] kv' fs'"
    using r(2,4) idle load_listed by (auto simp: flight_inv_def tables_inv_def r(1))
  ultimately have "kv_inv F T [] kv' fs'"
    using r(2) by (simp add: kv_inv_def tables_inv_def data_inv_def files_inv_def r(1))
  moreover have "log_inv wpath F [] kv' fs'" using r(3) by (simp add: log_inv_def r(1))
  ultimately show ?thesis by blast
qed

end
