(* ===== verification/Kv_System.thy ===== *)
theory Kv_System
  imports Kv_Open
begin

text \<open>
  The store as a transition system: clients calling its operations in any order, each a critical section
  of \<^verbatim>\<open>mu_\<close>, interleaved with the steps of the flush thread, from a store opened on an empty directory.
  The invariant holds in every reachable state; the properties below read it off.
\<close>

section \<open>Reachable states\<close>

text \<open>A directory in which no store has run, and a name for the log that is not one of the store's own.\<close>

definition fresh_disk :: "fsys \<Rightarrow> string \<Rightarrow> bool" where
  "fresh_disk fs wpath \<longleftrightarrow> fs_sound fs \<and> (\<forall>p. private_path p \<longrightarrow> fs_files fs p = None)
     \<and> fs_files fs snapshot_file = None \<and> fs_content fs wpath = [] \<and> \<not> private_path wpath \<and> wpath \<noteq> snapshot_file"

text \<open>
  \<open>kv_run srt wpath H kv fs\<close>: the state reached after the writes \<open>H\<close> were accepted and not lost.  The process may
  stop at any point and a new one open the store on the files it left, which loses the writes in the log
  buffer.  \<open>Restart\<close> excludes two things: a table on disk that holds writes of the lost buffer, and a table
  id that opening would give out again.
\<close>

inductive kv_run :: "(version list \<Rightarrow> version list) \<Rightarrow> string \<Rightarrow> history \<Rightarrow> kv_store \<Rightarrow> fsys \<Rightarrow> bool"
  for srt :: "version list \<Rightarrow> version list" and wpath :: string
where
  Open: "\<lbrakk>fresh_disk fs wpath; kv_open srt kv_init fs wpath = (kv, fs', ok)\<rbrakk> \<Longrightarrow> kv_run srt wpath [] kv fs'"
| Put: "\<lbrakk>kv_run srt wpath H kv fs; kv_limits kv; key_ok key; value_ok val; length key < 2 ^ 32; length val < 2 ^ 32;
     kv_put kv fs key val = (kv', fs')\<rbrakk>
   \<Longrightarrow> kv_run srt wpath (H @ [(key, \<lparr>ver_timestamp = kv_seq kv + 1, ver_value = Some val\<rparr>)]) kv' fs'"
| Del: "\<lbrakk>kv_run srt wpath H kv fs; kv_limits kv; length key < 2 ^ 32; kv_get kv key \<noteq> None;
     kv_del kv fs key = (kv', fs', ok)\<rbrakk>
   \<Longrightarrow> kv_run srt wpath (H @ [(key, \<lparr>ver_timestamp = kv_seq kv + 1, ver_value = None\<rparr>)]) kv' fs'"
| Del_absent: "\<lbrakk>kv_run srt wpath H kv fs; kv_get kv key = None; kv_del kv fs key = (kv', fs', ok)\<rbrakk>
   \<Longrightarrow> kv_run srt wpath H kv' fs'"
| Get_at: "\<lbrakk>kv_run srt wpath H kv fs; kv_limits kv; kv_get_at srt kv fs key t = (kv', fs', r)\<rbrakk>
   \<Longrightarrow> kv_run srt wpath H kv' fs'"
| Flush_wal: "\<lbrakk>kv_run srt wpath H kv fs; kv_flush_wal kv fs = (kv', fs', ok)\<rbrakk> \<Longrightarrow> kv_run srt wpath H kv' fs'"
| Group: "\<lbrakk>kv_run srt wpath H kv fs; n < 2 ^ 31\<rbrakk> \<Longrightarrow> kv_run srt wpath H (set_group_commit_every n kv) fs"
| Thread: "\<lbrakk>kv_run srt wpath H kv fs; worker_step (kv_worker kv) fs = (fw, fs')\<rbrakk>
   \<Longrightarrow> kv_run srt wpath H (kv\<lparr>kv_worker := fw\<rparr>) fs'"
| Restart: "\<lbrakk>kv_run srt wpath H kv fs; wal_buffer (kv_wal kv) = [] \<or> load_sstables fs manifest_file = [];
     unat (max_sstable_id (load_sstables fs manifest_file)) + length (load_sstables fs manifest_file) + 2 < 2 ^ 64;
     kv_open srt kv_init fs wpath = (kv', fs', ok); \<forall>i. flush_path i \<in> set (kv_paths kv') \<longrightarrow> i < kv_next_id kv'\<rbrakk>
   \<Longrightarrow> kv_run srt wpath (take (length H - length (wal_buffer (kv_wal kv))) H) kv' fs'"

lemma open_fresh:
  assumes "fresh_disk fs wpath"
  shows "\<exists>fs'. kv_open srt kv_init fs wpath =
      (kv_init\<lparr>kv_wal := wal_init\<lparr>wal_open := True, wal_path := wpath\<rparr>, kv_opened := True,
        kv_manifest := manifest_file, kv_worker := worker_start worker_init\<rparr>, fs', True)
    \<and> fs_sound fs' \<and> fs_content fs' wpath = [] \<and> manifest_lists fs' manifest_file []
    \<and> fs_files fs' snapshot_file = None"
proof -
  let ?fs1 = "case fs_files fs wpath of None \<Rightarrow> fs\<lparr>fs_files := (fs_files fs)(wpath \<mapsto> [])\<rparr> | Some _ \<Rightarrow> fs"
  let ?fs2 = "?fs1\<lparr>fs_files := (fs_files ?fs1)(manifest_file \<mapsto> fs_content ?fs1 manifest_file)\<rparr>"
  have f: "fs_sound fs" "fs_files fs manifest_file = None" "fs_files fs snapshot_file = None" "fs_content fs wpath = []"
    "wpath \<noteq> manifest_file"
    using assms by (auto simp: fresh_disk_def)
  have s1: "fs_sound ?fs1" "fs_content ?fs1 wpath = []" "fs_content ?fs1 manifest_file = []"
    using f by (auto simp: fs_content_def split: option.splits)
  have w: "wal_open_file wal_init fs wpath = (wal_init\<lparr>wal_path := wpath, wal_open := True\<rparr>, ?fs1, True)"
    using f(1) s1(2) by (simp add: wal_open_file_def fs_sound_def Let_def wal_init_def)
  have m: "manifest_open ?fs1 manifest_file = (?fs2, True)" by (rule manifest_open_sound [OF s1(1)])
  have l: "manifest_lists ?fs2 manifest_file []"
    using s1(3) by (simp add: manifest_lists_def fs_content_def manifest_file_def)
  have "load_sstables ?fs2 manifest_file = []" by (rule load_listed [OF l])
  then have "kv_open srt kv_init fs wpath =
      (kv_init\<lparr>kv_wal := wal_init\<lparr>wal_open := True, wal_path := wpath\<rparr>, kv_opened := True,
        kv_manifest := manifest_file, kv_worker := worker_start worker_init\<rparr>, ?fs2, True)"
    using f w m s1 by (simp add: kv_open_def load_from_file_def kv_init_def replay_into_def replay_loop_stop
        max_sstable_id_def maybe_compact_sstables_def kCompactionTrigger_def manifest_file_def wal_init_def)
  moreover have "fs_sound ?fs2" "fs_content ?fs2 wpath = []"
    using s1 f(5) by (auto simp: fs_content_def)
  moreover have "fs_files ?fs2 snapshot_file = None"
    using assms f(3) not_private_snapshot by (auto simp: fresh_disk_def split: option.splits)
  ultimately show ?thesis using l by blast
qed

section \<open>The invariant of reachable states\<close>

lemma kv_inv_group [simp]: "kv_inv H tabs fl (kv\<lparr>kv_group := n\<rparr>) fs = kv_inv H tabs fl kv fs"
  by (simp add: kv_inv_defs)

lemma kv_good_fresh:
  assumes "fresh_disk fs wpath" "kv_open srt kv_init fs wpath = (kv, fs', ok)"
  shows "\<exists>tabs fl F B. kv_inv [] tabs fl kv fs' \<and> log_inv wpath F B kv fs' \<and> F @ B = []"
proof -
  obtain fs1 where kv: "kv = kv_init\<lparr>kv_wal := wal_init\<lparr>wal_open := True, wal_path := wpath\<rparr>, kv_opened := True,
        kv_manifest := manifest_file, kv_worker := worker_start worker_init\<rparr>" "fs' = fs1"
    and fs1: "fs_sound fs1" "fs_content fs1 wpath = []" "manifest_lists fs1 manifest_file []" "fs_files fs1 snapshot_file = None"
    using open_fresh [OF assms(1), of srt] assms(2) by auto
  have "holds [] [[]]" by (simp add: holds_def layered_def)
  then have "data_inv [] [] [] kv"
    by (simp add: data_inv_def kv kv_init_def memtable_init_def hist_ok_def latest_def hist_of_def)
  moreover have "in_work (kv_worker kv) = []" "fw_completions (kv_worker kv) = []"
    by (simp_all add: kv worker_start_def worker_init_def in_work_def)
  moreover from this have "thread_inv kv fs'"
    using fs1 by (auto simp: thread_inv_def worker_ok_def kv worker_start_def worker_init_def)
  ultimately have "kv_inv [] [] [] kv fs'"
    using load_listed [OF fs1(3)]
    by (simp add: kv_inv_def names_inv_def files_inv_def flight_inv_def flight_paths_def kv kv_init_def manifest_file_def)
  moreover have "log_inv wpath [] [] kv fs'"
    using assms(1) fs1 by (simp add: log_inv_def kv wal_init_def fresh_disk_def)
  ultimately show ?thesis by auto
qed

lemma kv_run_inv:
  assumes "std_sort srt" "kv_run srt wpath H kv fs"
  shows "\<exists>tabs fl F B. kv_inv H tabs fl kv fs \<and> log_inv wpath F B kv fs \<and> F @ B = H"
  using assms(2)
proof induction
  case (Open fs kv fs' ok)
  then show ?case by (rule kv_good_fresh)
next
  case (Put H kv fs key val kv' fs')
  then obtain tabs fl F B where i: "kv_inv H tabs fl kv fs" "log_inv wpath F B kv fs" "F @ B = H" by blast
  from kv_put_inv [OF i(1,2) Put.hyps(2-7)] show ?case using i(3) by fastforce
next
  case (Del H kv fs key kv' fs' ok)
  then obtain tabs fl F B where i: "kv_inv H tabs fl kv fs" "log_inv wpath F B kv fs" "F @ B = H" by blast
  from kv_del_inv [OF i(1,2) Del.hyps(2) Del.hyps(4) [unfolded kv_get_def] Del.hyps(3,5)] show ?case
    using i(3) by fastforce
next
  case (Del_absent H kv fs key kv' fs' ok)
  then have "kv' = kv" "fs' = fs" by (auto simp: kv_del_def kv_get_def split: if_splits)
  with Del_absent show ?case by simp
next
  case (Get_at H kv fs key t kv' fs' r)
  then obtain tabs fl F B where i: "kv_inv H tabs fl kv fs" "log_inv wpath F B kv fs" "F @ B = H" by blast
  have d: "drain_completed_flushes srt kv fs = (kv', fs')"
    using Get_at.hyps(3) by (auto simp: kv_get_at_def Let_def split: prod.splits)
  from drain_inv [OF assms(1) i(1) Get_at.hyps(2) d] i(2,3) show ?case
    using log_inv_frame by blast
next
  case (Flush_wal H kv fs kv' fs' ok)
  then obtain tabs fl F B where i: "kv_inv H tabs fl kv fs" "log_inv wpath F B kv fs" "F @ B = H" by blast
  obtain w where "wal_flush (kv_wal kv) fs = (w, fs', ok)" "kv' = kv\<lparr>kv_wal := w\<rparr>"
    using Flush_wal.hyps(2) by (auto simp: kv_flush_wal_def split: prod.splits)
  with wal_flush_inv [OF i(1,2)] i(3) show ?case by (metis append_Nil2)
next
  case (Group H kv fs n)
  then show ?case by (auto simp: set_group_commit_every_def log_inv_def)
next
  case (Thread H kv fs fw fs')
  then obtain tabs fl F B where i: "kv_inv H tabs fl kv fs" "log_inv wpath F B kv fs" "F @ B = H" by blast
  have "log_inv wpath F B (kv\<lparr>kv_worker := fw\<rparr>) fs'"
    using worker_step_inv(2) [OF i(1) Thread.hyps(2)] by (intro log_inv_frame [OF i(2)]) simp_all
  with worker_step_inv(1) [OF i(1) Thread.hyps(2)] i(3) show ?case by blast
next
  case (Restart H kv fs kv' fs' ok)
  then obtain tabs fl F B where i: "kv_inv H tabs fl kv fs" "log_inv wpath F B kv fs" "F @ B = H" by blast
  have "length B = length (wal_buffer (kv_wal kv))" using i(2) by (simp add: log_inv_def)
  with i(3) have "take (length H - length (wal_buffer (kv_wal kv))) H = F"
    and "B = [] \<or> load_sstables fs manifest_file = []" using Restart.hyps(2) by auto
  with restart_inv [OF assms(1) i _ Restart.hyps(3-5)] show ?case by auto
qed

section \<open>Progress of the flush thread\<close>

text \<open>The thread running alone.\<close>

fun thread_steps :: "nat \<Rightarrow> kv_store \<Rightarrow> fsys \<Rightarrow> kv_store \<times> fsys" where
  "thread_steps 0 kv fs = (kv, fs)"
| "thread_steps (Suc n) kv fs =
     (let (fw, fs') = worker_step (kv_worker kv) fs in thread_steps n (kv\<lparr>kv_worker := fw\<rparr>) fs')"

lemma thread_steps_only: "\<exists>fw. fst (thread_steps n kv fs) = kv\<lparr>kv_worker := fw\<rparr>"
proof (induction n arbitrary: kv fs)
  case 0
  show ?case by (intro exI [of _ "kv_worker kv"]) simp
next
  case (Suc n)
  obtain fw fs1 where w: "worker_step (kv_worker kv) fs = (fw, fs1)" by fastforce
  from Suc [of "kv\<lparr>kv_worker := fw\<rparr>" fs1] show ?case by (simp add: w)
qed

lemma thread_steps_run:
  "kv_run srt wpath H kv fs \<Longrightarrow> thread_steps n kv fs = (kv', fs') \<Longrightarrow> kv_run srt wpath H kv' fs'"
proof (induction n arbitrary: kv fs)
  case (Suc n)
  obtain fw fs1 where s: "worker_step (kv_worker kv) fs = (fw, fs1)" by fastforce
  with Suc.prems(2) have "thread_steps n (kv\<lparr>kv_worker := fw\<rparr>) fs1 = (kv', fs')" by simp
  from Suc.IH [OF kv_run.Thread [OF Suc.prems(1) s] this] show ?case .
qed simp

definition work_left :: "flush_worker \<Rightarrow> nat" where
  "work_left fw = 5 * length (fw_tasks fw) + length (pc_task (fw_pc fw)) * (pc_rank (fw_pc fw) - 1)"

lemma worker_step_left:
  assumes "worker_ok man fw fs" "worker_step fw fs = (fw', fs')" "fw_pc fw \<noteq> WNone" "fw_pc fw \<noteq> WExit" "in_work fw \<noteq> []"
  shows "work_left fw' < work_left fw"
  using assms(2-5) by (cases "fw_pc fw")
    (auto simp: worker_step_def work_left_def in_work_def split: list.splits prod.splits if_splits)

lemma work_left_zero: "work_left fw = 0 \<Longrightarrow> in_work fw = []"
  by (cases "fw_pc fw") (auto simp: work_left_def in_work_def)

lemma thread_steps_work:
  assumes "std_sort srt" "kv_run srt wpath H kv fs" "work_left (kv_worker kv) \<le> n"
  shows "in_work (kv_worker (fst (thread_steps n kv fs))) = []"
  using assms(2,3)
proof (induction n arbitrary: kv fs)
  case 0
  then show ?case using work_left_zero by simp
next
  case (Suc n)
  obtain fw fs1 where s: "worker_step (kv_worker kv) fs = (fw, fs1)" by fastforce
  obtain tabs fl where i: "kv_inv H tabs fl kv fs" using kv_run_inv [OF assms(1) Suc.prems(1)] by blast
  then have th: "thread_inv kv fs" by (simp add: kv_inv_def)
  have "work_left fw \<le> n"
  proof (cases "in_work (kv_worker kv) = []")
    case True
    then have "fw = kv_worker kv" "work_left (kv_worker kv) = 0"
      using s thread_idle [OF th] th by (auto simp: worker_step_def in_work_def work_left_def thread_inv_def)
    then show ?thesis by simp
  next
    case False
    then have "work_left fw < work_left (kv_worker kv)"
      using th s by (intro worker_step_left [of manifest_file _ fs _ fs1]) (auto simp: thread_inv_def worker_ok_def)
    with Suc.prems(2) show ?thesis by simp
  qed
  with Suc.IH [OF kv_run.Thread [OF Suc.prems(1) s]] s show ?case by simp
qed

lemma work_left_bound:
  assumes "std_sort srt" "kv_run srt wpath H kv fs"
  shows "work_left (kv_worker kv) \<le> 5"
proof -
  obtain tabs fl where "kv_inv H tabs fl kv fs" using kv_run_inv [OF assms] by blast
  then have "length (in_work (kv_worker kv)) \<le> 1" by (auto simp: kv_inv_def flight_inv_def)
  then show ?thesis
    by (cases "fw_pc (kv_worker kv)") (auto simp: work_left_def in_work_def)
qed

lemma get_at_idle:
  assumes "std_sort srt" "kv_run srt wpath H kv fs" "kv_limits kv" "in_work (kv_worker kv) = []"
  shows "snd (snd (kv_get_at srt kv fs key t)) = value_at H key t"
proof -
  obtain tabs fl where i: "kv_inv H tabs fl kv fs" using kv_run_inv [OF assms(1,2)] by blast
  obtain kv1 fs1 where d: "drain_completed_flushes srt kv fs = (kv1, fs1)" by fastforce
  obtain tabs1 where i1: "kv_inv H tabs1 [] kv1 fs1"
    using drain_inv(1) [OF assms(1) i assms(3) d] assms(4) by blast
  then have "kv_immutable kv1 = None" by (auto simp: kv_inv_def flight_inv_def)
  with i1 show ?thesis
    using kv_get_at_value [OF _ _ _ d, of H tabs1] by (simp add: kv_inv_def)
qed

section \<open>Properties\<close>

text \<open>A concrete run: the store opened on an empty disk, and one put.\<close>

definition example_history :: history where
  "example_history = [(''a'', \<lparr>ver_timestamp = 1, ver_value = Some ''x''\<rparr>)]"

lemma fresh_disk_empty: "fresh_disk fs_empty ''w''"
  by (auto simp: fresh_disk_def fs_empty_def fs_sound_def fs_content_def snapshot_file_def private_path_def
      manifest_file_def store_path_def flush_path_def compact_path_def)

text \<open>The logs of the programs: a name that ends like \<^verbatim>\<open>.wal\<close> is none of the store's own files.\<close>

lemma private_path_last: "private_path p \<Longrightarrow> last p \<in> {CHR ''T'', CHR ''t'', CHR ''p''}"
  by (auto simp: private_path_def manifest_file_def store_path_def flush_path_def compact_path_def)

lemma fresh_disk_wal: "last p = CHR ''l'' \<Longrightarrow> p \<noteq> [] \<Longrightarrow> fresh_disk fs_empty p"
  using private_path_last [of p] by (auto simp: fresh_disk_def fs_content_def snapshot_file_def) (auto simp: fs_empty_def)

lemma example_run:
  "\<exists>kv fs. kv_run srt ''w'' example_history kv fs \<and> kv_limits kv \<and> in_work (kv_worker kv) = []
     \<and> fw_completions (kv_worker kv) = [] \<and> kv_paths kv = []"
proof -
  obtain fs where o: "kv_open srt kv_init fs_empty ''w'' =
      (kv_init\<lparr>kv_wal := wal_init\<lparr>wal_open := True, wal_path := ''w''\<rparr>, kv_opened := True,
        kv_manifest := manifest_file, kv_worker := worker_start worker_init\<rparr>, fs, True)" (is "_ = (?kv, _, _)")
    using open_fresh [OF fresh_disk_empty, of srt] by blast
  note r = kv_run.Open [OF fresh_disk_empty o]
  obtain kv' fs' where p: "kv_put ?kv fs ''a'' ''x'' = (kv', fs')" by fastforce
  then have "kv_limits kv'" "in_work (kv_worker kv') = []" "fw_completions (kv_worker kv') = []" "kv_paths kv' = []"
    by (auto simp: kv_put_def append_put_def write_record_def kv_init_def wal_init_def memtable_put_def memtable_init_def
        maybe_flush_memtable_def approximate_size_bytes_def kMemTableFlushThresholdBytes_def sizeof_Timestamp_def
        sizeof_Version_def worker_start_def worker_init_def in_work_def kv_limits_def)
  moreover have "kv_run srt ''w'' ([] @ [(''a'', \<lparr>ver_timestamp = kv_seq ?kv + 1, ver_value = Some ''x''\<rparr>)]) kv' fs'"
    by (rule kv_run.Put [OF r _ _ _ _ _ p])
      (simp_all add: kv_limits_def kv_init_def key_ok_def value_ok_def is_space_def)
  ultimately show ?thesis by (auto simp: example_history_def kv_init_def)
qed

text \<open>A put of a value as large as the flush threshold hands the table to the flush thread.\<close>

lemma big_value: "0 < n \<Longrightarrow> \<exists>val. length val = n \<and> value_ok val"
  by (intro exI [of _ "replicate n (CHR ''x'')"]) (auto simp: value_ok_def is_space_def hd_replicate)

lemma flight_run:
  "\<exists>val kv fs t. kv_run srt ''w'' [(''a'', \<lparr>ver_timestamp = 1, ver_value = Some val\<rparr>)] kv fs \<and> kv_limits kv
     \<and> in_work (kv_worker kv) = [t] \<and> fw_completions (kv_worker kv) = [] \<and> kv_immutable kv = Some []
     \<and> mt_entries (kv_memtable kv) = [] \<and> kv_paths kv = [] \<and> load_sstables fs manifest_file = []
     \<and> length (wal_buffer (kv_wal kv)) = 1"
proof -
  obtain fs where o: "kv_open srt kv_init fs_empty ''w'' =
      (kv_init\<lparr>kv_wal := wal_init\<lparr>wal_open := True, wal_path := ''w''\<rparr>, kv_opened := True,
        kv_manifest := manifest_file, kv_worker := worker_start worker_init\<rparr>, fs, True)" (is "_ = (?kv, _, _)")
    and ml: "manifest_lists fs manifest_file []"
    using open_fresh [OF fresh_disk_empty, of srt] by blast
  note r = kv_run.Open [OF fresh_disk_empty o]
  obtain val where val: "length val = 4194304" "value_ok val" using big_value [of 4194304] by auto
  obtain kv' fs' where p: "kv_put ?kv fs ''a'' val = (kv', fs')" by fastforce
  have size: "\<not> 57 + (word_of_nat (length val) :: u64) < 4194304"
    using val by simp
  have put: "kv_limits kv' \<and> (\<exists>t. in_work (kv_worker kv') = [t]) \<and> fw_completions (kv_worker kv') = []
      \<and> kv_immutable kv' = Some [] \<and> mt_entries (kv_memtable kv') = [] \<and> kv_paths kv' = [] \<and> fs' = fs \<and> length (wal_buffer (kv_wal kv')) = 1"
    using p size
    by (auto simp: kv_put_def append_put_def write_record_def kv_init_def wal_init_def memtable_put_def memtable_init_def
        maybe_flush_memtable_def approximate_size_bytes_def kMemTableFlushThresholdBytes_def sizeof_Timestamp_def
        sizeof_Version_def worker_start_def worker_init_def in_work_def kv_limits_def take_entries_def enqueue_def)
  have "kv_run srt ''w'' ([] @ [(''a'', \<lparr>ver_timestamp = kv_seq ?kv + 1, ver_value = Some val\<rparr>)]) kv' fs'"
    by (rule kv_run.Put [OF r _ _ _ _ _ p])
      (use val in \<open>simp_all add: kv_limits_def kv_init_def key_ok_def is_space_def\<close>)
  then show ?thesis using put load_listed [OF ml] by (auto simp: kv_init_def)
qed

lemma files_inv_exist: "\<lbrakk>files_inv tabs kv fs; p \<in> set (kv_paths kv)\<rbrakk> \<Longrightarrow> \<exists>y. fs_files fs p = Some y"
  by (auto simp: files_inv_def list_all2_conv_all_nth in_set_conv_nth)

lemma reopened_state:
  assumes "std_sort srt" "kv_inv H tabs fl kv fs" "log_inv wpath F B kv fs" "F @ B = H"
    and "B = [] \<or> load_sstables fs manifest_file = []"
    and "unat (max_sstable_id (load_sstables fs manifest_file)) + length (load_sstables fs manifest_file) + 2 < 2 ^ 64"
    and "kv_open srt kv_init fs wpath = (kv', fs', ok)"
  shows "ok \<and> distinct (kv_paths kv') \<and> (\<forall>p \<in> set (kv_paths kv'). fs_files fs' p \<noteq> None)
    \<and> flight_paths kv' = [] \<and> kv_immutable kv' = None \<and> load_sstables fs' manifest_file = kv_paths kv'
    \<and> kv_next_id kv' = word_of_nat (length (kv_paths kv'))"
proof -
  obtain T kv5 where r: ok "kv' = kv5\<lparr>kv_worker := worker_start (kv_worker kv5), kv_next_id := word_of_nat (length (kv_paths kv5))\<rparr>"
    "tables_inv F T kv5 fs'" "kv_immutable kv5 = None" "kv_worker kv5 = worker_init"
    using reopened_tables [OF assms] by blast
  have "\<forall>p \<in> set (kv_paths kv5). fs_files fs' p \<noteq> None" "distinct (kv_paths kv5)" "load_sstables fs' manifest_file = kv_paths kv5"
    using r(3) load_listed by (auto simp: tables_inv_def intro: files_inv_exist)
  with r show ?thesis
    by (simp add: flight_paths_def worker_start_def worker_init_def in_work_def)
qed

text \<open>
  C30. The state of an open store is consistent.  In every state of a run of the store the tables it lists are different
  files that exist, at most one frozen table is on its way to the disk and the store knows it, and the manifest
  lists the tables of the store, followed at most by the one on its way.  Opening the files a crash leaves at
  any point of such a run, when no table can hold lost writes and the table ids have room, gives a store with
  nothing under way whose tables again are different files that exist and are what the manifest lists.  This second part does not
  ask that the next table id, the number of tables, is unused.  When it is used the run ends there (\<open>Restart\<close> requires an
  unused one), because the next flush would write over a table.
\<close>

theorem store_state_invariant:
  assumes "std_sort srt" "kv_run srt wpath H kv fs"
  shows "(distinct (kv_paths kv) \<and> (\<forall>p \<in> set (kv_paths kv). fs_files fs p \<noteq> None)
      \<and> length (flight_paths kv) \<le> 1 \<and> (kv_immutable kv = None \<longleftrightarrow> flight_paths kv = [])
      \<and> (load_sstables fs manifest_file = kv_paths kv \<or> load_sstables fs manifest_file = kv_paths kv @ flight_paths kv))
    \<and> ((wal_buffer (kv_wal kv) = [] \<or> load_sstables fs manifest_file = [])
        \<and> unat (max_sstable_id (load_sstables fs manifest_file)) + length (load_sstables fs manifest_file) + 2 < 2 ^ 64
        \<and> kv_open srt kv_init fs wpath = (kv', fs', ok)
      \<longrightarrow> ok \<and> distinct (kv_paths kv') \<and> (\<forall>p \<in> set (kv_paths kv'). fs_files fs' p \<noteq> None)
        \<and> flight_paths kv' = [] \<and> kv_immutable kv' = None \<and> load_sstables fs' manifest_file = kv_paths kv'
        \<and> kv_next_id kv' = word_of_nat (length (kv_paths kv')))"
proof -
  obtain tabs fl F B where i: "kv_inv H tabs fl kv fs" "log_inv wpath F B kv fs" "F @ B = H"
    using kv_run_inv [OF assms] by blast
  have "distinct (kv_paths kv) \<and> (\<forall>p \<in> set (kv_paths kv). fs_files fs p \<noteq> None)"
    using i(1) by (auto simp: kv_inv_def names_inv_def intro: files_inv_exist)
  moreover have "length (flight_paths kv) \<le> 1 \<and> (kv_immutable kv = None \<longleftrightarrow> flight_paths kv = [])
    \<and> (load_sstables fs manifest_file = kv_paths kv \<or> load_sstables fs manifest_file = kv_paths kv @ flight_paths kv)"
    using i(1) by (auto simp: kv_inv_def flight_inv_def flight_paths_def)
  moreover have "B = []" if "wal_buffer (kv_wal kv) = []" using i(2) that by (simp add: log_inv_def)
  ultimately show ?thesis using reopened_state [OF assms(1) i] by blast
qed

theorem store_state_invariant_witness:
  "\<exists>kv fs kv' fs'. kv_run (sort_key ver_timestamp) ''w'' example_history kv fs \<and> length (flight_paths kv) \<le> 1
     \<and> kv_open (sort_key ver_timestamp) kv_init fs ''w'' = (kv', fs', True) \<and> load_sstables fs' manifest_file = kv_paths kv'"
proof -
  let ?srt = "sort_key ver_timestamp"
  obtain kv fs where r: "kv_run ?srt ''w'' example_history kv fs" "in_work (kv_worker kv) = []"
    "fw_completions (kv_worker kv) = []" "kv_paths kv = []"
    using example_run by blast
  obtain kv' fs' ok where o: "kv_open ?srt kv_init fs ''w'' = (kv', fs', ok)" by (metis prod_cases3)
  note inv = store_state_invariant [OF stable_sort.std_sort_axioms r(1), of kv' fs' ok]
  have l: "load_sstables fs manifest_file = []" using inv r(2-4) by (auto simp: flight_paths_def)
  then have "ok \<and> load_sstables fs' manifest_file = kv_paths kv'" using inv o by (simp add: max_sstable_id_def)
  with inv r(1) o show ?thesis by (intro exI [of _ kv] exI [of _ fs] exI [of _ kv'] exI [of _ fs']) simp
qed

text \<open>
  C10. Current values: in every reachable state, whatever the interleaving of operations and flush thread,
  \<^verbatim>\<open>get\<close> returns the value of the last accepted write to the key, and nothing after a delete.
\<close>

theorem store_get_latest:
  assumes "std_sort srt" "kv_run srt wpath H kv fs"
  shows "kv_get kv key = latest H key"
  using kv_run_inv [OF assms] by (auto simp: kv_inv_def data_inv_def kv_get_def)

theorem store_get_latest_witness:
  "\<exists>kv fs. kv_run (sort_key ver_timestamp) ''w'' example_history kv fs \<and> kv_get kv ''a'' = Some ''x''"
proof -
  obtain kv fs where r: "kv_run (sort_key ver_timestamp) ''w'' example_history kv fs"
    using example_run by blast
  from store_get_latest [OF stable_sort.std_sort_axioms r] r show ?thesis
    by (auto simp: example_history_def latest_def hist_of_def)
qed

text \<open>
  C2. Snapshot reads: in every reachable state in which the flush thread has no work left, \<^verbatim>\<open>get_at\<close> returns
  the value of the newest write to the key that is not newer than the requested timestamp, wherever
  flushes and compactions have put it.
\<close>

theorem store_get_at_snapshot:
  assumes "std_sort srt" "kv_run srt wpath H kv fs" "kv_limits kv" "in_work (kv_worker kv) = []"
  shows "snd (snd (kv_get_at srt kv fs key t)) = value_at H key t"
  by (rule get_at_idle [OF assms])

theorem store_get_at_snapshot_witness:
  "\<exists>kv fs. kv_run (sort_key ver_timestamp) ''w'' example_history kv fs
     \<and> snd (snd (kv_get_at (sort_key ver_timestamp) kv fs ''a'' 1)) = Some ''x''"
proof -
  obtain kv fs where r: "kv_run (sort_key ver_timestamp) ''w'' example_history kv fs" "kv_limits kv" "in_work (kv_worker kv) = []"
    using example_run by blast
  from store_get_at_snapshot [OF stable_sort.std_sort_axioms r, of "''a''" 1] r show ?thesis
    by (auto simp: example_history_def value_at_def hist_of_def visible_def value_of_def)
qed

text \<open>
  C17. A flush completes: from every reachable state at most five steps of the flush thread bring its work
  list to the end, after which every snapshot read is answered from the whole history.
\<close>

theorem store_flush_completes:
  assumes "std_sort srt" "kv_run srt wpath H kv fs" "thread_steps 5 kv fs = (kv', fs')" "kv_limits kv'"
  shows "in_work (kv_worker kv') = [] \<and> (\<forall>key t. snd (snd (kv_get_at srt kv' fs' key t)) = value_at H key t)"
proof -
  have "in_work (kv_worker kv') = []"
    using thread_steps_work [OF assms(1,2) work_left_bound [OF assms(1,2)]] assms(3) by simp
  then show ?thesis
    using get_at_idle [OF assms(1) thread_steps_run [OF assms(2,3)] assms(4)] by simp
qed

lemma thread_steps_limits: "kv_limits (fst (thread_steps n kv fs)) = kv_limits kv"
  by (induction n arbitrary: kv fs) (simp_all add: case_prod_beta Let_def kv_limits_def)

text \<open>A table in flight when the thread starts running.\<close>

theorem store_flush_completes_witness:
  "\<exists>val kv fs. in_work (kv_worker kv) \<noteq> []
     \<and> snd (snd (kv_get_at (sort_key ver_timestamp) (fst (thread_steps 5 kv fs)) (snd (thread_steps 5 kv fs)) ''a'' 1)) = Some val"
proof -
  obtain val kv fs t where r: "kv_run (sort_key ver_timestamp) ''w'' [(''a'', \<lparr>ver_timestamp = 1, ver_value = Some val\<rparr>)] kv fs"
    "kv_limits kv" "in_work (kv_worker kv) = [t]"
    using flight_run by blast
  have "value_at [(''a'', \<lparr>ver_timestamp = 1, ver_value = Some val\<rparr>)] ''a'' 1 = Some val"
    by (simp add: value_at_def hist_of_def visible_def value_of_def)
  with store_flush_completes [OF stable_sort.std_sort_axioms r(1) prod.collapse [symmetric]] r(2,3) show ?thesis
    by (intro exI [of _ val] exI [of _ kv] exI [of _ fs]) (simp add: thread_steps_limits)
qed

text \<open>
  While a table is in flight its versions cannot be read: there is a reachable state in which \<^verbatim>\<open>get_at\<close> does
  not find a value that was written before, at a timestamp at which it is the current one, because the
  entries were moved out of \<^verbatim>\<open>immutable_memtable_\<close> into the flush task.
\<close>

theorem store_get_at_gap:
  "\<exists>H kv fs key t. kv_run (sort_key ver_timestamp) ''w'' H kv fs \<and> kv_get kv key = value_at H key t
     \<and> value_at H key t \<noteq> None \<and> snd (snd (kv_get_at (sort_key ver_timestamp) kv fs key t)) = None"
proof -
  let ?srt = "sort_key ver_timestamp"
  obtain val kv fs t where r: "kv_run ?srt ''w'' [(''a'', \<lparr>ver_timestamp = 1, ver_value = Some val\<rparr>)] kv fs"
    "fw_completions (kv_worker kv) = []" "kv_immutable kv = Some []" "mt_entries (kv_memtable kv) = []" "kv_paths kv = []"
    using flight_run [of ?srt] by blast
  let ?H = "[(''a'', \<lparr>ver_timestamp = 1, ver_value = Some val\<rparr>)]"
  have v: "value_at ?H ''a'' 1 = Some val"
    by (simp add: value_at_def hist_of_def visible_def value_of_def)
  have "kv_get kv ''a'' = latest ?H ''a''"
    using kv_run_inv [OF stable_sort.std_sort_axioms r(1)] by (auto simp: kv_inv_def data_inv_def kv_get_def)
  then have "kv_get kv ''a'' = Some val" by (simp add: latest_def hist_of_def)
  moreover have "snd (snd (kv_get_at ?srt kv fs ''a'' 1)) = None"
    using r(2-5) by (simp add: kv_get_at_def drain_completed_flushes_def drain_loop_none memtable_get_at_def
        lookup_entries_def not_found_def)
  ultimately show ?thesis using r(1) v by (metis option.distinct(1))
qed

text \<open>
  Key listing: \<^verbatim>\<open>list_keys_with_prefix\<close> returns every live key with the prefix exactly once, and \<^verbatim>\<open>size\<close> is
  the number of live keys.
\<close>

theorem store_list_keys:
  assumes "std_sort srt" "kv_run srt wpath H kv fs"
  shows "set (list_keys_with_prefix pre kv) = {k. latest H k \<noteq> None \<and> has_prefix pre k}
    \<and> distinct (list_keys_with_prefix pre kv) \<and> kv_size kv = card {k. latest H k \<noteq> None}"
proof -
  have m: "distinct (map fst (kv_map kv))" "\<forall>k. map_of (kv_map kv) k = latest H k"
    using kv_run_inv [OF assms] by (auto simp: kv_inv_def data_inv_def)
  have "fst ` set (kv_map kv) = {k. latest H k \<noteq> None}"
    using m(2) by (auto simp: map_of_eq_None_iff simp flip: m(2) dom_def dom_map_of_conv_image_fst)
  then show ?thesis
    using m(1) distinct_card [OF m(1)] by (auto simp: list_keys_with_prefix_def kv_size_def)
qed

theorem store_list_keys_witness:
  "\<exists>kv fs. kv_run (sort_key ver_timestamp) ''w'' example_history kv fs
     \<and> set (list_keys_with_prefix [] kv) = {k. latest example_history k \<noteq> None \<and> has_prefix [] k}"
proof -
  obtain kv fs where r: "kv_run (sort_key ver_timestamp) ''w'' example_history kv fs"
    using example_run by blast
  from store_list_keys [OF stable_sort.std_sort_axioms r] r show ?thesis by blast
qed

end
