(* ===== verification/Kv_Recovery.thy ===== *)
theory Kv_Recovery
  imports Kv_System
begin

text \<open>
  What a store knows after a crash: the reopened store shows a prefix of the accepted writes, snapshot reads
  survive, and what the group commit makes durable; the exceptions, in which opening goes wrong.
\<close>

section \<open>Reachable states and their log\<close>

lemma log_of_run:
  assumes "std_sort srt" "kv_run srt wpath H kv fs"
  obtains tabs fl F B where "kv_inv H tabs fl kv fs" "log_inv wpath F B kv fs" "F @ B = H"
    "length B = length (wal_buffer (kv_wal kv))" "hist_ok F (kv_seq kv)"
proof -
  obtain tabs fl F B where *: "kv_inv H tabs fl kv fs" "log_inv wpath F B kv fs" "F @ B = H"
    using kv_run_inv [OF assms] by blast
  moreover have "length B = length (wal_buffer (kv_wal kv))" using *(2) by (simp add: log_inv_def)
  moreover have "hist_ok F (kv_seq kv)" using *(1,3) by (auto simp: kv_inv_def data_inv_def hist_ok_def sorted_wrt_append)
  ultimately show thesis by (rule that)
qed

lemma recovered_prefix:
  assumes "std_sort srt" "kv_run srt wpath H kv fs" "kv_open srt kv_init fs wpath = (kv', fs', ok)"
  shows "ok \<and> (\<exists>F B. F @ B = H \<and> length B = length (wal_buffer (kv_wal kv))
    \<and> (\<forall>key. kv_get kv' key = latest F key) \<and> kv_seq kv' = last_seq F)"
proof -
  obtain tabs fl F B where i: "kv_inv H tabs fl kv fs" "log_inv wpath F B kv fs" "F @ B = H"
    "length B = length (wal_buffer (kv_wal kv))"
    by (rule log_of_run [OF assms(1,2)])
  have l: "fs_files fs snapshot_file = None" "fs_content fs wpath = concat (map (wal_encode \<circ> version_record) F)"
    "\<forall>op\<in>set F. wal_ok (version_record op)"
    using i(2) by (auto simp: log_inv_def)
  obtain w fs2 kv4 kv5 b where o: "maybe_compact_sstables srt kv4 fs2 = (kv5, fs', b)" ok
    "kv4 = (fold restore F (kv_init\<lparr>kv_wal := wal_init\<lparr>wal_path := wpath, wal_open := True,
         wal_pos := length (fs_content fs wpath)\<rparr>\<rparr>))\<lparr>kv_wal := w, kv_seq := last_seq F, kv_opened := True,
         kv_manifest := manifest_file, kv_paths := load_sstables fs manifest_file,
         kv_next_id := max_sstable_id (load_sstables fs manifest_file)\<rparr>"
    "kv' = kv5\<lparr>kv_worker := worker_start (kv_worker kv5), kv_next_id := word_of_nat (length (kv_paths kv5))\<rparr>"
    using open_recovers [OF kv_inv_sound [OF i(1)] load_no_snapshot [OF l(1)] l(2,3) assms(3)] by blast
  have "kv_map kv' = kv_map kv4" "kv_seq kv' = last_seq F"
    using maybe_compact_fields [OF o(1)] o(3,4) by auto
  moreover have "map_of (kv_map kv4) = latest F"
    using fold_restore_map [of _ F] by (simp add: o(3) kv_init_def)
  ultimately show ?thesis using o(2) i(3,4) by (auto simp: kv_get_def)
qed

section \<open>Properties\<close>

text \<open>
  C1. Crash recovery: stop the process in any state of a run of the store (\<^const>\<open>kv_run\<close>: a working disk, no checkpoint, the
  process stops between critical sections, not inside a write to the log, and earlier restarts neither found a table
  with writes of a lost buffer nor gave out the id of a table in use) and open the store on the files it left: this
  succeeds and shows the values after a prefix of the accepted writes, missing exactly the writes that were
  still in the log buffer; new writes continue after the last recovered sequence number.
\<close>

theorem crash_recovery_prefix:
  assumes "std_sort srt" "kv_run srt wpath H kv fs" "kv_open srt kv_init fs wpath = (kv', fs', ok)"
  shows "ok \<and> (\<exists>F B. F @ B = H \<and> length B = length (wal_buffer (kv_wal kv))
    \<and> (\<forall>key. kv_get kv' key = latest F key) \<and> kv_seq kv' = last_seq F)"
  by (rule recovered_prefix [OF assms])

theorem crash_recovery_prefix_witness:
  "\<exists>kv fs kv' fs'. kv_run (sort_key ver_timestamp) ''w'' example_history kv fs
     \<and> kv_open (sort_key ver_timestamp) kv_init fs ''w'' = (kv', fs', True)
     \<and> (\<exists>F B. F @ B = example_history \<and> length B = length (wal_buffer (kv_wal kv)) \<and> (\<forall>key. kv_get kv' key = latest F key))"
proof -
  obtain kv fs where r: "kv_run (sort_key ver_timestamp) ''w'' example_history kv fs" using example_run by blast
  obtain kv' fs' ok where o: "kv_open (sort_key ver_timestamp) kv_init fs ''w'' = (kv', fs', ok)" by (metis prod_cases3)
  note c = crash_recovery_prefix [OF stable_sort.std_sort_axioms r o]
  then have "ok" by (rule conjunct1)
  with c r o show ?thesis
    by (intro exI [of _ kv] exI [of _ fs] exI [of _ kv'] exI [of _ fs']) auto
qed

text \<open>
  C11. Snapshot reads survive a crash: when the log buffer was empty at the crash, every \<^verbatim>\<open>get_at\<close> of the reopened
  store answers from the whole history, although the replayed versions may also be in on-disk tables, a
  flush may have been under way, and opening may have merged tables.
\<close>

theorem crash_recovery_snapshots:
  assumes srt: "std_sort srt" and r: "kv_run srt wpath H kv fs" and buf: "wal_buffer (kv_wal kv) = []"
    and ids: "unat (max_sstable_id (load_sstables fs manifest_file)) + length (load_sstables fs manifest_file) + 2 < 2 ^ 64"
    and run: "kv_open srt kv_init fs wpath = (kv', fs', ok)"
  shows "snd (snd (kv_get_at srt kv' fs' key t)) = value_at H key t"
proof -
  obtain tabs fl F B where i: "kv_inv H tabs fl kv fs" "log_inv wpath F B kv fs" "F @ B = H"
    "length B = length (wal_buffer (kv_wal kv))"
    by (rule log_of_run [OF srt r])
  have "B = []" "F = H" using i(3,4) buf by simp_all
  then obtain T kv5 where "kv' = kv5\<lparr>kv_worker := worker_start (kv_worker kv5), kv_next_id := word_of_nat (length (kv_paths kv5))\<rparr>"
    "tables_inv H T kv5 fs'" "kv_immutable kv5 = None" "kv_worker kv5 = worker_init"
    using reopened_tables [OF srt i(1-3) _ ids run] by blast
  then show ?thesis using started_reads by blast
qed

text \<open>The example run with its log flushed.\<close>

lemma example_flushed_run:
  "\<exists>kv fs. kv_run (sort_key ver_timestamp) ''w'' example_history kv fs \<and> wal_buffer (kv_wal kv) = []
     \<and> load_sstables fs manifest_file = []"
proof -
  let ?srt = "sort_key ver_timestamp"
  obtain kv fs where r: "kv_run ?srt ''w'' example_history kv fs" "in_work (kv_worker kv) = []"
    "fw_completions (kv_worker kv) = []" "kv_paths kv = []"
    using example_run by blast
  obtain w fs1 ok where f: "wal_flush (kv_wal kv) fs = (w, fs1, ok)" by (metis prod_cases3)
  let ?kv = "kv\<lparr>kv_wal := w\<rparr>"
  have r1: "kv_run ?srt ''w'' example_history ?kv fs1"
    by (rule kv_run.Flush_wal [OF r(1)]) (simp add: kv_flush_wal_def f)
  obtain tabs fl F B where i: "kv_inv example_history tabs fl kv fs" "log_inv ''w'' F B kv fs"
    using kv_run_inv [OF stable_sort.std_sort_axioms r(1)] by blast
  have "kv_inv example_history tabs fl ?kv fs1" "log_inv ''w'' (F @ B) [] ?kv fs1"
    using wal_flush_inv [OF i f] by auto
  then have "wal_buffer (kv_wal ?kv) = []" "load_sstables fs1 manifest_file = []"
    using r(2-4) by (auto simp: log_inv_def kv_inv_def flight_inv_def)
  with r1 show ?thesis by blast
qed

theorem crash_recovery_snapshots_witness:
  "\<exists>kv fs kv' fs'. kv_run (sort_key ver_timestamp) ''w'' example_history kv fs
     \<and> kv_open (sort_key ver_timestamp) kv_init fs ''w'' = (kv', fs', True)
     \<and> kv_run (sort_key ver_timestamp) ''w'' example_history kv' fs'
     \<and> snd (snd (kv_get_at (sort_key ver_timestamp) kv' fs' ''a'' 7)) = Some ''x''"
proof -
  let ?srt = "sort_key ver_timestamp"
  obtain kv fs where r: "kv_run ?srt ''w'' example_history kv fs" "wal_buffer (kv_wal kv) = []" "load_sstables fs manifest_file = []"
    using example_flushed_run by blast
  obtain tabs fl F B where i: "kv_inv example_history tabs fl kv fs" "log_inv ''w'' F B kv fs"
    using kv_run_inv [OF stable_sort.std_sort_axioms r(1)] by blast
  obtain kv' fs' ok where o: "kv_open ?srt kv_init fs ''w'' = (kv', fs', ok)" by (metis prod_cases3)
  then have "ok" "kv_paths kv' = []"
    using open_recovers [OF kv_inv_sound [OF i(1)] load_no_snapshot _ _ o, of F] i(2) r(3)
    by (auto simp: log_inv_def maybe_compact_sstables_def kCompactionTrigger_def)
  moreover have ids: "unat (max_sstable_id (load_sstables fs manifest_file)) + length (load_sstables fs manifest_file) + 2 < 2 ^ 64"
    by (simp add: r(3) max_sstable_id_def)
  moreover have "snd (snd (kv_get_at ?srt kv' fs' ''a'' 7)) = Some ''x''"
    using crash_recovery_snapshots [OF stable_sort.std_sort_axioms r(1,2) ids o, of "''a''" 7]
    by (simp add: example_history_def value_at_def hist_of_def visible_def value_of_def)
  moreover have "kv_run ?srt ''w'' example_history kv' fs'"
    using kv_run.Restart [OF r(1) disjI1 [OF r(2)] ids o] \<open>kv_paths kv' = []\<close> r(2) by simp
  ultimately show ?thesis using r(1) o
    by (intro exI [of _ kv] exI [of _ fs] exI [of _ kv'] exI [of _ fs']) auto
qed

text \<open>
  C12. The group commit is a durability boundary: when no flush is pending, a put whose sequence number is a
  multiple of the group size leaves the whole history, itself included, in the log file.
\<close>

theorem group_commit_durable:
  assumes "std_sort srt" "kv_run srt wpath H kv fs" "kv_limits kv" "key_ok key" "value_ok val"
    "length key < 2 ^ 32" "length val < 2 ^ 32" "kv_immutable kv = None"
    "(kv_seq kv + 1) mod word_of_int (kv_group kv) = 0" "kv_put kv fs key val = (kv', fs')"
  shows "decode_all wal_next (fs_content fs' wpath)
    = map version_record (H @ [(key, \<lparr>ver_timestamp = kv_seq kv + 1, ver_value = Some val\<rparr>)])"
proof -
  let ?op = "(key, \<lparr>ver_timestamp = kv_seq kv + 1, ver_value = Some val\<rparr>)"
  obtain tabs fl F B where i: "kv_inv H tabs fl kv fs" "log_inv wpath F B kv fs" "F @ B = H"
    using kv_run_inv [OF assms(1,2)] by blast
  obtain F' B' where l: "log_inv wpath F' B' kv' fs'" "F' @ B' = F @ B @ [?op]" "B' = []"
    using kv_put_inv [OF i(1,2) assms(3-7,10)] assms(8,9) by blast
  then have "F' = H @ [?op]" using i(3) by simp
  with l have c: "fs_content fs' wpath = concat (map wal_encode (map version_record (H @ [?op])))"
    and ok: "\<forall>r\<in>set (map version_record (H @ [?op])). wal_ok r"
    by (auto simp: log_inv_def)
  show ?thesis
    unfolding c using wal_fmt.decode_all_concat [OF ok, of "[]"] wal_fmt.decode_all_stop [OF wal_next_Nil] by simp
qed

theorem group_commit_durable_witness:
  "\<exists>kv fs kv' fs'. kv_run (sort_key ver_timestamp) ''w'' example_history kv fs
     \<and> kv_put (set_group_commit_every 1 kv) fs ''b'' ''y'' = (kv', fs')
     \<and> decode_all wal_next (fs_content fs' ''w'') = map version_record (example_history @
         [(''b'', \<lparr>ver_timestamp = kv_seq kv + 1, ver_value = Some ''y''\<rparr>)])"
proof -
  let ?srt = "sort_key ver_timestamp"
  obtain kv fs where r: "kv_run ?srt ''w'' example_history kv fs" "kv_limits kv" "in_work (kv_worker kv) = []"
    "fw_completions (kv_worker kv) = []"
    using example_run by blast
  let ?kv = "set_group_commit_every 1 kv"
  have r1: "kv_run ?srt ''w'' example_history ?kv fs" by (rule kv_run.Group [OF r(1)]) simp
  have k: "kv_limits ?kv" "kv_seq ?kv = kv_seq kv" "kv_group ?kv = 1"
    using r(2) by (simp_all add: set_group_commit_every_def kv_limits_def)
  have "kv_immutable ?kv = None"
    using kv_run_inv [OF stable_sort.std_sort_axioms r1] r(3,4)
    by (auto simp: kv_inv_def flight_inv_def set_group_commit_every_def)
  moreover obtain kv' fs' where p: "kv_put ?kv fs ''b'' ''y'' = (kv', fs')" by fastforce
  ultimately show ?thesis
    using group_commit_durable [OF stable_sort.std_sort_axioms r1 k(1) _ _ _ _ _ _ p] r(1) k(2,3)
    by (intro exI [of _ kv] exI [of _ fs] exI [of _ kv'] exI [of _ fs'])
      (simp add: key_ok_def value_ok_def is_space_def)
qed

text \<open>
  Opening can give out the name of a live table: with a manifest that lists three tables after a
  compaction, the id computed from the names is replaced by the number of tables, and the next flush will
  write over a table that is in use.
\<close>

theorem open_reuses_table_name:
  "\<exists>kv fs. kv_open srt kv_init
      (fs_empty\<lparr>fs_files := [manifest_file \<mapsto> put_lines [compact_path 4, flush_path 2, flush_path 3]]\<rparr>) ''w'' = (kv, fs, True)
    \<and> flush_path (kv_next_id kv) \<in> set (kv_paths kv)"
proof -
  let ?fs = "fs_empty\<lparr>fs_files := [manifest_file \<mapsto> put_lines [compact_path 4, flush_path 2, flush_path 3]]\<rparr>"
  have l: "load_sstables ?fs manifest_file = [compact_path 4, flush_path 2, flush_path 3]"
    by (rule load_listed) (auto simp: manifest_lists_def fs_content_def manifest_file_def
        intro!: store_path_ok(1) simp: store_path_def)
  have w: "''w'' \<noteq> manifest_file" by (simp add: manifest_file_def)
  obtain kv fs ok where o: "kv_open srt kv_init ?fs ''w'' = (kv, fs, ok)" by (metis prod_cases3)
  have "fs_files ?fs snapshot_file = None" "fs_content ?fs ''w'' = []"
    using w by (simp_all add: snapshot_file_def manifest_file_def fs_content_def fs_empty_def)
  then obtain kv4 kv5 fs2 b where m: "maybe_compact_sstables srt kv4 fs2 = (kv5, fs, b)" ok
    "kv_paths kv4 = [compact_path 4, flush_path 2, flush_path 3]"
    "kv = kv5\<lparr>kv_worker := worker_start (kv_worker kv5), kv_next_id := word_of_nat (length (kv_paths kv5))\<rparr>"
    using open_recovers [OF _ load_no_snapshot _ _ o, of "[]"] l by (auto simp: fs_sound_def fs_empty_def)
  then have "kv5 = kv4" by (auto simp: maybe_compact_sstables_def kCompactionTrigger_def)
  with m o show ?thesis by auto
qed

text \<open>
  A checkpoint restarts the sequence numbers: opening with an empty log sets \<^verbatim>\<open>seq_\<close> to 0, whatever
  timestamps the snapshot file restored.
\<close>

theorem open_empty_log_restarts_seq:
  assumes "fs_sound fs" "fs_content fs wpath = []" "kv_open srt kv_init fs wpath = (kv, fs', ok)"
  shows "ok \<and> kv_seq kv = 0"
proof -
  obtain kv1 b where l: "load_from_file kv_init fs snapshot_file = (kv1, b)" by fastforce
  have kv1: "kv_wal kv1 = wal_init" "kv_opened kv1 = False"
    using load_from_file_fields [OF l] by (simp_all add: kv_init_def)
  obtain fs1 where w: "wal_open_file wal_init fs wpath = (wal_init\<lparr>wal_path := wpath, wal_open := True,
      wal_pos := length (fs_content fs wpath)\<rparr>, fs1, True)" "fs_sound fs1" "fs_content fs1 wpath = []"
    using wal_reopen [OF assms(1)] assms(2) by metis
  obtain fs2 where m: "manifest_open fs1 (kv_manifest_path kv1) = (fs2, True)" using manifest_open_sound [OF w(2)] by blast
  show ?thesis
    using assms(3) l w m kv1
    by (auto simp: kv_open_def kv_init_def replay_into_def replay_loop_stop Let_def split: prod.splits
        dest!: maybe_compact_fields)
qed

text \<open>A snapshot with a version of timestamp 7 and an empty log.\<close>

theorem open_empty_log_restarts_seq_witness:
  "\<exists>kv fs. kv_open (sort_key ver_timestamp) kv_init (fs_empty\<lparr>fs_files := [snapshot_file \<mapsto>
      sst_format [(''a'', [\<lparr>ver_timestamp = 7, ver_value = Some ''x''\<rparr>])]]\<rparr>) ''w'' = (kv, fs, True) \<and> kv_seq kv = 0"
proof -
  let ?fs = "fs_empty\<lparr>fs_files := [snapshot_file \<mapsto> sst_format [(''a'', [\<lparr>ver_timestamp = 7, ver_value = Some ''x''\<rparr>])]]\<rparr>"
  obtain kv fs ok where o: "kv_open (sort_key ver_timestamp) kv_init ?fs ''w'' = (kv, fs, ok)" by (metis prod_cases3)
  from open_empty_log_restarts_seq [OF _ _ o] o show ?thesis
    by (auto simp: fs_content_def snapshot_file_def)
qed

text \<open>
  Snapshot round trip: what \<^verbatim>\<open>save_to_file\<close> writes, \<^verbatim>\<open>load_from_file\<close> reads back: the active table answers
  every read as before, the map holds the newest value of every key of the table, and \<^verbatim>\<open>seq_\<close> is at least
  every timestamp.
\<close>

theorem snapshot_roundtrip:
  assumes "fs_sound fs" "table_ok (mt_entries (kv_memtable kv))" "save_to_file kv fs path = (fs', saved)"
    "load_from_file kv0 fs' path = (kv', loaded)"
  shows "saved \<and> loaded
    \<and> (\<forall>key t. memtable_get_at (kv_memtable kv') key t = memtable_get_at (kv_memtable kv) key t)
    \<and> (\<forall>key. kv_get kv' key = latest (rows_of (mt_entries (kv_memtable kv))) key)
    \<and> (\<forall>(key, v)\<in>set (rows_of (mt_entries (kv_memtable kv))). ver_timestamp v \<le> kv_seq kv')"
proof -
  let ?es = "mt_entries (kv_memtable kv)"
  let ?kv0 = "kv0\<lparr>kv_map := [], kv_memtable := memtable_clear (kv_memtable kv0)\<rparr>"
  have sk: "sorted_keys ?es" using assms(2) by (simp add: table_ok_def)
  have saved: "saved" "fs_files fs' path = Some (text_of (rows_of ?es))"
    using assms(1,3) by (auto simp: save_to_file_def snapshot_entries_def fs_rules sst_format_rows text_of_def)
  note ll = load_table [OF saved(2) assms(2), of kv0]
  have kv': "kv' = (fold restore (rows_of ?es) ?kv0)\<lparr>kv_seq :=
      fold (\<lambda>(k, v) m. max m (ver_timestamp v)) (rows_of ?es) (kv_seq kv0)\<rparr>" and loaded: "loaded"
    using assms(4) ll by auto
  have "vers (mt_entries (kv_memtable kv')) key = vers ?es key" for key
    using fold_restore_vers [of ?kv0 "rows_of ?es" key] filter_rows [OF sk, of key]
    by (simp add: kv' memtable_clear_def hist_of_def o_def)
  moreover have "kv_get kv' key = latest (rows_of ?es) key" for key
    using fold_restore_map [of ?kv0 "rows_of ?es"] by (simp add: kv' kv_get_def)
  moreover have "\<forall>(key, v)\<in>set (rows_of ?es). ver_timestamp v \<le> kv_seq kv'"
    using fold_max_ts [of "rows_of ?es" "kv_seq kv0"] by (simp add: kv')
  ultimately show ?thesis using saved(1) loaded by (simp add: memtable_get_at_visible)
qed

end
