(* ===== verification/Object_Store.thy ===== *)
theory Object_Store
  imports Kv_Store
begin

text \<open>
  The object store over the key-value store (\<^verbatim>\<open>src/object_store.cpp\<close>, \<^verbatim>\<open>include/kv/object_store*.h\<close>): buckets,
  objects cut into chunks, metadata as a line of tab-separated fields, listing, logical deletion and the
  collection of unreferenced chunks.

  Object data is a string of bytes.  The clock readings of an operation and the function \<^verbatim>\<open>std::hash\<close>
  computes are arguments.  The unused vector \<^verbatim>\<open>chunks\<close> of the metadata is left out.
\<close>

section \<open>Types\<close>

text \<open>\<^verbatim>\<open>ObjectState\<close> is an enumeration over \<^verbatim>\<open>std::uint8_t\<close>: a value read back from text can be any byte.\<close>

type_synonym object_state = "8 word"

definition ObjPending :: object_state where "ObjPending = 0"
definition ObjCommitted :: object_state where "ObjCommitted = 1"
definition ObjDeleted :: object_state where "ObjDeleted = 2"

record bucket_metadata =
  bm_name :: string
  bm_created :: u64

record object_metadata =
  om_id :: string
  om_bucket :: string
  om_key :: string
  om_size :: u64
  om_chunk_count :: u32
  om_chunk_size :: u32
  om_content_type :: string
  om_etag :: string
  om_created :: u64
  om_updated :: u64
  om_state :: object_state

definition metadata_default :: object_metadata where
  "metadata_default = \<lparr>om_id = [], om_bucket = [], om_key = [], om_size = 0, om_chunk_count = 0, om_chunk_size = 0,
     om_content_type = ''application/octet-stream'', om_etag = [], om_created = 0, om_updated = 0, om_state = ObjCommitted\<rparr>"

record put_object_request =
  pr_bucket :: string
  pr_key :: string
  pr_data :: string
  pr_content_type :: string

record put_object_result =
  po_ok :: bool
  po_error :: string
  po_id :: string
  po_size :: u64
  po_chunk_count :: u32
  po_etag :: string

record get_object_result =
  go_found :: bool
  go_error :: string
  go_metadata :: object_metadata
  go_data :: string

record object_list_entry =
  oe_key :: string
  oe_size :: u64
  oe_content_type :: string
  oe_etag :: string
  oe_updated :: u64

record list_objects_result =
  lo_ok :: bool
  lo_error :: string
  lo_objects :: "object_list_entry list"

record delete_object_result =
  do_ok :: bool
  do_error :: string

section \<open>Keys\<close>

definition BucketMetaKey :: "string \<Rightarrow> string" where
  "BucketMetaKey bucket = ''bucket:'' @ bucket"

definition ObjectMetaKey :: "string \<Rightarrow> string \<Rightarrow> string" where
  "ObjectMetaKey bucket key = ''objmeta:'' @ bucket @ '':'' @ key"

definition BucketIndexKey :: "string \<Rightarrow> string \<Rightarrow> string" where
  "BucketIndexKey bucket key = ''bucketidx:'' @ bucket @ '':'' @ key"

definition ChunkKey :: "string \<Rightarrow> u32 \<Rightarrow> string" where
  "ChunkKey object_id index = ''objchunk:'' @ object_id @ '':'' @ show_nat (unat index)"

section \<open>Identifiers and metadata lines\<close>

definition compute_etag :: "(string \<Rightarrow> u64) \<Rightarrow> string \<Rightarrow> string" where
  "compute_etag hash data = show_hex (unat (hash data))"

definition make_object_id :: "string \<Rightarrow> string \<Rightarrow> u64 \<Rightarrow> string" where
  "make_object_id bucket key now_ms = bucket @ '':'' @ key @ '':'' @ show_nat (unat now_ms)"

definition serialize_metadata :: "object_metadata \<Rightarrow> string" where
  "serialize_metadata m = om_id m @ TAB # om_bucket m @ TAB # om_key m @ TAB # show_nat (unat (om_size m))
     @ TAB # show_nat (unat (om_chunk_count m)) @ TAB # show_nat (unat (om_chunk_size m)) @ TAB # om_content_type m
     @ TAB # om_etag m @ TAB # show_nat (unat (om_created m)) @ TAB # show_nat (unat (om_updated m))
     @ TAB # show_nat (unat (om_state m))"

text \<open>The eleven \<^verbatim>\<open>getline\<close>s, then the conversions, each of which may throw; \<^verbatim>\<open>unsigned long\<close> has 64 bits.\<close>

fun getfields :: "nat \<Rightarrow> string \<Rightarrow> string list option" where
  "getfields 0 s = Some []"
| "getfields (Suc n) s =
     (case getfield TAB s of
        None \<Rightarrow> None
      | Some (f, r) \<Rightarrow> map_option ((#) f) (getfields n r))"

definition metadata_of_fields :: "string list \<Rightarrow> object_metadata option" where
  "metadata_of_fields fs =
     (case fs of
        [object_id, bucket, key, size_bytes, chunk_count, chunk_size_bytes, content_type, etag, created_at, updated_at, state_str] \<Rightarrow>
          (case (stoull size_bytes, stoull chunk_count, stoull chunk_size_bytes, stoull created_at, stoull updated_at, stoi state_str) of
             (Some sz, Some cc, Some cs, Some cr, Some up, Some st) \<Rightarrow>
               Some \<lparr>om_id = object_id, om_bucket = bucket, om_key = key, om_size = sz, om_chunk_count = ucast cc,
                     om_chunk_size = ucast cs, om_content_type = content_type, om_etag = etag, om_created = cr,
                     om_updated = up, om_state = word_of_int st\<rparr>
           | _ \<Rightarrow> None)
      | _ \<Rightarrow> None)"

definition deserialize_metadata :: "string \<Rightarrow> object_metadata option" where
  "deserialize_metadata s = (case getfields 11 s of None \<Rightarrow> None | Some fs \<Rightarrow> metadata_of_fields fs)"

definition serialize_bucket_meta :: "bucket_metadata \<Rightarrow> string" where
  "serialize_bucket_meta b = bm_name b @ TAB # show_nat (unat (bm_created b))"

definition deserialize_bucket_meta :: "string \<Rightarrow> bucket_metadata option" where
  "deserialize_bucket_meta s =
     (case getfields 2 s of
        Some [name, created_at] \<Rightarrow>
          (case stoull created_at of None \<Rightarrow> None | Some t \<Rightarrow> Some \<lparr>bm_name = name, bm_created = t\<rparr>)
      | _ \<Rightarrow> None)"

section \<open>The store below\<close>

text \<open>The calls on \<^verbatim>\<open>kv_\<close>, over the store together with its files.\<close>

type_synonym kvs = "kv_store \<times> fsys"

definition kvs_get :: "kvs \<Rightarrow> string \<Rightarrow> string option" where
  "kvs_get s k = kv_get (fst s) k"

definition kvs_put :: "kvs \<Rightarrow> string \<Rightarrow> string \<Rightarrow> kvs" where
  "kvs_put s k v = kv_put (fst s) (snd s) k v"

definition kvs_del :: "kvs \<Rightarrow> string \<Rightarrow> kvs \<times> bool" where
  "kvs_del s k = (let (kv, fs, ok) = kv_del (fst s) (snd s) k in ((kv, fs), ok))"

definition kvs_flush :: "kvs \<Rightarrow> kvs \<times> bool" where
  "kvs_flush s = (let (kv, fs, ok) = kv_flush_wal (fst s) (snd s) in ((kv, fs), ok))"

definition kvs_keys :: "kvs \<Rightarrow> string \<Rightarrow> string list" where
  "kvs_keys s pre = list_keys_with_prefix pre (fst s)"

section \<open>Operations\<close>

definition object_store_chunk_size :: "u32 \<Rightarrow> u32" where
  "object_store_chunk_size n = (if n = 0 then 4096 else n)"

definition BucketExists :: "kvs \<Rightarrow> string \<Rightarrow> bool" where
  "BucketExists s bucket \<longleftrightarrow> bucket \<noteq> [] \<and> kvs_get s (BucketMetaKey bucket) \<noteq> None"

definition CreateBucket :: "u64 \<Rightarrow> kvs \<Rightarrow> string \<Rightarrow> kvs \<times> bool" where
  "CreateBucket now_ms s bucket =
     (if bucket = [] then (s, False)
      else if kvs_get s (BucketMetaKey bucket) \<noteq> None then (s, True)
      else (kvs_put s (BucketMetaKey bucket) (serialize_bucket_meta \<lparr>bm_name = bucket, bm_created = now_ms\<rparr>), True))"

text \<open>The chunk with index \<open>i\<close>, and the number of chunks, which is cut to 32 bits.\<close>

definition chunk_at :: "u32 \<Rightarrow> string \<Rightarrow> nat \<Rightarrow> string" where
  "chunk_at cs data i =
     (let start = i * unat cs; stop = min (start + unat cs) (length data) in substr data start (stop - start))"

definition chunk_count_of :: "u32 \<Rightarrow> string \<Rightarrow> u32" where
  "chunk_count_of cs data = word_of_nat ((length data + unat cs - 1) div unat cs)"

definition write_chunks :: "u32 \<Rightarrow> string \<Rightarrow> string \<Rightarrow> kvs \<Rightarrow> kvs" where
  "write_chunks cs object_id data s =
     foldl (\<lambda>s i. kvs_put s (ChunkKey object_id (word_of_nat i)) (chunk_at cs data i)) s [0..<unat (chunk_count_of cs data)]"

definition put_failed :: "string \<Rightarrow> put_object_result" where
  "put_failed msg = \<lparr>po_ok = False, po_error = msg, po_id = [], po_size = 0, po_chunk_count = 0, po_etag = []\<rparr>"

text \<open>The clock is read for the id, then again for the timestamps.\<close>

definition put_metadata :: "u32 \<Rightarrow> (string \<Rightarrow> u64) \<Rightarrow> u64 \<Rightarrow> u64 \<Rightarrow> put_object_request \<Rightarrow> object_metadata" where
  "put_metadata cs hash id_ms now_ms req =
     \<lparr>om_id = make_object_id (pr_bucket req) (pr_key req) id_ms, om_bucket = pr_bucket req, om_key = pr_key req,
      om_size = word_of_nat (length (pr_data req)), om_chunk_count = chunk_count_of cs (pr_data req), om_chunk_size = cs,
      om_content_type = pr_content_type req, om_etag = compute_etag hash (pr_data req), om_created = now_ms,
      om_updated = now_ms, om_state = ObjCommitted\<rparr>"

definition PutObject ::
  "u32 \<Rightarrow> (string \<Rightarrow> u64) \<Rightarrow> u64 \<Rightarrow> u64 \<Rightarrow> kvs \<Rightarrow> put_object_request \<Rightarrow> kvs \<times> put_object_result" where
  "PutObject cs hash id_ms now_ms s req =
     (if pr_bucket req = [] then (s, put_failed ''bucket is empty'')
      else if pr_key req = [] then (s, put_failed ''object key is empty'')
      else if \<not> BucketExists s (pr_bucket req) then (s, put_failed ''bucket does not exist'')
      else let meta = put_metadata cs hash id_ms now_ms req;
               s1 = write_chunks cs (om_id meta) (pr_data req) s;
               s2 = kvs_put s1 (ObjectMetaKey (pr_bucket req) (pr_key req)) (serialize_metadata meta);
               s3 = kvs_put s2 (BucketIndexKey (pr_bucket req) (pr_key req)) (om_id meta);
               (s4, flushed) = kvs_flush s3
           in if \<not> flushed then (s4, put_failed ''failed to flush WAL'')
              else (s4, \<lparr>po_ok = True, po_error = [], po_id = om_id meta, po_size = om_size meta,
                         po_chunk_count = om_chunk_count meta, po_etag = om_etag meta\<rparr>))"

definition get_failed :: "string \<Rightarrow> object_metadata \<Rightarrow> get_object_result" where
  "get_failed msg m = \<lparr>go_found = False, go_error = msg, go_metadata = m, go_data = []\<rparr>"

text \<open>The loop over the chunk indices: \<^const>\<open>Inl\<close> is the first missing index.\<close>

fun read_chunks :: "kvs \<Rightarrow> string \<Rightarrow> nat list \<Rightarrow> string \<Rightarrow> nat + string" where
  "read_chunks s object_id [] data = Inr data"
| "read_chunks s object_id (i # is) data =
     (case kvs_get s (ChunkKey object_id (word_of_nat i)) of
        None \<Rightarrow> Inl i
      | Some chunk \<Rightarrow> read_chunks s object_id is (data @ chunk))"

definition GetObject :: "kvs \<Rightarrow> string \<Rightarrow> string \<Rightarrow> get_object_result" where
  "GetObject s bucket key =
     (case kvs_get s (ObjectMetaKey bucket key) of
        None \<Rightarrow> get_failed ''object metadata not found'' metadata_default
      | Some raw_meta \<Rightarrow>
          (case deserialize_metadata raw_meta of
             None \<Rightarrow> get_failed ''failed to deserialize object metadata'' metadata_default
           | Some meta \<Rightarrow>
               if om_state meta = ObjDeleted then get_failed ''object is deleted'' metadata_default
               else (case read_chunks s (om_id meta) [0..<unat (om_chunk_count meta)] [] of
                       Inl i \<Rightarrow> get_failed (''missing object chunk at index '' @ show_nat i) meta
                     | Inr data \<Rightarrow> \<lparr>go_found = True, go_error = [], go_metadata = meta, go_data = data\<rparr>)))"

definition DeleteObject :: "u64 \<Rightarrow> kvs \<Rightarrow> string \<Rightarrow> string \<Rightarrow> kvs \<times> delete_object_result" where
  "DeleteObject now_ms s bucket key =
     (case kvs_get s (ObjectMetaKey bucket key) of
        None \<Rightarrow> (s, \<lparr>do_ok = False, do_error = ''object metadata not found''\<rparr>)
      | Some raw_meta \<Rightarrow>
          (case deserialize_metadata raw_meta of
             None \<Rightarrow> (s, \<lparr>do_ok = False, do_error = ''failed to deserialize object metadata''\<rparr>)
           | Some meta \<Rightarrow>
               let s1 = kvs_put s (ObjectMetaKey bucket key) (serialize_metadata (meta\<lparr>om_state := ObjDeleted, om_updated := now_ms\<rparr>));
                   (s2, _) = kvs_del s1 (BucketIndexKey bucket key);
                   (s3, flushed) = kvs_flush s2
               in if \<not> flushed then (s3, \<lparr>do_ok = False, do_error = ''failed to flush WAL''\<rparr>)
                  else (s3, \<lparr>do_ok = True, do_error = []\<rparr>)))"

text \<open>What one index key contributes to a listing.\<close>

definition list_entry :: "kvs \<Rightarrow> string \<Rightarrow> string \<Rightarrow> object_list_entry list" where
  "list_entry s bucket index_key =
     (let base_prefix = ''bucketidx:'' @ bucket @ '':''
      in if length index_key < length base_prefix then []
         else case kvs_get s (ObjectMetaKey bucket (drop (length base_prefix) index_key)) of
                None \<Rightarrow> []
              | Some raw_meta \<Rightarrow>
                  (case deserialize_metadata raw_meta of
                     None \<Rightarrow> []
                   | Some meta \<Rightarrow>
                       if om_state meta = ObjDeleted then []
                       else [\<lparr>oe_key = om_key meta, oe_size = om_size meta, oe_content_type = om_content_type meta,
                              oe_etag = om_etag meta, oe_updated = om_updated meta\<rparr>]))"

definition ListObjects :: "kvs \<Rightarrow> string \<Rightarrow> string \<Rightarrow> list_objects_result" where
  "ListObjects s bucket pre =
     (if bucket = [] then \<lparr>lo_ok = False, lo_error = ''bucket is empty'', lo_objects = []\<rparr>
      else if \<not> BucketExists s bucket then \<lparr>lo_ok = False, lo_error = ''bucket does not exist'', lo_objects = []\<rparr>
      else \<lparr>lo_ok = True, lo_error = [], lo_objects = concat (map (list_entry s bucket) (kvs_keys s (BucketIndexKey bucket pre)))\<rparr>)"

definition reachable_ids :: "kvs \<Rightarrow> string list" where
  "reachable_ids s = concat (map (\<lambda>meta_key.
     case kvs_get s meta_key of
       None \<Rightarrow> []
     | Some raw_meta \<Rightarrow>
         (case deserialize_metadata raw_meta of
            None \<Rightarrow> []
          | Some meta \<Rightarrow> if om_state meta = ObjCommitted then [om_id meta] else [])) (kvs_keys s ''objmeta:''))"

text \<open>The object id inside a chunk key, if the key has one.\<close>

definition chunk_object_id :: "string \<Rightarrow> string option" where
  "chunk_object_id chunk_key =
     (let pre = ''objchunk:''
      in case find_last_char chunk_key (CHR '':'') of
           None \<Rightarrow> None
         | Some last_colon \<Rightarrow>
             if last_colon \<le> length pre then None else Some (substr chunk_key (length pre) (last_colon - length pre)))"

definition gc_chunk :: "string list \<Rightarrow> kvs \<times> nat \<Rightarrow> string \<Rightarrow> kvs \<times> nat" where
  "gc_chunk ids = (\<lambda>(s, deleted_chunks) chunk_key.
     case chunk_object_id chunk_key of
       None \<Rightarrow> (s, deleted_chunks)
     | Some object_id \<Rightarrow>
         if object_id \<in> set ids then (s, deleted_chunks)
         else let (s', ok) = kvs_del s chunk_key in (s', if ok then deleted_chunks + 1 else deleted_chunks))"

definition GarbageCollectChunks :: "kvs \<Rightarrow> kvs \<times> nat" where
  "GarbageCollectChunks s =
     (let (s1, deleted_chunks) = foldl (gc_chunk (reachable_ids s)) (s, 0) (kvs_keys s ''objchunk:'');
          (s2, _) = kvs_flush s1
      in (s2, deleted_chunks))"

end
