(* ===== verification/Object_Laws.thy ===== *)
theory Object_Laws
  imports Object_Store Kv_Operations
begin

text \<open>
  Correctness of the object store.  What it uses of the key-value store is a contract over an abstract map
  from keys to values, which the model of the store fulfils.
\<close>

section \<open>The contract of the store below\<close>

locale key_value =
  fixes get :: "'s \<Rightarrow> string \<Rightarrow> string option"
    and put :: "'s \<Rightarrow> string \<Rightarrow> string \<Rightarrow> 's"
    and del :: "'s \<Rightarrow> string \<Rightarrow> 's \<times> bool"
    and flush :: "'s \<Rightarrow> 's \<times> bool"
    and keys :: "'s \<Rightarrow> string \<Rightarrow> string list"
    and ok :: "'s \<Rightarrow> bool"
  assumes put_ok: "ok s \<Longrightarrow> ok (put s k v)"
    and get_put: "ok s \<Longrightarrow> get (put s k v) = (get s)(k \<mapsto> v)"
    and del_ok: "ok s \<Longrightarrow> ok (fst (del s k))"
    and get_del: "ok s \<Longrightarrow> get (fst (del s k)) = (get s)(k := None)"
    and flush_ok: "ok s \<Longrightarrow> ok (fst (flush s))"
    and get_flush: "ok s \<Longrightarrow> get (fst (flush s)) = get s"
    and set_keys: "ok s \<Longrightarrow> set (keys s p) = {k. has_prefix p k \<and> get s k \<noteq> None}"
begin

lemma puts_ok: "ok s \<Longrightarrow> ok (foldl (\<lambda>s (k, v). put s k v) s ws)"
  by (induction ws arbitrary: s) (auto simp: put_ok)

lemma get_puts: "ok s \<Longrightarrow> get (foldl (\<lambda>s (k, v). put s k v) s ws) k = (get s ++ map_of (rev ws)) k"
proof (induction ws arbitrary: s)
  case (Cons x ws)
  then show ?case by (cases x) (auto simp: put_ok get_put map_add_def split: option.splits)
qed simp

lemma get_puts_other: "\<lbrakk>ok s; k \<notin> fst ` set ws\<rbrakk> \<Longrightarrow> get (foldl (\<lambda>s (k, v). put s k v) s ws) k = get s k"
  by (simp add: get_puts map_add_dom_app_simps(3) dom_map_of_conv_image_fst)

lemma get_puts_in:
  "\<lbrakk>ok s; distinct (map fst ws); (k, v) \<in> set ws\<rbrakk> \<Longrightarrow> get (foldl (\<lambda>s (k, v). put s k v) s ws) k = Some v"
  by (simp add: get_puts map_add_find_right rev_map [symmetric])

end

section \<open>The model of the store fulfils it\<close>

definition kvs_ok :: "kvs \<Rightarrow> bool" where
  "kvs_ok s \<longleftrightarrow> kv_opened (fst s) \<and> wal_open (kv_wal (fst s)) \<and> distinct (map fst (kv_map (fst s)))"

lemma write_loop_open: "flush_records rs w fs = (w', fs', b) \<Longrightarrow> wal_open w' = wal_open w"
  by (induction rs arbitrary: w fs w' fs' b) (auto simp: Let_def split: prod.splits if_splits)

lemma wal_flush_open: "wal_flush w fs = (w', fs', b) \<Longrightarrow> wal_open w' = wal_open w"
  by (auto simp: wal_flush_def Let_def split: if_splits prod.splits dest: write_loop_open)

lemma maybe_flush_fields:
  "maybe_flush_memtable kv = (kv', b) \<Longrightarrow> kv_map kv' = kv_map kv \<and> kv_opened kv' = kv_opened kv \<and> kv_wal kv' = kv_wal kv"
  by (auto simp: maybe_flush_memtable_def Let_def split: if_splits prod.splits)

lemma write_tail_fields:
  assumes "write_tail kv fs s = (kv', fs', b)"
  shows "kv_map kv' = kv_map kv \<and> kv_opened kv' = kv_opened kv \<and> wal_open (kv_wal kv') = wal_open (kv_wal kv)"
  using assms by (auto simp: write_tail_def split: if_splits prod.splits dest!: maybe_flush_fields wal_flush_open)

lemma kvs_put_map:
  assumes "kvs_ok s"
  shows "kv_map (fst (kvs_put s k v)) = AList.update k v (kv_map (fst s)) \<and> kv_opened (fst (kvs_put s k v))
    \<and> wal_open (kv_wal (fst (kvs_put s k v)))"
  using assms kv_put_tail [of "fst s" "snd s" k v]
  by (auto simp: kvs_put_def kvs_ok_def Let_def split: prod.splits dest!: write_tail_fields)

lemma kvs_del_map:
  assumes "kvs_ok s"
  shows "kv_map (fst (fst (kvs_del s k))) = AList.delete k (kv_map (fst s)) \<and> kv_opened (fst (fst (kvs_del s k)))
    \<and> wal_open (kv_wal (fst (fst (kvs_del s k))))"
proof (cases "map_of (kv_map (fst s)) k")
  case None
  then have "AList.delete k (kv_map (fst s)) = kv_map (fst s)"
    by (simp add: delete_id map_of_eq_None_iff)
  with None assms show ?thesis by (auto simp: kvs_del_def kv_del_def kvs_ok_def)
next
  case (Some x)
  with assms kv_del_tail [of "fst s" k x "snd s"] show ?thesis
    by (auto simp: kvs_del_def kvs_ok_def Let_def split: prod.splits dest!: write_tail_fields)
qed

lemma kvs_flush_map:
  assumes "kvs_ok s"
  shows "kv_map (fst (fst (kvs_flush s))) = kv_map (fst s) \<and> kv_opened (fst (fst (kvs_flush s)))
    \<and> wal_open (kv_wal (fst (fst (kvs_flush s))))"
  using assms by (auto simp: kvs_flush_def kv_flush_wal_def kvs_ok_def split: prod.splits dest: wal_flush_open)

interpretation kvs: key_value kvs_get kvs_put kvs_del kvs_flush kvs_keys kvs_ok
proof
  fix s :: kvs and k v p :: string
  assume ok: "kvs_ok s"
  note d = kvs_ok_def kvs_get_def kv_get_def
  show "kvs_ok (kvs_put s k v)" "kvs_get (kvs_put s k v) = (kvs_get s)(k \<mapsto> v)"
    using ok kvs_put_map [OF ok, of k v] by (auto simp: d distinct_update update_conv' fun_eq_iff)
  show "kvs_ok (fst (kvs_del s k))" "kvs_get (fst (kvs_del s k)) = (kvs_get s)(k := None)"
    using ok kvs_del_map [OF ok, of k] by (auto simp: d distinct_delete delete_conv' fun_eq_iff)
  show "kvs_ok (fst (kvs_flush s))" "kvs_get (fst (kvs_flush s)) = kvs_get s"
    using ok kvs_flush_map [OF ok] by (auto simp: d fun_eq_iff)
  show "set (kvs_keys s p) = {k. has_prefix p k \<and> kvs_get s k \<noteq> None}"
    using ok by (auto simp: d kvs_keys_def list_keys_with_prefix_def map_of_eq_None_iff)
qed

section \<open>Keys\<close>

lemma object_keys_differ [simp]:
  "ObjectMetaKey b k \<noteq> BucketIndexKey b' k'" "ObjectMetaKey b k \<noteq> ChunkKey oid i" "ObjectMetaKey b k \<noteq> BucketMetaKey b'"
  "BucketIndexKey b k \<noteq> ObjectMetaKey b' k'" "BucketIndexKey b k \<noteq> ChunkKey oid i" "BucketIndexKey b k \<noteq> BucketMetaKey b'"
  "ChunkKey oid i \<noteq> ObjectMetaKey b k" "ChunkKey oid i \<noteq> BucketIndexKey b k" "ChunkKey oid i \<noteq> BucketMetaKey b'"
  "BucketMetaKey b' \<noteq> ObjectMetaKey b k" "BucketMetaKey b' \<noteq> BucketIndexKey b k" "BucketMetaKey b' \<noteq> ChunkKey oid i"
  by (simp_all add: ObjectMetaKey_def BucketIndexKey_def ChunkKey_def BucketMetaKey_def)

text \<open>The last colon of a chunk key ends its object id.\<close>

lemma chunk_key_colon: "find_last_char (ChunkKey oid i) (CHR '':'') = Some (9 + length oid)"
  using find_last_char_append [of "CHR '':''" "show_nat (unat i)" "''objchunk:'' @ oid"] by (simp add: ChunkKey_def)

lemma chunk_object_id_ChunkKey: "chunk_object_id (ChunkKey oid i) = (if oid = [] then None else Some oid)"
  by (simp add: chunk_object_id_def chunk_key_colon) (simp add: ChunkKey_def substr_def)

lemma ChunkKey_inject [simp]: "ChunkKey oid i = ChunkKey oid' j \<longleftrightarrow> oid = oid' \<and> i = j"
proof
  assume eq: "ChunkKey oid i = ChunkKey oid' j"
  then have "length oid = length oid'" using chunk_key_colon by (metis add_left_cancel option.inject)
  with eq have "oid = oid' \<and> unat i = unat j" by (simp add: ChunkKey_def)
  then show "oid = oid' \<and> i = j" by (metis word_unat_eq_iff)
qed simp

lemma ObjectMetaKey_inject:
  assumes "CHR '':'' \<notin> set b" "CHR '':'' \<notin> set b'"
  shows "ObjectMetaKey b k = ObjectMetaKey b' k' \<longleftrightarrow> b = b' \<and> k = k'"
proof
  assume "ObjectMetaKey b k = ObjectMetaKey b' k'"
  then have eq: "b @ CHR '':'' # k = b' @ CHR '':'' # k'" by (simp add: ObjectMetaKey_def)
  then have "length b = length b'"
    using find_char_append [OF assms(1), of k] find_char_append [OF assms(2), of k'] by simp
  with eq show "b = b' \<and> k = k'" by simp
qed simp

section \<open>Metadata lines\<close>

lemma getfields_field [text_rules]:
  "TAB \<notin> set w \<Longrightarrow> getfields (Suc n) (w @ TAB # s) = map_option ((#) w) (getfields n s)"
  by (simp add: getfield_field)

lemma getfields_last [text_rules]: "\<lbrakk>TAB \<notin> set w; w \<noteq> []\<rbrakk> \<Longrightarrow> getfields (Suc 0) w = Some [w]"
  by (simp add: getfield_last)

lemma stoull_show_u32 [text_rules]: "stoull (show_nat (unat (c :: u32))) = Some (ucast c)"
proof -
  have "unat c = unat (ucast c :: u64)" using unat_u32_less [of c] by (simp add: unsigned_ucast_eq take_bit_nat_eq_self)
  then show ?thesis by (simp only: stoull_show_nat)
qed

lemma stoi_show_state [text_rules]: "stoi (show_nat (unat (st :: object_state))) = Some (int (unat st))"
proof -
  have "unat st < 2 ^ LENGTH(8)" by (rule unsigned_less)
  then show ?thesis by (intro stoi_show_nat) simp
qed

definition no_tabs :: "object_metadata \<Rightarrow> bool" where
  "no_tabs m \<longleftrightarrow> TAB \<notin> set (om_id m @ om_bucket m @ om_key m @ om_content_type m @ om_etag m)"

lemma deserialize_serialize:
  assumes "no_tabs m"
  shows "deserialize_metadata (serialize_metadata m) = Some m"
proof -
  have n: "(11 :: nat) = Suc (Suc (Suc (Suc (Suc (Suc (Suc (Suc (Suc (Suc (Suc 0))))))))))" by simp
  have t: "TAB \<notin> set (om_id m)" "TAB \<notin> set (om_bucket m)" "TAB \<notin> set (om_key m)" "TAB \<notin> set (om_content_type m)"
    "TAB \<notin> set (om_etag m)"
    using assms by (simp_all add: no_tabs_def)
  have "getfields 11 (serialize_metadata m) = Some [om_id m, om_bucket m, om_key m, show_nat (unat (om_size m)),
      show_nat (unat (om_chunk_count m)), show_nat (unat (om_chunk_size m)), om_content_type m, om_etag m,
      show_nat (unat (om_created m)), show_nat (unat (om_updated m)), show_nat (unat (om_state m))]"
    unfolding n serialize_metadata_def using t by (simp add: getfields_field getfields_last del: getfields.simps)
  moreover have "ucast (ucast c :: u64) = c" for c :: u32 by transfer simp
  ultimately show ?thesis
    by (simp add: deserialize_metadata_def metadata_of_fields_def stoull_show_nat stoull_show_u32 stoi_show_state)
qed

section \<open>Chunks\<close>

lemma chunk_at_take: "chunk_at cs data i = take (unat cs) (drop (i * unat cs) data)"
  by (auto simp: chunk_at_def substr_def Let_def min_def)

lemma concat_chunks: "concat (map (chunk_at cs data) [0..<n]) = take (n * unat cs) data"
proof (induction n)
  case (Suc n)
  have "take (n * unat cs + unat cs) data = take (n * unat cs) data @ take (unat cs) (drop (n * unat cs) data)"
    by (rule take_add)
  with Suc show ?case by (simp add: chunk_at_take add.commute)
qed simp

definition chunks_fit :: "u32 \<Rightarrow> string \<Rightarrow> bool" where
  "chunks_fit cs data \<longleftrightarrow> cs \<noteq> 0 \<and> length data < 2 ^ 64 \<and> (length data + unat cs - 1) div unat cs < 2 ^ 32"

lemma chunk_count_exact:
  assumes "chunks_fit cs data"
  shows "unat (chunk_count_of cs data) = (length data + unat cs - 1) div unat cs"
    and "concat (map (chunk_at cs data) [0..<unat (chunk_count_of cs data)]) = data"
proof -
  show n: "unat (chunk_count_of cs data) = (length data + unat cs - 1) div unat cs"
    using assms by (simp add: chunks_fit_def chunk_count_of_def unsigned_of_nat take_bit_nat_eq_self)
  have pos: "0 < unat cs" using assms by (metis chunks_fit_def gr0I unsigned_eq_0_iff)
  have "length data \<le> (length data + unat cs - 1) div unat cs * unat cs"
    using pos div_mult_mod_eq [of "length data + unat cs - 1" "unat cs"] mod_less_divisor [OF pos, of "length data + unat cs - 1"]
    by linarith
  then show "concat (map (chunk_at cs data) [0..<unat (chunk_count_of cs data)]) = data"
    by (simp add: concat_chunks n)
qed

lemma read_chunks_all:
  "\<forall>i \<in> set is. kvs_get s (ChunkKey oid (word_of_nat i)) = Some (f i) \<Longrightarrow>
    read_chunks s oid is acc = Inr (acc @ concat (map f is))"
  by (induction "is" arbitrary: acc) auto

lemma read_chunks_cong:
  "\<forall>i \<in> set is. kvs_get s (ChunkKey oid (word_of_nat i)) = kvs_get s' (ChunkKey oid (word_of_nat i)) \<Longrightarrow>
    read_chunks s oid is acc = read_chunks s' oid is acc"
  by (induction "is" arbitrary: acc) (auto split: option.splits)

section \<open>Reading depends on few keys\<close>

lemma GetObject_frame:
  assumes "kvs_get s' (ObjectMetaKey b k) = kvs_get s (ObjectMetaKey b k)"
    and "\<And>raw m i. \<lbrakk>kvs_get s (ObjectMetaKey b k) = Some raw; deserialize_metadata raw = Some m; om_state m \<noteq> ObjDeleted\<rbrakk>
      \<Longrightarrow> kvs_get s' (ChunkKey (om_id m) i) = kvs_get s (ChunkKey (om_id m) i)"
  shows "GetObject s' b k = GetObject s b k"
proof -
  have "read_chunks s' (om_id m) is [] = read_chunks s (om_id m) is []"
    if "kvs_get s (ObjectMetaKey b k) = Some raw" "deserialize_metadata raw = Some m" "om_state m \<noteq> ObjDeleted" for raw m "is"
    using assms(2) [OF that] by (intro read_chunks_cong) auto
  then show ?thesis unfolding GetObject_def assms(1) by (auto split: option.splits)
qed

lemma GetObject_cong: "kvs_get s' = kvs_get s \<Longrightarrow> GetObject s' b k = GetObject s b k"
  by (rule GetObject_frame) simp_all

section \<open>What an upload writes\<close>

definition do_writes :: "(string \<times> string) list \<Rightarrow> kvs \<Rightarrow> kvs" where
  "do_writes ws s = foldl (\<lambda>s (k, v). kvs_put s k v) s ws"

definition chunk_writes :: "u32 \<Rightarrow> string \<Rightarrow> string \<Rightarrow> (string \<times> string) list" where
  "chunk_writes cs oid data =
     map (\<lambda>i. (ChunkKey oid (word_of_nat i), chunk_at cs data i)) [0..<unat (chunk_count_of cs data)]"

definition object_writes :: "object_metadata \<Rightarrow> string \<Rightarrow> (string \<times> string) list" where
  "object_writes m data = chunk_writes (om_chunk_size m) (om_id m) data
     @ [(ObjectMetaKey (om_bucket m) (om_key m), serialize_metadata m), (BucketIndexKey (om_bucket m) (om_key m), om_id m)]"

lemma do_writes_simps [simp]:
  "do_writes [] s = s" "do_writes (ws @ vs) s = do_writes vs (do_writes ws s)" "do_writes [(k, v)] s = kvs_put s k v"
  by (simp_all add: do_writes_def)

lemma write_chunks_writes: "write_chunks cs oid data s = do_writes (chunk_writes cs oid data) s"
  by (simp add: write_chunks_def do_writes_def chunk_writes_def foldl_map)

lemma put_metadata_fields [simp]:
  "om_bucket (put_metadata cs hash id_ms now_ms req) = pr_bucket req" "om_key (put_metadata cs hash id_ms now_ms req) = pr_key req"
  "om_chunk_size (put_metadata cs hash id_ms now_ms req) = cs"
  "om_chunk_count (put_metadata cs hash id_ms now_ms req) = chunk_count_of cs (pr_data req)"
  "om_state (put_metadata cs hash id_ms now_ms req) = ObjCommitted"
  by (simp_all add: put_metadata_def)

lemma PutObject_state:
  assumes "PutObject cs hash id_ms now_ms s req = (s', r)" "po_ok r"
  shows "BucketExists s (pr_bucket req) \<and> pr_key req \<noteq> []
    \<and> s' = fst (kvs_flush (do_writes (object_writes (put_metadata cs hash id_ms now_ms req) (pr_data req)) s))"
proof -
  let ?m = "put_metadata cs hash id_ms now_ms req"
  let ?s = "do_writes (object_writes ?m (pr_data req)) s"
  have w: "?s = kvs_put (kvs_put (write_chunks cs (om_id ?m) (pr_data req) s) (ObjectMetaKey (pr_bucket req) (pr_key req))
      (serialize_metadata ?m)) (BucketIndexKey (pr_bucket req) (pr_key req)) (om_id ?m)"
    by (simp add: object_writes_def write_chunks_writes do_writes_def)
  show ?thesis
    using assms unfolding PutObject_def Let_def w [symmetric]
    by (auto simp: put_failed_def split: if_splits prod.splits)
qed

lemma distinct_chunk_writes: "distinct (map fst (chunk_writes cs oid data))"
proof -
  have small: "i < 2 ^ 32" if "i < unat (chunk_count_of cs data)" for i
    using that unat_u32_less [of "chunk_count_of cs data"] by linarith
  have "i = j" if "i < unat (chunk_count_of cs data)" "j < unat (chunk_count_of cs data)"
    "(word_of_nat i :: u32) = word_of_nat j" for i j
  proof -
    have "unat (word_of_nat i :: u32) = i" "unat (word_of_nat j :: u32) = j"
      using small [OF that(1)] small [OF that(2)] by (simp_all add: unsigned_of_nat take_bit_nat_eq_self)
    then show ?thesis using arg_cong [OF that(3), of unat] by metis
  qed
  then show ?thesis by (auto simp: chunk_writes_def distinct_map inj_on_def o_def)
qed

lemma do_writes_ok: "kvs_ok s \<Longrightarrow> kvs_ok (do_writes ws s)"
  unfolding do_writes_def by (rule kvs.puts_ok)

lemma do_writes_other: "\<lbrakk>kvs_ok s; k \<notin> fst ` set ws\<rbrakk> \<Longrightarrow> kvs_get (do_writes ws s) k = kvs_get s k"
  unfolding do_writes_def by (rule kvs.get_puts_other)

lemma fst_chunk_writes: "fst ` set (chunk_writes cs oid data) \<subseteq> range (ChunkKey oid)"
  by (auto simp: chunk_writes_def)

text \<open>The new object as a read returns it.\<close>

definition stored :: "object_metadata \<Rightarrow> string \<Rightarrow> get_object_result" where
  "stored m data = \<lparr>go_found = True, go_error = [], go_metadata = m, go_data = data\<rparr>"

lemma get_written:
  assumes ok: "kvs_ok s" and tabs: "no_tabs m" and fit: "chunks_fit (om_chunk_size m) data"
    and m: "om_chunk_count m = chunk_count_of (om_chunk_size m) data" "om_state m = ObjCommitted"
    and s': "s' = do_writes (chunk_writes (om_chunk_size m) (om_id m) data @ (ObjectMetaKey (om_bucket m) (om_key m), serialize_metadata m) # rest) s"
    and rest: "\<forall>(k, v) \<in> set rest. \<exists>b' k'. k = BucketIndexKey b' k'"
  shows "GetObject s' (om_bucket m) (om_key m) = stored m data"
proof -
  let ?ws = "chunk_writes (om_chunk_size m) (om_id m) data" and ?mk = "ObjectMetaKey (om_bucket m) (om_key m)"
  let ?s1 = "do_writes ?ws s" and ?s2 = "kvs_put (do_writes ?ws s) ?mk (serialize_metadata m)"
  have s'2: "s' = do_writes rest ?s2" unfolding s' by (simp add: do_writes_def)
  have ok2: "kvs_ok ?s2" "kvs_ok ?s1" using ok by (simp_all add: do_writes_ok kvs.put_ok)
  have meta: "kvs_get s' ?mk = Some (serialize_metadata m)"
    using rest ok2 unfolding s'2 by (subst do_writes_other) (auto simp: kvs.get_put)
  have "kvs_get s' (ChunkKey (om_id m) (word_of_nat i)) = Some (chunk_at (om_chunk_size m) data i)"
    if "i < unat (om_chunk_count m)" for i
  proof -
    have "kvs_get s' (ChunkKey (om_id m) (word_of_nat i)) = kvs_get ?s2 (ChunkKey (om_id m) (word_of_nat i))"
      unfolding s'2 using rest by (intro do_writes_other ok2) fastforce
    also have "\<dots> = kvs_get ?s1 (ChunkKey (om_id m) (word_of_nat i))" using ok2 by (simp add: kvs.get_put)
    also have "\<dots> = Some (chunk_at (om_chunk_size m) data i)"
      unfolding do_writes_def using that m(1)
      by (intro kvs.get_puts_in ok distinct_chunk_writes) (auto simp: chunk_writes_def)
    finally show ?thesis .
  qed
  then have "read_chunks s' (om_id m) [0..<unat (om_chunk_count m)] [] = Inr data"
    using read_chunks_all [of "[0..<unat (om_chunk_count m)]" s' "om_id m" "chunk_at (om_chunk_size m) data" "[]"]
      chunk_count_exact(2) [OF fit] m(1) by simp
  then show ?thesis
    by (simp add: GetObject_def meta deserialize_serialize [OF tabs] m(2) stored_def ObjCommitted_def ObjDeleted_def)
qed

lemma put_metadata_no_tabs:
  assumes "TAB \<notin> set (pr_bucket req @ pr_key req @ pr_content_type req)"
  shows "no_tabs (put_metadata cs hash id_ms now_ms req)"
  using assms by (auto simp: no_tabs_def put_metadata_def make_object_id_def compute_etag_def)

definition put_writes :: "u32 \<Rightarrow> (string \<Rightarrow> u64) \<Rightarrow> u64 \<Rightarrow> u64 \<Rightarrow> put_object_request \<Rightarrow> (string \<times> string) list" where
  "put_writes cs hash id_ms now_ms req = object_writes (put_metadata cs hash id_ms now_ms req) (pr_data req)"

text \<open>A call of \<^verbatim>\<open>PutObject\<close> with valid arguments: the writes, then the flush of the log.\<close>

lemma PutObject_run:
  assumes "BucketExists s (pr_bucket req)" "pr_key req \<noteq> []"
  shows "PutObject cs hash id_ms now_ms s req =
    (let m = put_metadata cs hash id_ms now_ms req; (s', flushed) = kvs_flush (do_writes (put_writes cs hash id_ms now_ms req) s)
     in (s', if flushed then \<lparr>po_ok = True, po_error = [], po_id = om_id m, po_size = om_size m, po_chunk_count = om_chunk_count m,
               po_etag = om_etag m\<rparr> else put_failed ''failed to flush WAL''))"
proof -
  let ?m = "put_metadata cs hash id_ms now_ms req"
  have w: "do_writes (put_writes cs hash id_ms now_ms req) s = kvs_put (kvs_put (write_chunks cs (om_id ?m) (pr_data req) s)
      (ObjectMetaKey (pr_bucket req) (pr_key req)) (serialize_metadata ?m)) (BucketIndexKey (pr_bucket req) (pr_key req)) (om_id ?m)"
    by (simp add: put_writes_def object_writes_def write_chunks_writes do_writes_def)
  show ?thesis using assms unfolding w by (simp add: PutObject_def BucketExists_def Let_def case_prod_beta)
qed

text \<open>All writes of an upload done: the object reads as uploaded, whether or not they have reached the disk.\<close>

lemma upload_read:
  assumes "kvs_ok s" "chunks_fit cs (pr_data req)" "TAB \<notin> set (pr_bucket req @ pr_key req @ pr_content_type req)"
    and "kvs_get s' = kvs_get (do_writes (put_writes cs hash id_ms now_ms req) s)"
  shows "GetObject s' (pr_bucket req) (pr_key req) = stored (put_metadata cs hash id_ms now_ms req) (pr_data req)"
proof -
  let ?m = "put_metadata cs hash id_ms now_ms req"
  have "GetObject s' (om_bucket ?m) (om_key ?m)
      = GetObject (do_writes (object_writes ?m (pr_data req)) s) (om_bucket ?m) (om_key ?m)"
    using assms(4) by (intro GetObject_cong) (simp add: put_writes_def)
  also have "\<dots> = stored ?m (pr_data req)"
    using assms(2) put_metadata_no_tabs [OF assms(3)]
    by (intro get_written [OF assms(1), where rest = "[(BucketIndexKey (pr_bucket req) (pr_key req), om_id ?m)]"])
      (auto simp: object_writes_def)
  finally show ?thesis by simp
qed

definition fresh_id :: "kvs \<Rightarrow> string \<Rightarrow> bool" where
  "fresh_id s oid \<longleftrightarrow>
     (\<forall>b k raw m. kvs_get s (ObjectMetaKey b k) = Some raw \<and> deserialize_metadata raw = Some m \<longrightarrow> om_id m \<noteq> oid)"

text \<open>A part of an upload is invisible to every object but the uploaded one, and to that one before its metadata.\<close>

lemma partial_upload_other:
  assumes "kvs_ok s" and "fresh_id s (make_object_id (pr_bucket req) (pr_key req) id_ms)"
    and "ObjectMetaKey b k \<noteq> ObjectMetaKey (pr_bucket req) (pr_key req)
      \<or> n \<le> length (chunk_writes cs (om_id (put_metadata cs hash id_ms now_ms req)) (pr_data req))"
  shows "GetObject (do_writes (take n (put_writes cs hash id_ms now_ms req)) s) b k = GetObject s b k"
proof -
  let ?m = "put_metadata cs hash id_ms now_ms req" and ?ws = "put_writes cs hash id_ms now_ms req"
  let ?cw = "chunk_writes cs (om_id ?m) (pr_data req)"
  have id: "om_id ?m = make_object_id (pr_bucket req) (pr_key req) id_ms" by (simp add: put_metadata_def)
  have keys: "fst ` set (take n ?ws) \<subseteq> range (ChunkKey (om_id ?m)) \<union>
      (if n \<le> length ?cw then {} else {ObjectMetaKey (pr_bucket req) (pr_key req), BucketIndexKey (pr_bucket req) (pr_key req)})"
    using fst_chunk_writes [of cs "om_id ?m" "pr_data req"]
    by (auto simp: put_writes_def object_writes_def dest!: in_set_takeD)
  show ?thesis
  proof (rule GetObject_frame)
    show "kvs_get (do_writes (take n ?ws) s) (ObjectMetaKey b k) = kvs_get s (ObjectMetaKey b k)"
      using keys assms(3) by (intro do_writes_other assms(1)) (auto split: if_splits)
    show "kvs_get (do_writes (take n ?ws) s) (ChunkKey (om_id m') i) = kvs_get s (ChunkKey (om_id m') i)"
      if "kvs_get s (ObjectMetaKey b k) = Some raw" "deserialize_metadata raw = Some m'" for raw m' i
    proof -
      have "om_id m' \<noteq> om_id ?m" using assms(2) that unfolding fresh_id_def id by blast
      then show ?thesis using keys by (intro do_writes_other assms(1)) (auto split: if_splits)
    qed
  qed
qed

lemma partial_upload_reads:
  assumes "kvs_ok s" and "chunks_fit cs (pr_data req)" and "TAB \<notin> set (pr_bucket req @ pr_key req @ pr_content_type req)"
    and "fresh_id s (make_object_id (pr_bucket req) (pr_key req) id_ms)"
  shows "GetObject (do_writes (take n (put_writes cs hash id_ms now_ms req)) s) (pr_bucket req) (pr_key req)
    \<in> {GetObject s (pr_bucket req) (pr_key req), stored (put_metadata cs hash id_ms now_ms req) (pr_data req)}"
proof (cases "n \<le> length (chunk_writes cs (om_id (put_metadata cs hash id_ms now_ms req)) (pr_data req))")
  case True
  then have "GetObject (do_writes (take n (put_writes cs hash id_ms now_ms req)) s) (pr_bucket req) (pr_key req)
      = GetObject s (pr_bucket req) (pr_key req)"
    by (intro partial_upload_other assms disjI2)
  then show ?thesis by blast
next
  case False
  let ?m = "put_metadata cs hash id_ms now_ms req" and ?ws = "put_writes cs hash id_ms now_ms req"
  let ?cw = "chunk_writes cs (om_id ?m) (pr_data req)"
  let ?rest = "take (n - length ?cw - 1) [(BucketIndexKey (pr_bucket req) (pr_key req), om_id ?m)]"
  have "take n ?ws = ?cw @ (ObjectMetaKey (om_bucket ?m) (om_key ?m), serialize_metadata ?m) # ?rest"
    using False by (simp add: put_writes_def object_writes_def take_Cons')
  then have "GetObject (do_writes (take n ?ws) s) (om_bucket ?m) (om_key ?m) = stored ?m (pr_data req)"
    using assms(2) put_metadata_no_tabs [OF assms(3)]
    by (intro get_written [OF assms(1), where rest = ?rest]) (fastforce dest!: in_set_takeD)+
  then show ?thesis by simp
qed

section \<open>Uploads succeed on a disk that works\<close>

definition kvs_sound :: "kvs \<Rightarrow> bool" where
  "kvs_sound s \<longleftrightarrow> kvs_ok s \<and> fs_sound (snd s)
     \<and> wal_pos (kv_wal (fst s)) = length (fs_content (snd s) (wal_path (kv_wal (fst s))))"

lemma wal_flush_keeps_sound:
  assumes "fs_sound fs" "wal_open w" "wal_pos w = length (fs_content fs (wal_path w))" "wal_flush w fs = (w', fs', b)"
  shows "b \<and> fs_sound fs' \<and> wal_open w' \<and> wal_pos w' = length (fs_content fs' (wal_path w'))"
  using wal_flush_sound [OF assms(1-3)] wal_flush_appends [OF assms(4,2,3)] assms(2,4) by auto

lemma write_tail_sound:
  assumes "fs_sound fs" "wal_open (kv_wal kv)" "wal_pos (kv_wal kv) = length (fs_content fs (wal_path (kv_wal kv)))"
    and "write_tail kv fs n = (kv', fs', b)"
  shows "fs_sound fs' \<and> wal_pos (kv_wal kv') = length (fs_content fs' (wal_path (kv_wal kv')))"
proof -
  obtain kv3 ok3 where m: "maybe_flush_memtable kv = (kv3, ok3)" by fastforce
  then have w: "kv_wal kv3 = kv_wal kv" using maybe_flush_fields by blast
  obtain w' f c where wf: "wal_flush (kv_wal kv) fs = (w', f, c)" by (metis prod_cases3)
  have "(kv' = kv3 \<and> fs' = fs) \<or> (kv' = kv3\<lparr>kv_wal := w'\<rparr> \<and> fs' = f)"
    using assms(4) m w wf by (auto simp: write_tail_def split: if_splits)
  then show ?thesis using assms(1,3) w wal_flush_keeps_sound [OF assms(1-3) wf] by auto
qed

lemma kvs_put_sound:
  assumes "kvs_sound s"
  shows "kvs_sound (kvs_put s k v)"
proof -
  have ok: "kvs_ok s" using assms by (simp add: kvs_sound_def)
  have "fs_sound (snd (kvs_put s k v)) \<and> wal_pos (kv_wal (fst (kvs_put s k v)))
      = length (fs_content (snd (kvs_put s k v)) (wal_path (kv_wal (fst (kvs_put s k v)))))"
    using assms kv_put_tail [of "fst s" "snd s" k v]
    by (auto simp: kvs_put_def kvs_sound_def kvs_ok_def Let_def split: prod.splits dest!: write_tail_sound [rotated 3])
  with kvs.put_ok [OF ok] show ?thesis by (simp add: kvs_sound_def)
qed

lemma do_writes_sound: "kvs_sound s \<Longrightarrow> kvs_sound (do_writes ws s)"
proof (induction ws arbitrary: s)
  case (Cons w ws)
  then show ?case using Cons.IH [OF kvs_put_sound, of s "fst w" "snd w"] by (simp add: do_writes_def case_prod_beta)
qed simp

lemma kvs_flush_sound: "kvs_sound s \<Longrightarrow> snd (kvs_flush s)"
  using wal_flush_keeps_sound [of "snd s" "kv_wal (fst s)"]
  by (auto simp: kvs_flush_def kv_flush_wal_def kvs_sound_def kvs_ok_def split: prod.splits)

lemma kvs_flush_keeps_sound:
  assumes "kvs_sound s"
  shows "kvs_sound (fst (kvs_flush s))"
proof -
  have "kvs_ok (fst (kvs_flush s))" using assms by (simp add: kvs_sound_def kvs.flush_ok)
  then show ?thesis
    using assms wal_flush_keeps_sound [of "snd s" "kv_wal (fst s)"]
    by (auto simp: kvs_flush_def kv_flush_wal_def kvs_sound_def kvs_ok_def split: prod.splits)
qed

lemma kvs_del_sound:
  assumes "kvs_sound s"
  shows "kvs_sound (fst (kvs_del s k))"
proof (cases "map_of (kv_map (fst s)) k")
  case None
  then show ?thesis using assms by (simp add: kvs_del_def kv_del_def kvs_sound_def kvs_ok_def)
next
  case (Some x)
  have "kvs_ok (fst (kvs_del s k))" using assms by (simp add: kvs_sound_def kvs.del_ok)
  moreover have "fs_sound (snd (fst (kvs_del s k))) \<and> wal_pos (kv_wal (fst (fst (kvs_del s k))))
      = length (fs_content (snd (fst (kvs_del s k))) (wal_path (kv_wal (fst (fst (kvs_del s k))))))"
    using assms kv_del_tail [of "fst s" k x "snd s"] Some
    by (auto simp: kvs_del_def kvs_sound_def kvs_ok_def Let_def split: prod.splits dest!: write_tail_sound [rotated 3])
  ultimately show ?thesis by (simp add: kvs_sound_def)
qed

lemma DeleteObject_succeeds:
  assumes "kvs_sound s" "kvs_get s (ObjectMetaKey b k) = Some raw" "deserialize_metadata raw = Some m"
  shows "do_ok (snd (DeleteObject now_ms s b k))"
proof -
  have "snd (kvs_flush (fst (kvs_del (kvs_put s mk v) ik)))" for mk v ik
    using assms(1) by (intro kvs_flush_sound kvs_del_sound kvs_put_sound)
  then show ?thesis using assms(2,3) by (simp add: DeleteObject_def Let_def case_prod_beta)
qed

lemma PutObject_succeeds:
  assumes "kvs_sound s" "BucketExists s (pr_bucket req)" "pr_key req \<noteq> []"
  shows "po_ok (snd (PutObject cs hash id_ms now_ms s req))"
proof -
  have "kvs_sound (kvs_put (kvs_put (write_chunks cs oid data s) k v) k' v')" for oid data k v k' v'
    using assms(1) by (simp add: write_chunks_writes do_writes_sound kvs_put_sound)
  note kvs_flush_sound [OF this]
  then show ?thesis using assms(2,3) by (simp add: PutObject_def Let_def case_prod_beta BucketExists_def)
qed

section \<open>Deletion, listing, collection\<close>

lemma getfields_no_tabs: "getfields n s = Some fs \<Longrightarrow> \<forall>f \<in> set fs. TAB \<notin> set f"
proof (induction n s arbitrary: fs rule: getfields.induct)
  case (2 n s)
  then obtain f r gs where g: "getfield TAB s = Some (f, r)" "getfields n r = Some gs" "fs = f # gs"
    by (auto split: option.splits)
  have "TAB \<notin> set f" using g(1) by (auto simp: getfield_def split: if_splits dest: set_takeWhileD)
  with g "2.IH" show ?case by auto
qed simp

lemma deserialize_no_tabs: "deserialize_metadata raw = Some m \<Longrightarrow> no_tabs m"
proof -
  assume "deserialize_metadata raw = Some m"
  then obtain fs where fs: "getfields 11 raw = Some fs" "metadata_of_fields fs = Some m"
    by (auto simp: deserialize_metadata_def split: option.splits)
  have "\<forall>f \<in> {om_id m, om_bucket m, om_key m, om_content_type m, om_etag m}. f \<in> set fs"
    using fs(2) by (auto simp: metadata_of_fields_def split: list.splits option.splits prod.splits)
  with getfields_no_tabs [OF fs(1)] show ?thesis by (auto simp: no_tabs_def)
qed

lemma DeleteObject_state:
  assumes "DeleteObject now_ms s b k = (s', r)" "do_ok r"
  obtains raw m where "kvs_get s (ObjectMetaKey b k) = Some raw" "deserialize_metadata raw = Some m"
    "s' = fst (kvs_flush (fst (kvs_del (kvs_put s (ObjectMetaKey b k)
        (serialize_metadata (m\<lparr>om_state := ObjDeleted, om_updated := now_ms\<rparr>))) (BucketIndexKey b k))))"
  using assms by (auto simp: DeleteObject_def Let_def split: option.splits prod.splits if_splits)

text \<open>The object ids some committed metadata refers to.\<close>

definition live_ids :: "kvs \<Rightarrow> string set" where
  "live_ids s = {om_id m |k raw m. has_prefix ''objmeta:'' k \<and> kvs_get s k = Some raw \<and> deserialize_metadata raw = Some m
     \<and> om_state m = ObjCommitted}"

lemma set_reachable_ids: "kvs_ok s \<Longrightarrow> set (reachable_ids s) = live_ids s"
proof -
  assume "kvs_ok s"
  note keys = kvs.set_keys [OF this, of "''objmeta:''"]
  have one: "x \<in> set (case kvs_get s k of None \<Rightarrow> [] | Some raw_meta \<Rightarrow> (case deserialize_metadata raw_meta of None \<Rightarrow> []
        | Some meta \<Rightarrow> if om_state meta = ObjCommitted then [om_id meta] else []))
      \<longleftrightarrow> (\<exists>raw m. kvs_get s k = Some raw \<and> deserialize_metadata raw = Some m \<and> om_state m = ObjCommitted \<and> x = om_id m)" for x k
    by (cases "kvs_get s k"; cases "deserialize_metadata (the (kvs_get s k))") auto
  have "x \<in> set (reachable_ids s) \<longleftrightarrow> (\<exists>k \<in> set (kvs_keys s ''objmeta:''). \<exists>raw m. kvs_get s k = Some raw
      \<and> deserialize_metadata raw = Some m \<and> om_state m = ObjCommitted \<and> x = om_id m)" for x
    by (simp only: reachable_ids_def set_concat set_map UN_iff bex_simps one)
  then show ?thesis unfolding live_ids_def keys by blast
qed

definition garbage :: "string set \<Rightarrow> string \<Rightarrow> bool" where
  "garbage ids k \<longleftrightarrow> (case chunk_object_id k of None \<Rightarrow> False | Some oid \<Rightarrow> oid \<notin> ids)"

lemma gc_chunk_fold:
  "kvs_ok s \<Longrightarrow> kvs_ok (fst (foldl (gc_chunk ids) (s, n) ks)) \<and>
    kvs_get (fst (foldl (gc_chunk ids) (s, n) ks)) k = (if k \<in> set ks \<and> garbage (set ids) k then None else kvs_get s k)"
proof (induction ks arbitrary: s n)
  case (Cons x ks)
  obtain s1 n1 where g: "gc_chunk ids (s, n) x = (s1, n1)" by fastforce
  have s1: "kvs_ok s1 \<and> kvs_get s1 = (if garbage (set ids) x then (kvs_get s)(x := None) else kvs_get s)"
    using g kvs.del_ok [OF Cons.prems, of x] kvs.get_del [OF Cons.prems, of x] Cons.prems
    by (auto simp: gc_chunk_def garbage_def split: option.splits if_splits prod.splits)
  with Cons.IH [of s1 n1] g show ?case by auto
qed simp

lemma gc_get:
  assumes "kvs_ok s"
  shows "kvs_get (fst (GarbageCollectChunks s)) k =
    (if has_prefix ''objchunk:'' k \<and> garbage (live_ids s) k then None else kvs_get s k)"
proof -
  let ?g = "foldl (gc_chunk (reachable_ids s)) (s, 0) (kvs_keys s ''objchunk:'')"
  note f = gc_chunk_fold [OF assms, of "reachable_ids s" 0 "kvs_keys s ''objchunk:''" k]
  have "fst (GarbageCollectChunks s) = fst (kvs_flush (fst ?g))"
    by (simp add: GarbageCollectChunks_def Let_def case_prod_beta)
  then have "kvs_get (fst (GarbageCollectChunks s)) k = kvs_get (fst ?g) k" using f kvs.get_flush by metis
  also have "\<dots> = (if has_prefix ''objchunk:'' k \<and> garbage (live_ids s) k then None else kvs_get s k)"
    using f kvs.set_keys [OF assms, of "''objchunk:''"] set_reachable_ids [OF assms] by auto
  finally show ?thesis .
qed

lemma distinct_kvs_keys: "kvs_ok s \<Longrightarrow> distinct (kvs_keys s pre)"
  by (simp add: kvs_ok_def kvs_keys_def list_keys_with_prefix_def)

lemma list_entry_index:
  "list_entry s b (BucketIndexKey b k) =
     (case Option.bind (kvs_get s (ObjectMetaKey b k)) deserialize_metadata of
        None \<Rightarrow> []
      | Some m \<Rightarrow> if om_state m = ObjDeleted then []
                  else [\<lparr>oe_key = om_key m, oe_size = om_size m, oe_content_type = om_content_type m, oe_etag = om_etag m, oe_updated = om_updated m\<rparr>])"
  by (simp add: list_entry_def BucketIndexKey_def split: option.splits Option.bind_splits)

lemma object_id_inject: "make_object_id b k x = make_object_id b k y \<longleftrightarrow> x = y"
  by (simp add: make_object_id_def show_nat_inject word_unat_eq_iff)

lemma chunk_prefix: "has_prefix ''objchunk:'' (ChunkKey oid i)" "\<not> has_prefix ''objchunk:'' (ObjectMetaKey b k)"
  "\<not> has_prefix ''objchunk:'' (BucketIndexKey b k)" "\<not> has_prefix ''objchunk:'' (BucketMetaKey b)"
  "has_prefix ''objmeta:'' (ObjectMetaKey b k)" "\<not> has_prefix ''objmeta:'' (ChunkKey oid i)"
  "\<not> has_prefix ''objmeta:'' (BucketIndexKey b k)" "\<not> has_prefix ''objmeta:'' (BucketMetaKey b)"
  by (simp_all add: ChunkKey_def ObjectMetaKey_def BucketIndexKey_def BucketMetaKey_def)

section \<open>Examples\<close>

definition empty_store :: kvs where
  "empty_store = (kv_init\<lparr>kv_opened := True, kv_wal := wal_init\<lparr>wal_open := True, wal_path := ''w''\<rparr>\<rparr>, fs_empty)"

definition one_bucket :: kvs where
  "one_bucket = fst (CreateBucket 7 empty_store ''b'')"

definition hello :: put_object_request where
  "hello = \<lparr>pr_bucket = ''b'', pr_key = ''k'', pr_data = ''hello'', pr_content_type = ''text''\<rparr>"

definition with_hello :: kvs where
  "with_hello = fst (PutObject 4 (\<lambda>_. 0) 8 9 one_bucket hello)"

lemma empty_store_sound: "kvs_sound empty_store"
  by (simp add: kvs_sound_def kvs_ok_def empty_store_def kv_init_def wal_init_def fs_sound_def fs_empty_def fs_content_def)

lemma one_bucket_put: "one_bucket = kvs_put empty_store (BucketMetaKey ''b'') (serialize_bucket_meta \<lparr>bm_name = ''b'', bm_created = 7\<rparr>)"
  by (simp add: one_bucket_def CreateBucket_def empty_store_def kvs_get_def kv_get_def kv_init_def)

lemma one_bucket_sound: "kvs_sound one_bucket" "kvs_ok one_bucket"
  using kvs_put_sound [OF empty_store_sound] by (simp_all add: one_bucket_put kvs_sound_def)

lemma one_bucket_exists: "BucketExists one_bucket ''b''"
  using empty_store_sound by (simp add: BucketExists_def one_bucket_put kvs.get_put kvs_sound_def)

lemma hello_props:
  "chunks_fit 4 (pr_data hello)" "TAB \<notin> set (pr_bucket hello @ pr_key hello @ pr_content_type hello)" "pr_bucket hello = ''b''"
  "pr_key hello = ''k''" "pr_data hello = ''hello''"
  by (simp_all add: hello_def chunks_fit_def)

lemma with_hello_state:
  "with_hello = fst (kvs_flush (do_writes (put_writes 4 (\<lambda>_. 0) 8 9 hello) one_bucket))"
  using PutObject_state [OF prod.collapse [symmetric] PutObject_succeeds, of one_bucket hello 4 "\<lambda>_. 0" 8 9]
    one_bucket_sound one_bucket_exists
  by (simp add: with_hello_def put_writes_def hello_props)

lemma with_hello_sound: "kvs_sound with_hello"
  unfolding with_hello_state by (intro kvs_flush_keeps_sound do_writes_sound one_bucket_sound)

lemma with_hello_view:
  "kvs_get with_hello (BucketMetaKey ''b'') \<noteq> None" "kvs_get with_hello (BucketIndexKey ''b'' ''k'') \<noteq> None"
  "kvs_get with_hello (ObjectMetaKey ''b'' ''k'') = Some (serialize_metadata (put_metadata 4 (\<lambda>_. 0) 8 9 hello))"
proof -
  let ?m = "put_metadata 4 (\<lambda>_. 0) 8 9 hello"
  let ?s = "do_writes (chunk_writes 4 (om_id ?m) ''hello'') one_bucket"
  have get: "kvs_get with_hello = (kvs_get ?s)(ObjectMetaKey ''b'' ''k'' \<mapsto> serialize_metadata ?m, BucketIndexKey ''b'' ''k'' \<mapsto> om_id ?m)"
    using one_bucket_sound(2)
    by (simp add: with_hello_state kvs.get_flush do_writes_ok put_writes_def object_writes_def hello_props)
      (simp add: do_writes_def kvs.get_put kvs.put_ok kvs.puts_ok)
  have "kvs_get ?s (BucketMetaKey ''b'') = kvs_get one_bucket (BucketMetaKey ''b'')"
    by (rule do_writes_other [OF one_bucket_sound(2)]) (use fst_chunk_writes in fastforce)
  then show "kvs_get with_hello (BucketMetaKey ''b'') \<noteq> None" using one_bucket_exists by (simp add: get BucketExists_def)
  show "kvs_get with_hello (BucketIndexKey ''b'' ''k'') \<noteq> None"
    "kvs_get with_hello (ObjectMetaKey ''b'' ''k'') = Some (serialize_metadata ?m)" by (simp_all add: get)
qed

lemma with_hello_meta:
  "kvs_get with_hello (ObjectMetaKey ''b'' ''k'') = Some (serialize_metadata (put_metadata 4 (\<lambda>_. 0) 8 9 hello))"
  "deserialize_metadata (serialize_metadata (put_metadata 4 (\<lambda>_. 0) 8 9 hello)) = Some (put_metadata 4 (\<lambda>_. 0) 8 9 hello)"
  using with_hello_view(3) deserialize_serialize [OF put_metadata_no_tabs [OF hello_props(2)]] by simp_all

lemma with_hello_read: "GetObject with_hello ''b'' ''k'' = stored (put_metadata 4 (\<lambda>_. 0) 8 9 hello) (pr_data hello)"
  using upload_read [OF one_bucket_sound(2) hello_props(1,2), of with_hello "\<lambda>_. 0" 8 9]
  by (simp add: with_hello_state kvs.get_flush do_writes_ok one_bucket_sound(2) hello_props)

section \<open>Properties\<close>

text \<open>
  C6. Upload and download: after a successful \<^verbatim>\<open>PutObject\<close>, \<^verbatim>\<open>GetObject\<close> of the same bucket and key returns the bytes
  that were uploaded and the metadata of the upload; and \<^verbatim>\<open>PutObject\<close> into an existing bucket with a key
  succeeds whenever the disk does not fail.
\<close>

theorem put_get_object:
  assumes "kvs_ok s" and "PutObject cs hash id_ms now_ms s req = (s', r)"
    and "chunks_fit cs (pr_data req)" and "TAB \<notin> set (pr_bucket req @ pr_key req @ pr_content_type req)"
  shows "(po_ok r \<longrightarrow> GetObject s' (pr_bucket req) (pr_key req) = stored (put_metadata cs hash id_ms now_ms req) (pr_data req))
    \<and> (kvs_sound s \<and> BucketExists s (pr_bucket req) \<and> pr_key req \<noteq> [] \<longrightarrow> po_ok r)"
proof (intro conjI impI)
  assume "po_ok r"
  then have "s' = fst (kvs_flush (do_writes (put_writes cs hash id_ms now_ms req) s))"
    using PutObject_state [OF assms(2)] by (simp add: put_writes_def)
  then show "GetObject s' (pr_bucket req) (pr_key req) = stored (put_metadata cs hash id_ms now_ms req) (pr_data req)"
    by (intro upload_read [OF assms(1,3,4)]) (simp add: kvs.get_flush do_writes_ok assms(1))
next
  assume "kvs_sound s \<and> BucketExists s (pr_bucket req) \<and> pr_key req \<noteq> []"
  then show "po_ok r" using PutObject_succeeds [of s req cs hash id_ms now_ms] assms(2) by simp
qed

theorem put_get_object_witness:
  "go_found (GetObject with_hello ''b'' ''k'') \<and> go_data (GetObject with_hello ''b'' ''k'') = ''hello''"
  using put_get_object [OF one_bucket_sound(2) prod.collapse [symmetric] hello_props(1,2), of "\<lambda>_. 0" 8 9]
  by (simp add: hello_props one_bucket_sound(1) one_bucket_exists with_hello_def stored_def)



text \<open>
  A deleted object is gone: after a successful \<^verbatim>\<open>DeleteObject\<close>, \<^verbatim>\<open>GetObject\<close> reports the object as deleted and the
  key is out of the bucket's index.
\<close>

theorem delete_object_hides:
  assumes "kvs_ok s" and "DeleteObject now_ms s b k = (s', r)" and "do_ok r"
  shows "GetObject s' b k = get_failed ''object is deleted'' metadata_default \<and> kvs_get s' (BucketIndexKey b k) = None"
proof -
  obtain raw m where raw: "kvs_get s (ObjectMetaKey b k) = Some raw" "deserialize_metadata raw = Some m"
    and s': "s' = fst (kvs_flush (fst (kvs_del (kvs_put s (ObjectMetaKey b k)
        (serialize_metadata (m\<lparr>om_state := ObjDeleted, om_updated := now_ms\<rparr>))) (BucketIndexKey b k))))"
    using DeleteObject_state [OF assms(2,3)] by blast
  let ?m = "m\<lparr>om_state := ObjDeleted, om_updated := now_ms\<rparr>"
  have get: "kvs_get s' = (kvs_get s)(ObjectMetaKey b k \<mapsto> serialize_metadata ?m, BucketIndexKey b k := None)"
    unfolding s' using assms(1) by (simp add: kvs.get_flush kvs.get_del kvs.get_put kvs.put_ok kvs.del_ok)
  have "no_tabs ?m" using deserialize_no_tabs [OF raw(2)] by (simp add: no_tabs_def)
  then show ?thesis by (simp add: GetObject_def get deserialize_serialize)
qed

theorem delete_object_hides_witness:
  "go_error (GetObject (fst (DeleteObject 10 with_hello ''b'' ''k'')) ''b'' ''k'') = ''object is deleted''"
proof -
  have "do_ok (snd (DeleteObject 10 with_hello ''b'' ''k''))"
    using DeleteObject_succeeds [OF with_hello_sound with_hello_meta] by simp
  from delete_object_hides [OF _ prod.collapse [symmetric] this] show ?thesis
    using with_hello_sound by (simp add: kvs_sound_def get_failed_def)
qed

text \<open>
  C14. Garbage collection removes exactly the chunks that no committed metadata refers to, and a committed object
  that could be read before the collection is read the same after it.
\<close>

theorem gc_collects_garbage:
  assumes "kvs_ok s"
  shows "(\<forall>key. kvs_get (fst (GarbageCollectChunks s)) key =
       (if has_prefix ''objchunk:'' key \<and> garbage (live_ids s) key then None else kvs_get s key))
    \<and> (go_found (GetObject s b k) \<and> om_state (go_metadata (GetObject s b k)) = ObjCommitted \<longrightarrow>
       GetObject (fst (GarbageCollectChunks s)) b k = GetObject s b k)"
proof (intro conjI allI impI)
  show "kvs_get (fst (GarbageCollectChunks s)) key =
       (if has_prefix ''objchunk:'' key \<and> garbage (live_ids s) key then None else kvs_get s key)" for key
    by (rule gc_get [OF assms])
next
  assume found: "go_found (GetObject s b k) \<and> om_state (go_metadata (GetObject s b k)) = ObjCommitted"
  show "GetObject (fst (GarbageCollectChunks s)) b k = GetObject s b k"
  proof (rule GetObject_frame)
    show "kvs_get (fst (GarbageCollectChunks s)) (ObjectMetaKey b k) = kvs_get s (ObjectMetaKey b k)"
      by (simp add: gc_get [OF assms] ObjectMetaKey_def)
    fix raw m i
    assume raw: "kvs_get s (ObjectMetaKey b k) = Some raw" "deserialize_metadata raw = Some m" "om_state m \<noteq> ObjDeleted"
    then have "om_state m = ObjCommitted"
      using found by (auto simp: GetObject_def get_failed_def split: sum.splits)
    moreover have "has_prefix ''objmeta:'' (ObjectMetaKey b k)" by (simp add: ObjectMetaKey_def)
    ultimately have "om_id m \<in> live_ids s" using raw unfolding live_ids_def by blast
    then show "kvs_get (fst (GarbageCollectChunks s)) (ChunkKey (om_id m) i) = kvs_get s (ChunkKey (om_id m) i)"
      by (simp add: gc_get [OF assms] garbage_def chunk_object_id_ChunkKey)
  qed
qed

theorem gc_collects_garbage_witness:
  "go_data (GetObject (fst (GarbageCollectChunks with_hello)) ''b'' ''k'') = ''hello''"
  using gc_collects_garbage [of with_hello "''b''" "''k''"] with_hello_sound
  by (simp add: kvs_sound_def with_hello_read stored_def hello_props)

text \<open>
  \<^verbatim>\<open>ListObjects\<close> of an existing bucket lists the objects the index has under the prefix: an entry is listed
  exactly if some key with the prefix is in the index and its metadata is readable and not deleted.
\<close>

theorem list_objects_exact:
  assumes "kvs_ok s" and "BucketExists s b"
  shows "lo_ok (ListObjects s b pre) \<and> set (lo_objects (ListObjects s b pre)) =
    {\<lparr>oe_key = om_key m, oe_size = om_size m, oe_content_type = om_content_type m, oe_etag = om_etag m, oe_updated = om_updated m\<rparr>
      |k raw m. has_prefix pre k \<and> kvs_get s (BucketIndexKey b k) \<noteq> None \<and> kvs_get s (ObjectMetaKey b k) = Some raw
        \<and> deserialize_metadata raw = Some m \<and> om_state m \<noteq> ObjDeleted}"
proof -
  have entry: "set (list_entry s b (BucketIndexKey b k)) =
      {\<lparr>oe_key = om_key m, oe_size = om_size m, oe_content_type = om_content_type m, oe_etag = om_etag m, oe_updated = om_updated m\<rparr>
        |raw m. kvs_get s (ObjectMetaKey b k) = Some raw \<and> deserialize_metadata raw = Some m \<and> om_state m \<noteq> ObjDeleted}" for k
    by (cases "kvs_get s (ObjectMetaKey b k)"; cases "deserialize_metadata (the (kvs_get s (ObjectMetaKey b k)))")
      (auto simp: list_entry_def BucketIndexKey_def Let_def)
  have keys: "set (kvs_keys s (BucketIndexKey b pre)) =
      BucketIndexKey b ` {k. has_prefix pre k \<and> kvs_get s (BucketIndexKey b k) \<noteq> None}"
    unfolding kvs.set_keys [OF assms(1)] by (auto simp: has_prefix_iff BucketIndexKey_def image_iff)
  have "lo_objects (ListObjects s b pre) = concat (map (list_entry s b) (kvs_keys s (BucketIndexKey b pre)))" "lo_ok (ListObjects s b pre)"
    using assms(2) by (simp_all add: ListObjects_def BucketExists_def)
  then show ?thesis by (auto simp: keys entry)
qed

theorem list_objects_exact_witness:
  "\<exists>e \<in> set (lo_objects (ListObjects with_hello ''b'' [])). oe_key e = ''k''"
proof -
  have "kvs_get with_hello (BucketIndexKey ''b'' ''k'') \<noteq> None" "BucketExists with_hello ''b''"
    using with_hello_view by (simp_all add: BucketExists_def)
  with list_objects_exact [of with_hello "''b''" "[]"] with_hello_sound with_hello_meta show ?thesis
    by (fastforce simp: kvs_sound_def hello_props ObjCommitted_def ObjDeleted_def)
qed

text \<open>
  The key of an object's metadata does not separate bucket and key: with a colon in the bucket name two different
  objects are one.
\<close>

lemma colon_in_bucket_collides: "GetObject s b (k @ '':'' @ k') = GetObject s (b @ '':'' @ k) k'"
  by (simp add: GetObject_def ObjectMetaKey_def)

end
