(* ===== verification/Object_Recovery.thy ===== *)
theory Object_Recovery
  imports Kv_Recovery Object_Laws
begin

text \<open>
  The writes of an upload as a run of the key-value store: what the store has to accept, how far the counters
  move, and the values the history has after any part of them.  The root theory puts this together with
  recovery.
\<close>

section \<open>Counters\<close>

lemma wal_flush_buffer: "wal_flush w fs = (w', fs', b) \<Longrightarrow> length (wal_buffer w') \<le> length (wal_buffer w)"
proof -
  assume f: "wal_flush w fs = (w', fs', b)"
  have "flush_records rs w fs = (w', fs', b) \<Longrightarrow> wal_buffer w' = wal_buffer w" for rs w fs w' fs' b
    by (induction rs arbitrary: w fs w' fs' b) (auto simp: Let_def split: prod.splits if_splits)
  with f show ?thesis by (auto simp: wal_flush_def Let_def split: if_splits prod.splits)
qed

lemma maybe_flush_counts:
  assumes "maybe_flush_memtable kv = (kv', b)"
  shows "kv_seq kv' = kv_seq kv \<and> kv_paths kv' = kv_paths kv \<and> kv_wal kv' = kv_wal kv \<and> (kv_next_id kv' = kv_next_id kv \<or> kv_next_id kv' = kv_next_id kv + 1)"
  using assms by (auto simp: maybe_flush_memtable_def Let_def split: if_splits prod.splits)

lemma kvs_put_counts:
  assumes "kvs_ok s"
  shows "kv_seq (fst (kvs_put s k v)) = kv_seq (fst s) + 1" "kv_paths (fst (kvs_put s k v)) = kv_paths (fst s)"
    "kv_next_id (fst (kvs_put s k v)) \<in> {kv_next_id (fst s), kv_next_id (fst s) + 1}"
    "length (wal_buffer (kv_wal (fst (kvs_put s k v)))) \<le> length (wal_buffer (kv_wal (fst s))) + 1"
proof -
  let ?kv = "fst s"
  let ?v = "\<lparr>ver_timestamp = kv_seq ?kv + 1, ver_value = Some v\<rparr>"
  let ?kv1 = "?kv\<lparr>kv_seq := kv_seq ?kv + 1,
            kv_wal := (kv_wal ?kv)\<lparr>wal_buffer := wal_buffer (kv_wal ?kv) @ [wal_encode (version_record (k, ?v))]\<rparr>,
            kv_map := AList.update k v (kv_map ?kv), kv_memtable := memtable_put k (kv_seq ?kv + 1) v (kv_memtable ?kv)\<rparr>"
  obtain kv2 fs2 b where t: "write_tail ?kv1 (snd s) (kv_seq ?kv + 1) = (kv2, fs2, b)" by (metis prod_cases3)
  have put: "kvs_put s k v = (kv2, fs2)"
    using assms kv_put_tail [of ?kv "snd s" k v] t by (simp add: kvs_put_def kvs_ok_def Let_def)
  obtain kv3 ok3 where m: "maybe_flush_memtable ?kv1 = (kv3, ok3)" by fastforce
  have c: "kv_seq kv2 = kv_seq kv3 \<and> kv_paths kv2 = kv_paths kv3 \<and> kv_next_id kv2 = kv_next_id kv3
      \<and> length (wal_buffer (kv_wal kv2)) \<le> length (wal_buffer (kv_wal kv3))"
    using t m by (auto simp: write_tail_def split: if_splits prod.splits dest: wal_flush_buffer)
  show "kv_seq (fst (kvs_put s k v)) = kv_seq (fst s) + 1" "kv_paths (fst (kvs_put s k v)) = kv_paths (fst s)"
    "kv_next_id (fst (kvs_put s k v)) \<in> {kv_next_id (fst s), kv_next_id (fst s) + 1}"
    "length (wal_buffer (kv_wal (fst (kvs_put s k v)))) \<le> length (wal_buffer (kv_wal (fst s))) + 1"
    using c maybe_flush_counts [OF m] by (auto simp: put)
qed

definition write_ok :: "string \<times> string \<Rightarrow> bool" where
  "write_ok = (\<lambda>(k, v). key_ok k \<and> value_ok v \<and> length k < 2 ^ 32 \<and> length v < 2 ^ 32)"

definition room_for :: "nat \<Rightarrow> kv_store \<Rightarrow> bool" where
  "room_for n kv \<longleftrightarrow> unat (kv_seq kv) + n + 1 < 2 ^ 64 \<and> unat (kv_next_id kv) + length (kv_paths kv) + n + 3 < 2 ^ 64"

lemma room_for_put:
  assumes "kvs_ok s" "room_for (Suc n) (fst s)"
  shows "kv_limits (fst s) \<and> room_for n (fst (kvs_put s k v))"
proof -
  have u: "unat (kv_seq (fst s) + 1) = unat (kv_seq (fst s)) + 1" "unat (kv_next_id (fst s) + 1) = unat (kv_next_id (fst s)) + 1"
    using assms(2) unat_Suc_u64 [of "kv_seq (fst s)"] unat_Suc_u64 [of "kv_next_id (fst s)"] by (simp_all add: room_for_def)
  then have "unat (kv_next_id (fst (kvs_put s k v))) \<le> unat (kv_next_id (fst s)) + 1"
    using kvs_put_counts(3) [OF assms(1), of k v] by auto
  with u show ?thesis using assms(2) kvs_put_counts(1,2) [OF assms(1), of k v] by (auto simp: room_for_def kv_limits_def)
qed

lemma run_ok:
  assumes "std_sort srt" "kv_run srt wpath H (fst s) (snd s)"
  shows "kvs_ok s" "kvs_get s = latest H"
  using kv_run_inv [OF assms]
  by (auto simp: kvs_ok_def kv_inv_def data_inv_def thread_inv_def log_inv_def kvs_get_def kv_get_def fun_eq_iff)

section \<open>Uploads as runs\<close>

text \<open>The writes of an upload are a run of the store.\<close>

lemma run_writes:
  assumes "std_sort srt" "kv_run srt wpath H (fst s) (snd s)" "\<forall>w \<in> set ws. write_ok w" "room_for (length ws) (fst s)"
  shows "\<exists>Hs. kv_run srt wpath (H @ Hs) (fst (do_writes ws s)) (snd (do_writes ws s))
    \<and> map (\<lambda>(k, v). (k, ver_value v)) Hs = map (\<lambda>(k, v). (k, Some v)) ws
    \<and> length (wal_buffer (kv_wal (fst (do_writes ws s)))) \<le> length (wal_buffer (kv_wal (fst s))) + length ws"
  using assms(2-4)
proof (induction ws arbitrary: s H)
  case Nil
  then show ?case by (intro exI [of _ "[]"]) simp
next
  case (Cons w ws)
  obtain k v where w: "w = (k, v)" by fastforce
  let ?s = "kvs_put s k v"
  let ?h = "(k, \<lparr>ver_timestamp = kv_seq (fst s) + 1, ver_value = Some v\<rparr>)"
  have ok: "kvs_ok s" using run_ok(1) [OF assms(1) Cons.prems(1)] .
  have room: "kv_limits (fst s)" "room_for (length ws) (fst ?s)"
    using room_for_put [OF ok, of "length ws" k v] Cons.prems(3) by auto
  have "kv_run srt wpath (H @ [?h]) (fst ?s) (snd ?s)"
    using Cons.prems(2) w by (intro kv_run.Put [OF Cons.prems(1) room(1)]) (auto simp: write_ok_def kvs_put_def)
  from Cons.IH [OF this _ room(2)] Cons.prems(2) obtain Hs where Hs:
    "kv_run srt wpath ((H @ [?h]) @ Hs) (fst (do_writes ws ?s)) (snd (do_writes ws ?s))"
    "map (\<lambda>(k, v). (k, ver_value v)) Hs = map (\<lambda>(k, v). (k, Some v)) ws"
    "length (wal_buffer (kv_wal (fst (do_writes ws ?s)))) \<le> length (wal_buffer (kv_wal (fst ?s))) + length ws" by auto
  moreover have "do_writes (w # ws) s = do_writes ws ?s" by (simp add: do_writes_def w)
  ultimately show ?case
    using kvs_put_counts(4) [OF ok, of k v] by (intro exI [of _ "?h # Hs"]) (auto simp: w)
qed

lemma latest_writes:
  "map (\<lambda>(k, v). (k, ver_value v)) Hs = map (\<lambda>(k, v). (k, Some v)) ws \<Longrightarrow> latest (H @ Hs) k = (latest H ++ map_of (rev ws)) k"
proof (induction Hs arbitrary: ws rule: rev_induct)
  case (snoc h Hs)
  then obtain us u where ws: "ws = us @ [u]" by (cases ws rule: rev_cases) auto
  obtain key ver where h: "h = (key, ver)" by fastforce
  have "latest (H @ Hs) k = (latest H ++ map_of (rev us)) k" using snoc ws by auto
  then show ?case using snoc.prems ws h latest_snoc [of "H @ Hs" key ver k]
    by (cases u) (auto simp: map_add_def)
qed simp

lemma hello_writes_ok: "\<forall>w \<in> set (put_writes 4 (\<lambda>_. 0) 8 9 hello). write_ok w"
  by (simp add: put_writes_def object_writes_def chunk_writes_def chunk_count_of_def chunk_at_def substr_def hello_def
      put_metadata_def make_object_id_def compute_etag_def ObjectMetaKey_def BucketIndexKey_def ChunkKey_def
      serialize_metadata_def show_nat.simps show_hex.simps digit_char_def hex_char_def write_ok_def key_ok_def value_ok_def
      is_space_def ObjCommitted_def upt_rec Let_def char_of_def)

end
