(* ===== verification/Session.thy ===== *)
theory Session
  imports Object_Recovery
begin

text \<open>
  A process that uses the store: the calls it makes, with the flush thread running beside them, and the end of
  its life.  A list of numbers says how many steps the thread takes before each call, so a theorem about all such
  lists is one about all interleavings of whole critical sections.

  The lemmas follow two readings of such a process.  \<open>session_ok\<close> holds on every disk: a call changes the map of
  current values in the expected way even when writes to the disk fail.  \<open>runs_on\<close> says that the process is a run of
  the store in the sense of \<^const>\<open>kv_run\<close>, which recovery is about.
\<close>

section \<open>Calls\<close>

type_synonym session = "kvs \<times> nat list"

definition flush_thread :: "session \<Rightarrow> session" where
  "flush_thread = (\<lambda>((kv, fs), sched). case sched of [] \<Rightarrow> ((kv, fs), []) | n # ns \<Rightarrow> (thread_steps n kv fs, ns))"

definition session_put :: "string \<Rightarrow> string \<Rightarrow> session \<Rightarrow> session" where
  "session_put k v st = (let (s, sched) = flush_thread st in (kvs_put s k v, sched))"

definition session_puts :: "(string \<times> string) list \<Rightarrow> session \<Rightarrow> session" where
  "session_puts ws st = foldl (\<lambda>st (k, v). session_put k v st) st ws"

definition session_flush :: "session \<Rightarrow> session \<times> bool" where
  "session_flush st = (let (s, sched) = flush_thread st; (s', ok) = kvs_flush s in ((s', sched), ok))"

text \<open>The end of the store's life: \<^verbatim>\<open>~Wal\<close> closes the descriptor, \<^verbatim>\<open>~FlushWorker\<close> stops the thread.\<close>

definition kv_destroy :: "kvs \<Rightarrow> kvs" where
  "kv_destroy = (\<lambda>(kv, fs). let (fw, fs') = worker_stop (kv_worker kv) fs
     in (kv\<lparr>kv_wal := wal_close (kv_wal kv), kv_worker := fw\<rparr>, fs'))"

section \<open>Failing disks\<close>

text \<open>No operation changes which paths can be opened for writing.\<close>

lemma deny_ofs [simp]: "fs_deny (fst (ofs_write fs p app s)) = fs_deny fs" "fs_deny (fst (ofs_write_noflush fs p s)) = fs_deny fs"
  "fs_deny (fst (fs_rename fs a b)) = fs_deny fs" "fs_deny (fs_remove fs p) = fs_deny fs"
  by (simp_all add: ofs_write_def ofs_write_noflush_def fs_rename_def fs_remove_def split: option.splits)

lemma deny_replace [simp]: "fs_deny (fst (replace_sstables fs p ps)) = fs_deny fs"
  by (simp add: replace_sstables_def Let_def case_prod_beta)

lemma deny_compact [simp]: "fs_deny (fst (compact srt fs ps out)) = fs_deny fs"
  by (simp add: compact_def sst_write_def case_prod_beta)

lemma deny_maybe_compact [simp]: "fs_deny (fst (snd (maybe_compact_sstables srt kv fs))) = fs_deny fs"
  by (simp add: maybe_compact_sstables_def Let_def case_prod_beta split: option.splits)

lemma deny_worker_step [simp]: "fs_deny (snd (worker_step fw fs)) = fs_deny fs"
  by (simp add: worker_step_def sst_write_def manifest_open_def append_sstable_def case_prod_beta split: worker_pc.splits list.splits)

lemma deny_thread_steps [simp]: "fs_deny (snd (thread_steps n kv fs)) = fs_deny fs"
  by (induction n arbitrary: kv fs) (simp_all add: case_prod_beta Let_def)

lemma deny_flush_records [simp]: "fs_deny (fst (snd (flush_records rs w fs))) = fs_deny fs"
  by (induction rs arbitrary: w fs) (simp_all add: Let_def case_prod_beta)

lemma deny_wal_flush [simp]: "fs_deny (fst (snd (wal_flush w fs))) = fs_deny fs"
  by (simp add: wal_flush_def Let_def case_prod_beta fs_fsync_def split: list.splits)

lemma deny_wal_open [simp]: "fs_deny (fst (snd (wal_open_file w fs p))) = fs_deny fs"
  by (simp add: wal_open_file_def Let_def split: option.splits)

text \<open>The state of a session between two calls of the store.\<close>

definition session_ok :: "string \<Rightarrow> kvs \<Rightarrow> bool" where
  "session_ok wpath s \<longleftrightarrow> kv_opened (fst s) \<and> wal_open (kv_wal (fst s)) \<and> \<not> fs_deny (snd s) wpath"

lemma session_put_ok:
  assumes "session_ok wpath s"
  shows "session_ok wpath (kvs_put s k v) \<and> kvs_get (kvs_put s k v) = (kvs_get s)(k \<mapsto> v)"
proof -
  let ?kv = "fst s" and ?s = "kv_seq (fst s) + 1"
  let ?v = "\<lparr>ver_timestamp = ?s, ver_value = Some v\<rparr>"
  let ?kv1 = "?kv\<lparr>kv_seq := ?s,
            kv_wal := (kv_wal ?kv)\<lparr>wal_buffer := wal_buffer (kv_wal ?kv) @ [wal_encode (version_record (k, ?v))]\<rparr>,
            kv_map := AList.update k v (kv_map ?kv), kv_memtable := memtable_put k ?s v (kv_memtable ?kv)\<rparr>"
  obtain kv' fs' b where t: "write_tail ?kv1 (snd s) ?s = (kv', fs', b)" by (metis prod_cases3)
  have p: "kvs_put s k v = (kv', fs')"
    using assms kv_put_tail [of ?kv "snd s" k v] t by (simp add: kvs_put_def session_ok_def Let_def)
  have "fs_deny fs' = fs_deny (snd s)"
  proof -
    have "fs_deny (fst (snd (write_tail ?kv1 (snd s) ?s))) = fs_deny (snd s)"
      by (simp add: write_tail_def Let_def case_prod_beta)
    then show ?thesis using t by simp
  qed
  with p write_tail_fields [OF t] assms show ?thesis
    by (auto simp: session_ok_def kvs_get_def kv_get_def update_conv' fun_eq_iff)
qed

lemma flush_thread_ok:
  assumes "session_ok wpath (fst st)"
  shows "session_ok wpath (fst (flush_thread st)) \<and> kvs_get (fst (flush_thread st)) = kvs_get (fst st)"
proof -
  obtain kv fs sched where st: "st = ((kv, fs), sched)" by (metis prod.exhaust)
  show ?thesis
  proof (cases sched)
    case Nil
    then show ?thesis using assms by (simp add: flush_thread_def st)
  next
    case (Cons n ns)
    obtain fw where "fst (thread_steps n kv fs) = kv\<lparr>kv_worker := fw\<rparr>" using thread_steps_only by blast
    then show ?thesis using assms Cons by (simp add: flush_thread_def st session_ok_def kvs_get_def kv_get_def fun_eq_iff)
  qed
qed

lemma session_flush_ok:
  assumes "session_ok wpath (fst st)"
  shows "session_ok wpath (fst (fst (session_flush st))) \<and> kvs_get (fst (fst (session_flush st))) = kvs_get (fst st)"
proof -
  obtain kv fs sched where f: "flush_thread st = ((kv, fs), sched)" by (metis prod.exhaust)
  obtain w fs' ok where w: "wal_flush (kv_wal kv) fs = (w, fs', ok)" by (metis prod_cases3)
  have "fs_deny fs' = fs_deny fs" using deny_wal_flush [of "kv_wal kv" fs] w by simp
  then show ?thesis using flush_thread_ok [OF assms] wal_flush_open [OF w] w
    by (simp add: session_flush_def f kvs_flush_def kv_flush_wal_def session_ok_def kvs_get_def kv_get_def fun_eq_iff)
qed

lemma session_puts_ok:
  assumes "session_ok wpath (fst st)"
  shows "session_ok wpath (fst (session_puts ws st)) \<and> kvs_get (fst (session_puts ws st)) = kvs_get (fst st) ++ map_of (rev ws)"
  using assms
proof (induction ws arbitrary: st)
  case (Cons w ws)
  obtain k v where w: "w = (k, v)" by fastforce
  have p: "session_ok wpath (fst (session_put k v st)) \<and> kvs_get (fst (session_put k v st)) = (kvs_get (fst st))(k \<mapsto> v)"
    using session_put_ok [OF conjunct1 [OF flush_thread_ok [OF Cons.prems]], of k v] flush_thread_ok [OF Cons.prems]
    by (simp add: session_put_def case_prod_beta Let_def)
  from Cons.IH [of "session_put k v st"] p show ?case by (auto simp: session_puts_def w fun_eq_iff map_add_def split: option.splits)
qed (simp add: session_puts_def)

lemma session_opened:
  assumes "kv_open srt kv_init fs wpath = (kv, fs', True)"
  shows "session_ok wpath (kv, fs')"
proof -
  obtain kv1 b1 where l: "load_from_file kv_init fs snapshot_file = (kv1, b1)" by fastforce
  obtain w fs1 b2 where w: "wal_open_file (kv_wal kv1) fs wpath = (w, fs1, b2)" by (metis prod_cases3)
  obtain w' kv2 m b3 where r: "replay_into (restore \<circ> record_version) w fs1 (kv1\<lparr>kv_wal := w\<rparr>) = (w', kv2, m, b3)"
    by (metis prod_cases4)
  obtain fs2 b4 where o: "manifest_open fs1 (kv_manifest_path kv2) = (fs2, b4)" by fastforce
  let ?kv3 = "kv2\<lparr>kv_wal := w', kv_seq := m, kv_opened := True, kv_manifest := kv_manifest_path kv2\<rparr>"
  let ?paths = "load_sstables fs2 (kv_manifest ?kv3)"
  obtain kv5 fs3 b5 where c: "maybe_compact_sstables srt (?kv3\<lparr>kv_paths := ?paths, kv_next_id := max_sstable_id ?paths\<rparr>) fs2
      = (kv5, fs3, b5)" by (metis prod_cases3)
  have "kv_opened kv_init = False" by (simp add: kv_init_def)
  with assms l w r o c have e: "b2" "b3" "b4" "kv = kv5\<lparr>kv_worker := worker_start (kv_worker kv5), kv_next_id := word_of_nat (length (kv_paths kv5))\<rparr>" "fs' = fs3"
    by (auto simp: kv_open_def Let_def split: if_splits)
  have "fs_deny fs2 = fs_deny fs" using o deny_ofs(1) [of fs1 _ True "[]"] deny_wal_open [of "kv_wal kv1" fs wpath] w
    by (metis fst_conv snd_conv manifest_open_def)
  moreover have "\<not> fs_deny fs wpath" using w e(1) by (auto simp: wal_open_file_def split: if_splits)
  moreover have "wal_open w'" using r e(2) by (auto simp: replay_into_def Let_def split: if_splits prod.splits)
  moreover have "fs_deny fs3 = fs_deny fs2" using c deny_maybe_compact by (metis fst_conv snd_conv)
  moreover obtain nx ps where "kv5 = ?kv3\<lparr>kv_next_id := nx, kv_paths := ps\<rparr>" using maybe_compact_fields [OF c] by auto
  ultimately show ?thesis by (simp add: session_ok_def e(4,5))
qed

section \<open>Processes as runs of the store\<close>

definition runs_on :: "(version list \<Rightarrow> version list) \<Rightarrow> string \<Rightarrow> nat \<Rightarrow> session \<Rightarrow> bool" where
  "runs_on srt wpath n st \<longleftrightarrow> (\<exists>H. kv_run srt wpath H (fst (fst st)) (snd (fst st))) \<and> room_for n (fst (fst st))"

lemma runs_on_thread: "runs_on srt wpath n st \<Longrightarrow> runs_on srt wpath n (flush_thread st)"
proof -
  assume r: "runs_on srt wpath n st"
  obtain kv fs sched where st: "st = ((kv, fs), sched)" by (metis prod.exhaust)
  show ?thesis
  proof (cases sched)
    case Nil
    then show ?thesis using r by (simp add: flush_thread_def st)
  next
    case (Cons m ms)
    obtain fw where "fst (thread_steps m kv fs) = kv\<lparr>kv_worker := fw\<rparr>" using thread_steps_only by blast
    then have "room_for n (fst (thread_steps m kv fs)) = room_for n kv" by (simp add: room_for_def)
    moreover obtain H where "kv_run srt wpath H kv fs" using r by (auto simp: runs_on_def st)
    from thread_steps_run [OF this prod.collapse [symmetric]]
    have "kv_run srt wpath H (fst (thread_steps m kv fs)) (snd (thread_steps m kv fs))" .
    ultimately show ?thesis using r Cons by (auto simp: runs_on_def flush_thread_def st)
  qed
qed

lemma runs_on_put:
  assumes "std_sort srt" "runs_on srt wpath (Suc n) st" "write_ok (k, v)"
  shows "runs_on srt wpath n (session_put k v st)"
proof -
  obtain s sched where f: "flush_thread st = (s, sched)" by fastforce
  obtain H where H: "kv_run srt wpath H (fst s) (snd s)" "room_for (Suc n) (fst s)"
    using runs_on_thread [OF assms(2)] by (auto simp: runs_on_def f)
  note room = room_for_put [OF run_ok(1) [OF assms(1) H(1)] H(2), of k v]
  have "kv_run srt wpath (H @ [(k, \<lparr>ver_timestamp = kv_seq (fst s) + 1, ver_value = Some v\<rparr>)])
      (fst (kvs_put s k v)) (snd (kvs_put s k v))"
    by (rule kv_run.Put [OF H(1) conjunct1 [OF room]]) (use assms(3) in \<open>auto simp: write_ok_def kvs_put_def\<close>)
  then show ?thesis using room by (auto simp: runs_on_def session_put_def f)
qed

lemma runs_on_puts:
  assumes "std_sort srt" "runs_on srt wpath (length ws + n) st" "\<forall>w \<in> set ws. write_ok w"
  shows "runs_on srt wpath n (session_puts ws st)"
  using assms(2,3)
proof (induction ws arbitrary: st)
  case (Cons w ws)
  obtain k v where w: "w = (k, v)" by fastforce
  have "runs_on srt wpath (length ws + n) (session_put k v st)"
    using Cons.prems w by (intro runs_on_put [OF assms(1)]) simp_all
  from Cons.IH [OF this] Cons.prems(2) show ?case by (simp add: session_puts_def w)
qed (simp add: session_puts_def)

text \<open>A flush of the log succeeds and leaves nothing in the buffer.\<close>

lemma runs_on_flush:
  assumes "std_sort srt" "runs_on srt wpath n st"
  shows "runs_on srt wpath n (fst (session_flush st)) \<and> wal_buffer (kv_wal (fst (fst (fst (session_flush st))))) = [] \<and> snd (session_flush st)"
proof -
  obtain kv fs sched where f: "flush_thread st = ((kv, fs), sched)" by (metis prod.exhaust)
  obtain H where H: "kv_run srt wpath H kv fs" "room_for n kv"
    using runs_on_thread [OF assms(2)] by (auto simp: runs_on_def f)
  obtain w fs' ok where w: "wal_flush (kv_wal kv) fs = (w, fs', ok)" by (metis prod_cases3)
  obtain tabs fl F B where i: "kv_inv H tabs fl kv fs" "log_inv wpath F B kv fs" using kv_run_inv [OF assms(1) H(1)] by blast
  have k: "kv_flush_wal kv fs = (kv\<lparr>kv_wal := w\<rparr>, fs', ok)" by (simp add: kv_flush_wal_def w)
  from wal_flush_inv [OF i w] have "ok" "wal_buffer w = []" by (auto simp: log_inv_def)
  moreover have "room_for n (kv\<lparr>kv_wal := w\<rparr>)" using H(2) by (simp add: room_for_def)
  ultimately show ?thesis using kv_run.Flush_wal [OF H(1) k] by (auto simp: session_flush_def f kvs_flush_def k runs_on_def)
qed

text \<open>Stopping the thread writes what it would have written anyway.\<close>

lemma worker_step_stopping:
  "fw_pc fw \<noteq> WWait \<or> fw_tasks fw \<noteq> [] \<Longrightarrow>
    worker_step (fw\<lparr>fw_stopping := b\<rparr>) fs = (let (fw', fs') = worker_step fw fs in (fw'\<lparr>fw_stopping := b\<rparr>, fs'))"
  by (auto simp: worker_step_def case_prod_beta Let_def split: worker_pc.splits list.splits)

lemma worker_join_steps:
  "kv_worker kv = fw\<lparr>fw_stopping := b\<rparr> \<Longrightarrow> \<exists>n. snd (thread_steps n kv fs) = snd (worker_join fw fs)"
proof (induction fw fs arbitrary: kv rule: worker_join.induct)
  case (1 fw fs)
  show ?case
  proof (cases "\<not> fw_stopping fw \<or> fw_pc fw = WExit \<or> fw_pc fw = WNone")
    case True
    then show ?thesis by (intro exI [of _ 0]) (simp add: worker_join.simps)
  next
    case False
    obtain fw' fs' where w: "worker_step fw fs = (fw', fs')" by fastforce
    show ?thesis
    proof (cases "fw_pc fw = WWait \<and> fw_tasks fw = []")
      case True
      with False w have "fw' = fw\<lparr>fw_pc := WExit\<rparr>" "fs' = fs" by (auto simp: worker_step_def)
      with False w show ?thesis by (intro exI [of _ 0]) (simp add: worker_join.simps)
    next
      case busy: False
      have k: "worker_step (kv_worker kv) fs = (fw'\<lparr>fw_stopping := b\<rparr>, fs')"
        using worker_step_stopping [of fw b fs] busy w by (simp add: "1.prems")
      obtain n where "snd (thread_steps n (kv\<lparr>kv_worker := fw'\<lparr>fw_stopping := b\<rparr>\<rparr>) fs') = snd (worker_join fw' fs')"
        using "1.IH" [OF False w [symmetric] refl, of "kv\<lparr>kv_worker := fw'\<lparr>fw_stopping := b\<rparr>\<rparr>"] by auto
      then have "snd (thread_steps (Suc n) kv fs) = snd (worker_join fw fs)"
        using False w by (simp add: worker_join.simps [of fw] k)
      then show ?thesis by blast
    qed
  qed
qed

lemma kv_destroy_steps: "\<exists>n. snd (kv_destroy (kv, fs)) = snd (thread_steps n kv fs)"
proof (cases "fw_started (kv_worker kv)")
  case True
  have "kv_worker kv = (kv_worker kv\<lparr>fw_stopping := True\<rparr>)\<lparr>fw_stopping := fw_stopping (kv_worker kv)\<rparr>" by simp
  from worker_join_steps [OF this, of fs] True show ?thesis
    by (simp add: kv_destroy_def worker_stop_def case_prod_beta Let_def eq_commute)
next
  case False
  then show ?thesis by (intro exI [of _ 0]) (simp add: kv_destroy_def worker_stop_def)
qed

end
