(* ===== verification/Raft.thy ===== *)
theory Raft
  imports Prelude
begin

text \<open>
  One node of the consensus layer (\<^verbatim>\<open>include/kv/raft.h\<close>, \<^verbatim>\<open>src/raft.cpp\<close>): its state, the helpers that run
  under its mutex, the two RPC handlers, and the critical sections of the proposals and of the election,
  heartbeat and apply threads, one definition each.  \<^verbatim>\<open>Raft_Cluster\<close> puts nodes, threads and transport together.

  Timers are left out: \<^verbatim>\<open>last_heard_\<close>, \<^verbatim>\<open>election_timeout_\<close> and the random generator only decide when the
  election thread acts, and the cluster model lets it act at any time.  Terms and indices are 64-bit words.
\<close>

section \<open>State and messages\<close>

datatype raft_role = Follower | Candidate | Leader

datatype op_type = OpPut | OpDel

record log_entry =
  le_term :: u64
  le_op :: op_type
  le_key :: string
  le_value :: string

record request_vote_req =
  rv_term :: u64
  rv_candidate :: int
  rv_last_index :: u64
  rv_last_term :: u64

record request_vote_resp =
  rvr_term :: u64
  rvr_granted :: bool

record append_entries_req =
  ae_term :: u64
  ae_leader :: int
  ae_prev_index :: u64
  ae_prev_term :: u64
  ae_entries :: "log_entry list"
  ae_commit :: u64

record append_entries_resp =
  aer_term :: u64
  aer_success :: bool

record raft_node =
  rn_id :: int
  rn_peers :: "int list"
  rn_running :: bool
  rn_term :: u64
  rn_voted :: "int option"
  rn_log :: "log_entry list"
  rn_role :: raft_role
  rn_leader :: "int option"
  rn_commit :: u64
  rn_applied :: u64
  rn_next :: "(int \<times> u64) list"
  rn_match :: "(int \<times> u64) list"

definition raft_new :: "int \<Rightarrow> int list \<Rightarrow> raft_node" where
  "raft_new i peers = \<lparr>rn_id = i, rn_peers = peers, rn_running = False, rn_term = 0, rn_voted = None, rn_log = [],
     rn_role = Follower, rn_leader = None, rn_commit = 0, rn_applied = 0, rn_next = [], rn_match = []\<rparr>"

definition raft_start :: "raft_node \<Rightarrow> raft_node" where
  "raft_start n = (if rn_running n then n else n\<lparr>rn_running := True\<rparr>)"

definition raft_stop :: "raft_node \<Rightarrow> raft_node" where
  "raft_stop n = n\<lparr>rn_running := False\<rparr>"

section \<open>Helpers under the mutex\<close>

definition LastLogIndex :: "raft_node \<Rightarrow> u64" where
  "LastLogIndex n = word_of_nat (length (rn_log n))"

definition LastLogTerm :: "raft_node \<Rightarrow> u64" where
  "LastLogTerm n = (if rn_log n = [] then 0 else le_term (last (rn_log n)))"

definition TermAt :: "raft_node \<Rightarrow> u64 \<Rightarrow> u64" where
  "TermAt n idx =
     (if idx = 0 then 0
      else if idx > word_of_nat (length (rn_log n)) then 0
      else le_term (rn_log n ! unat (idx - 1)))"

definition IsLeader :: "raft_node \<Rightarrow> bool" where
  "IsLeader n \<longleftrightarrow> rn_role n = Leader"

definition IsUpToDate :: "raft_node \<Rightarrow> u64 \<Rightarrow> u64 \<Rightarrow> bool" where
  "IsUpToDate n cand_last_idx cand_last_term =
     (if cand_last_term \<noteq> LastLogTerm n then cand_last_term > LastLogTerm n
      else cand_last_idx \<ge> LastLogIndex n)"

definition AdvanceCommitIndex :: "raft_node \<Rightarrow> raft_node" where
  "AdvanceCommitIndex n =
     (let match_values = sort (LastLogIndex n # map snd (rn_match n));
          N = match_values ! (length match_values div 2)
      in if N > rn_commit n
         then (if TermAt n N = rn_term n then n\<lparr>rn_commit := N\<rparr> else n)
         else n)"

definition BecomeFollower :: "u64 \<Rightarrow> int option \<Rightarrow> raft_node \<Rightarrow> raft_node" where
  "BecomeFollower new_term leader n =
     n\<lparr>rn_role := Follower, rn_leader := leader, rn_term := new_term, rn_voted := None\<rparr>"

definition BecomeCandidate :: "raft_node \<Rightarrow> raft_node" where
  "BecomeCandidate n =
     n\<lparr>rn_role := Candidate, rn_leader := None, rn_term := rn_term n + 1, rn_voted := Some (rn_id n)\<rparr>"

definition BecomeLeader :: "raft_node \<Rightarrow> raft_node" where
  "BecomeLeader n =
     n\<lparr>rn_role := Leader, rn_leader := Some (rn_id n),
       rn_next := fold (\<lambda>p. AList.update p (LastLogIndex n + 1)) (rn_peers n) (rn_next n),
       rn_match := fold (\<lambda>p. AList.update p 0) (rn_peers n) (rn_match n)\<rparr>"

definition BuildAppendEntries :: "raft_node \<Rightarrow> int \<Rightarrow> append_entries_req" where
  "BuildAppendEntries n peer_id =
     (let nxt = (case map_of (rn_next n) peer_id of None \<Rightarrow> 1 | Some i \<Rightarrow> i);
          prev = (if nxt = 0 \<or> nxt = 1 then 0 else nxt - 1)
      in \<lparr>ae_term = rn_term n, ae_leader = rn_id n, ae_prev_index = prev, ae_prev_term = TermAt n prev,
          ae_entries = (if nxt \<ge> 1 \<and> nxt \<le> word_of_nat (length (rn_log n)) then drop (unat (nxt - 1)) (rn_log n) else []),
          ae_commit = rn_commit n\<rparr>)"

section \<open>RPC handlers\<close>

definition OnRequestVote :: "raft_node \<Rightarrow> request_vote_req \<Rightarrow> raft_node \<times> request_vote_resp" where
  "OnRequestVote n req =
     (if rv_term req < rn_term n then (n, \<lparr>rvr_term = rn_term n, rvr_granted = False\<rparr>)
      else let n1 = (if rv_term req > rn_term n then BecomeFollower (rv_term req) None n else n);
               can_vote = (rn_voted n1 = None \<or> rn_voted n1 = Some (rv_candidate req))
           in if can_vote \<and> IsUpToDate n1 (rv_last_index req) (rv_last_term req)
              then (n1\<lparr>rn_voted := Some (rv_candidate req)\<rparr>, \<lparr>rvr_term = rn_term n1, rvr_granted = True\<rparr>)
              else (n1, \<lparr>rvr_term = rn_term n1, rvr_granted = False\<rparr>))"

definition OnAppendEntries :: "raft_node \<Rightarrow> append_entries_req \<Rightarrow> raft_node \<times> append_entries_resp" where
  "OnAppendEntries n req =
     (if ae_term req < rn_term n then (n, \<lparr>aer_term = rn_term n, aer_success = False\<rparr>)
      else let n1 = (if ae_term req > rn_term n then BecomeFollower (ae_term req) (Some (ae_leader req)) n
                     else n\<lparr>rn_role := Follower, rn_leader := Some (ae_leader req)\<rparr>)
           in if ae_prev_index req > LastLogIndex n1 then (n1, \<lparr>aer_term = rn_term n1, aer_success = False\<rparr>)
              else if TermAt n1 (ae_prev_index req) \<noteq> ae_prev_term req
              then (n1, \<lparr>aer_term = rn_term n1, aer_success = False\<rparr>)
              else let n2 = (if ae_entries req \<noteq> []
                             then n1\<lparr>rn_log := (if ae_prev_index req < LastLogIndex n1
                                                 then take (unat (ae_prev_index req)) (rn_log n1) else rn_log n1)
                                                @ ae_entries req\<rparr>
                             else n1);
                       n3 = (if ae_commit req > rn_commit n2
                             then n2\<lparr>rn_commit := min (ae_commit req) (LastLogIndex n2)\<rparr> else n2)
                   in (n3, \<lparr>aer_term = rn_term n3, aer_success = True\<rparr>))"

section \<open>Critical sections of a proposal\<close>

definition votes_needed :: "raft_node \<Rightarrow> nat" where
  "votes_needed n = (1 + length (rn_peers n)) div 2 + 1"

text \<open>First section of \<^verbatim>\<open>ProposePut\<close> and \<^verbatim>\<open>ProposeDel\<close>: append the entry, or refuse.\<close>

definition propose_append :: "raft_node \<Rightarrow> op_type \<Rightarrow> string \<Rightarrow> string \<Rightarrow> (raft_node \<times> log_entry) option" where
  "propose_append n op key val =
     (if \<not> IsLeader n then None
      else let e = \<lparr>le_term = rn_term n, le_op = op, le_key = key, le_value = (if op = OpDel then [] else val)\<rparr>
           in Some (n\<lparr>rn_log := rn_log n @ [e]\<rparr>, e))"

text \<open>Second section: the request is built from the node as it is then.\<close>

definition propose_request :: "raft_node \<Rightarrow> log_entry \<Rightarrow> append_entries_req" where
  "propose_request n e =
     (let my_index = LastLogIndex n; prev_idx = my_index - 1
      in \<lparr>ae_term = rn_term n, ae_leader = rn_id n, ae_prev_index = prev_idx, ae_prev_term = TermAt n prev_idx,
          ae_entries = [e], ae_commit = 0\<rparr>)"

text \<open>The section after each reply: \<^const>\<open>Inl\<close> is a return, \<^const>\<open>Inr\<close> the new count and whether to stop asking.\<close>

definition propose_reply :: "raft_node \<Rightarrow> append_entries_resp \<Rightarrow> nat \<Rightarrow> raft_node \<times> (bool + nat \<times> bool)" where
  "propose_reply n resp acks =
     (if \<not> IsLeader n then (n, Inl False)
      else if aer_term resp > rn_term n then (BecomeFollower (aer_term resp) None n, Inl False)
      else let acks' = (if aer_success resp then acks + 1 else acks)
           in (n, Inr (acks', acks' \<ge> votes_needed n)))"

text \<open>The closing round that carries the commit index, and the section after each of its replies.\<close>

definition propose_heartbeat :: "raft_node \<Rightarrow> append_entries_req" where
  "propose_heartbeat n = \<lparr>ae_term = rn_term n, ae_leader = rn_id n, ae_prev_index = LastLogIndex n,
     ae_prev_term = TermAt n (LastLogIndex n), ae_entries = [], ae_commit = rn_commit n\<rparr>"

definition heartbeat_ack :: "raft_node \<Rightarrow> append_entries_resp \<Rightarrow> raft_node \<times> bool" where
  "heartbeat_ack n resp =
     (if aer_term resp > rn_term n then (BecomeFollower (aer_term resp) None n, False) else (n, True))"

section \<open>Critical sections of the threads\<close>

text \<open>\<^verbatim>\<open>ElectionLoop\<close>: becoming a candidate, and the section after each vote reply with the new count and
  whether to go on asking.\<close>

definition election_start :: "raft_node \<Rightarrow> raft_node \<times> request_vote_req" where
  "election_start n =
     (let n1 = BecomeCandidate n
      in (n1, \<lparr>rv_term = rn_term n1, rv_candidate = rn_id n1, rv_last_index = LastLogIndex n1,
               rv_last_term = LastLogTerm n1\<rparr>))"

definition election_reply :: "raft_node \<Rightarrow> u64 \<Rightarrow> request_vote_resp \<Rightarrow> nat \<Rightarrow> raft_node \<times> nat \<times> bool" where
  "election_reply n term_started resp votes =
     (if rn_role n \<noteq> Candidate then (n, votes, False)
      else if rn_term n \<noteq> term_started then (n, votes, False)
      else if rvr_term resp > rn_term n then (BecomeFollower (rvr_term resp) None n, votes, False)
      else let votes' = (if rvr_granted resp then votes + 1 else votes)
           in if votes' \<ge> votes_needed n then (BecomeLeader n, votes', False) else (n, votes', True))"

text \<open>\<^verbatim>\<open>HeartbeatLoop\<close>: the section after each reply.  Reading \<^verbatim>\<open>match_index_[p]\<close> and \<^verbatim>\<open>next_index_[p]\<close> for the log
  line inserts a zero when there is no entry.\<close>

definition touch :: "int \<Rightarrow> (int \<times> u64) list \<Rightarrow> (int \<times> u64) list" where
  "touch p m = (case map_of m p of None \<Rightarrow> AList.update p 0 m | Some _ \<Rightarrow> m)"

definition heartbeat_reply :: "raft_node \<Rightarrow> int \<Rightarrow> append_entries_req \<Rightarrow> append_entries_resp \<Rightarrow> raft_node \<times> bool" where
  "heartbeat_reply n p req resp =
     (if aer_term resp > rn_term n then (BecomeFollower (aer_term resp) None n, False)
      else if aer_success resp
      then let sent_last = ae_prev_index req + word_of_nat (length (ae_entries req));
               n1 = (if ae_entries req \<noteq> []
                     then n\<lparr>rn_match := AList.update p sent_last (rn_match n),
                            rn_next := AList.update p (sent_last + 1) (rn_next n)\<rparr>
                     else n);
               n2 = AdvanceCommitIndex n1
           in (n2\<lparr>rn_match := touch p (rn_match n2), rn_next := touch p (rn_next n2)\<rparr>, True)
      else (case map_of (rn_next n) p of
              None \<Rightarrow> (n\<lparr>rn_next := touch p (rn_next n)\<rparr>, True)
            | Some i \<Rightarrow> (if i > 1 then n\<lparr>rn_next := AList.update p (max 1 (i - 1)) (rn_next n)\<rparr> else n, True)))"

text \<open>
  The critical section of \<^verbatim>\<open>ApplyLoop\<close>: the next committed entry.  The code reads \<^verbatim>\<open>log_[idx - 1]\<close> before it assigns
  \<^verbatim>\<open>last_applied_\<close>; an index beyond the log is undefined behaviour at that read, so the node is as before.
\<close>

datatype apply_result = ApplyNothing | ApplyEntry log_entry | ApplyOutOfBounds

definition apply_take :: "raft_node \<Rightarrow> raft_node \<times> apply_result" where
  "apply_take n =
     (if rn_applied n < rn_commit n
      then let idx = rn_applied n + 1
           in if unat (idx - 1) < length (rn_log n)
              then (n\<lparr>rn_applied := idx\<rparr>, ApplyEntry (rn_log n ! unat (idx - 1)))
              else (n, ApplyOutOfBounds)
      else (n, ApplyNothing))"

section \<open>Lemmas\<close>

lemma vote_effect:
  assumes "OnRequestVote n req = (n', resp)"
  shows "rn_id n' = rn_id n \<and> rn_peers n' = rn_peers n \<and> rn_log n' = rn_log n
    \<and> rn_term n' = max (rn_term n) (rv_term req)
    \<and> (rn_role n' = Leader \<longrightarrow> rn_role n = Leader \<and> rn_term n' = rn_term n)
    \<and> (rn_term n' = rn_term n \<longrightarrow> rn_role n' = rn_role n \<and> (rn_voted n \<noteq> None \<longrightarrow> rn_voted n' = rn_voted n))
    \<and> (rvr_granted resp \<longrightarrow> rn_voted n' = Some (rv_candidate req) \<and> rn_term n' = rv_term req)
    \<and> rvr_term resp = rn_term n'"
  using assms by (auto simp: OnRequestVote_def BecomeFollower_def Let_def max_def not_less split: if_splits)

lemma append_effect:
  assumes "OnAppendEntries n req = (n', resp)"
  shows "rn_id n' = rn_id n \<and> rn_peers n' = rn_peers n
    \<and> rn_term n' = max (rn_term n) (ae_term req)
    \<and> (rn_role n' = Leader \<longrightarrow> rn_role n = Leader \<and> rn_term n' = rn_term n)
    \<and> (rn_term n' = rn_term n \<longrightarrow> rn_voted n' = rn_voted n)
    \<and> (rn_term n' \<noteq> rn_term n \<longrightarrow> rn_voted n' = None)
    \<and> aer_term resp = rn_term n'"
  using assms by (auto simp: OnAppendEntries_def BecomeFollower_def Let_def max_def not_less split: if_splits)

lemma count_sorted_tail:
  "\<lbrakk>sorted xs; i < length xs\<rbrakk> \<Longrightarrow> length xs - i \<le> length (filter (\<lambda>x. xs ! i \<le> x) xs)"
proof -
  assume s: "sorted xs" and i: "i < length xs"
  have "filter (\<lambda>x. xs ! i \<le> x) (drop i xs) = drop i xs"
    using s i by (intro filter_True ballI) (auto simp: in_set_conv_nth sorted_nth_mono)
  then have "length xs - i = length (filter (\<lambda>x. xs ! i \<le> x) (drop i xs))" by simp
  also have "\<dots> \<le> length (filter (\<lambda>x. xs ! i \<le> x) (take i xs @ drop i xs))"
    by (simp only: filter_append length_append)
  finally show ?thesis by (simp only: append_take_drop_id)
qed

lemma length_filter_sort: "length (filter P (sort xs)) = length (filter P xs)"
proof -
  have "mset (filter P (sort xs)) = mset (filter P xs)" by simp
  then show ?thesis by (metis size_mset)
qed

text \<open>At least half of the values, and more than half of an odd number of values, reach the upper median.\<close>

lemma count_median:
  assumes "xs \<noteq> []"
  shows "length xs - length xs div 2 \<le> length (filter (\<lambda>m. sort xs ! (length xs div 2) \<le> m) xs)"
proof -
  have "length (sort xs) - length xs div 2 \<le> length (filter (\<lambda>m. sort xs ! (length xs div 2) \<le> m) (sort xs))"
    using assms by (intro count_sorted_tail) simp_all
  then show ?thesis by (simp only: length_filter_sort length_sort)
qed

lemma append_entries_effect:
  assumes "length (rn_log n) < 2 ^ 64" "OnAppendEntries n req = (n', resp)"
  shows "(aer_success resp \<longleftrightarrow> rn_term n \<le> ae_term req \<and> unat (ae_prev_index req) \<le> length (rn_log n)
            \<and> TermAt n (ae_prev_index req) = ae_prev_term req)
    \<and> (\<not> aer_success resp \<longrightarrow> rn_log n' = rn_log n \<and> rn_commit n' = rn_commit n)
    \<and> (aer_success resp \<longrightarrow> rn_role n' = Follower \<and> rn_leader n' = Some (ae_leader req) \<and> rn_term n' = ae_term req
        \<and> rn_log n' = (if ae_entries req = [] then rn_log n else take (unat (ae_prev_index req)) (rn_log n) @ ae_entries req))
    \<and> rn_term n' = max (rn_term n) (ae_term req)"
proof -
  have l: "unat (word_of_nat (length (rn_log n)) :: u64) = length (rn_log n)"
    using assms(1) by (simp add: unsigned_of_nat take_bit_nat_eq_self)
  define n1 where "n1 = (if ae_term req > rn_term n then BecomeFollower (ae_term req) (Some (ae_leader req)) n
    else n\<lparr>rn_role := Follower, rn_leader := Some (ae_leader req)\<rparr>)"
  have n1: "rn_log n1 = rn_log n" "rn_commit n1 = rn_commit n" "rn_role n1 = Follower" "rn_leader n1 = Some (ae_leader req)"
    by (simp_all add: n1_def BecomeFollower_def)
  have t: "TermAt n1 = TermAt n" "LastLogIndex n1 = LastLogIndex n"
    by (simp_all add: TermAt_def LastLogIndex_def n1 fun_eq_iff)
  have le: "ae_prev_index req > LastLogIndex n \<longleftrightarrow> length (rn_log n) < unat (ae_prev_index req)"
    "ae_prev_index req < LastLogIndex n \<longleftrightarrow> unat (ae_prev_index req) < length (rn_log n)"
    by (simp_all add: LastLogIndex_def word_less_nat_alt l)
  show ?thesis
  proof (cases "ae_term req < rn_term n")
    case True
    then show ?thesis using assms(2) by (auto simp: OnAppendEntries_def max_def)
  next
    case False
    have term1: "rn_term n1 = ae_term req" "rn_term n \<le> ae_term req" "max (rn_term n) (ae_term req) = ae_term req"
      using False by (auto simp: n1_def BecomeFollower_def not_less max_def)
    have "OnAppendEntries n req = (if ae_prev_index req > LastLogIndex n1 then (n1, \<lparr>aer_term = rn_term n1, aer_success = False\<rparr>)
              else if TermAt n1 (ae_prev_index req) \<noteq> ae_prev_term req
              then (n1, \<lparr>aer_term = rn_term n1, aer_success = False\<rparr>)
              else let n2 = (if ae_entries req \<noteq> []
                             then n1\<lparr>rn_log := (if ae_prev_index req < LastLogIndex n1
                                                 then take (unat (ae_prev_index req)) (rn_log n1) else rn_log n1)
                                                @ ae_entries req\<rparr>
                             else n1);
                       n3 = (if ae_commit req > rn_commit n2
                             then n2\<lparr>rn_commit := min (ae_commit req) (LastLogIndex n2)\<rparr> else n2)
                   in (n3, \<lparr>aer_term = rn_term n3, aer_success = True\<rparr>))"
      using False unfolding OnAppendEntries_def n1_def [symmetric] Let_def by (simp only: if_False)
    with assms(2) n1 term1 show ?thesis
      unfolding t le by (cases "ae_entries req = []") (auto simp: Let_def split: if_splits)
  qed
qed

lemma append_entries_commit:
  assumes "OnAppendEntries n req = (n', resp)"
  shows "aer_term resp = rn_term n' \<and> (ae_term req < rn_term n \<longrightarrow> n' = n)
    \<and> (aer_success resp \<longrightarrow> rn_commit n' =
         (if rn_commit n < ae_commit req then min (ae_commit req) (LastLogIndex n') else rn_commit n))"
  using assms by (auto simp: OnAppendEntries_def Let_def BecomeFollower_def LastLogIndex_def split: if_splits)

section \<open>Properties\<close>

text \<open>
  The commit index advances only to an index of the current term that at least half of the cluster holds
  (the leader's own log and the recorded match indices), and to one that a majority holds when the
  cluster has an odd number of nodes.
\<close>

theorem commit_advances_with_quorum:
  assumes "AdvanceCommitIndex n = n'" "rn_commit n' \<noteq> rn_commit n"
  shows "rn_commit n < rn_commit n' \<and> TermAt n (rn_commit n') = rn_term n
    \<and> 1 + length (rn_match n) \<le> 2 * length (filter (\<lambda>m. rn_commit n' \<le> m) (LastLogIndex n # map snd (rn_match n)))
    \<and> (odd (1 + length (rn_match n)) \<longrightarrow>
        1 + length (rn_match n) < 2 * length (filter (\<lambda>m. rn_commit n' \<le> m) (LastLogIndex n # map snd (rn_match n))))"
proof -
  let ?xs = "LastLogIndex n # map snd (rn_match n)"
  let ?N = "sort ?xs ! (length ?xs div 2)"
  have N: "rn_commit n' = ?N" "rn_commit n < ?N" "TermAt n ?N = rn_term n"
    using assms by (auto simp: AdvanceCommitIndex_def Let_def split: if_splits)
  have c: "length ?xs - length ?xs div 2 \<le> length (filter (\<lambda>m. rn_commit n' \<le> m) ?xs)"
    unfolding N(1) by (rule count_median) simp
  have "length ?xs = 1 + length (rn_match n)" by simp
  with c have "1 + length (rn_match n) \<le> 2 * length (filter (\<lambda>m. rn_commit n' \<le> m) ?xs)"
    "odd (1 + length (rn_match n)) \<longrightarrow> 1 + length (rn_match n) < 2 * length (filter (\<lambda>m. rn_commit n' \<le> m) ?xs)"
    by presburger+
  with N show ?thesis by simp
qed

definition commit_example :: "(int \<times> u64) list \<Rightarrow> raft_node" where
  "commit_example ms = (raft_new 1 (map fst ms))\<lparr>rn_role := Leader, rn_term := 2, rn_match := ms,
     rn_log := replicate 5 \<lparr>le_term = 2, le_op = OpPut, le_key = ''k'', le_value = ''v''\<rparr>\<rparr>"

theorem commit_advances_with_quorum_witness:
  "rn_commit (AdvanceCommitIndex (commit_example [(2, 4), (3, 1)])) = 4
   \<and> 3 < 2 * length (filter (\<lambda>m. 4 \<le> m) [5, 4, 1 :: u64])"
proof -
  have "rn_commit (AdvanceCommitIndex (commit_example [(2, 4), (3, 1)])) = 4"
    "rn_commit (commit_example [(2, 4), (3, 1)]) = 0" "LastLogIndex (commit_example [(2, 4), (3, 1)]) = 5"
    "rn_match (commit_example [(2, 4), (3, 1)]) = [(2, 4), (3, 1)]"
    by code_simp+
  then show ?thesis
    using commit_advances_with_quorum [OF refl, of "commit_example [(2, 4), (3, 1)]"] by simp
qed

text \<open>
  With an even number of nodes half of them is enough: a leader of four nodes moves its commit index to
  an entry that only one follower has acknowledged.
\<close>

theorem commit_without_majority:
  "rn_commit (AdvanceCommitIndex (commit_example [(2, 5), (3, 0), (4, 0)])) = 5
   \<and> length (filter (\<lambda>m. 5 \<le> m) (5 # map snd [(2 :: int, 5), (3, 0), (4, 0 :: u64)])) < votes_needed (commit_example [(2, 5), (3, 0), (4, 0)])"
  by code_simp

text \<open>
  C26. The append handler: a request of an older term is refused and changes nothing; one of a current term whose
  predecessor entry the log does not have is refused and leaves log and commit index alone; every other request
  succeeds.  On success a request with entries leaves the log up to the predecessor followed by the entries, an empty
  request (a heartbeat) leaves the whole log as it is, the commit index follows the leader's up to the end of the log and
  never decreases, and the node follows the sender.  The term becomes the larger of the two and is what the reply carries.
\<close>

theorem append_entries_spec:
  assumes "length (rn_log n) < 2 ^ 64" "OnAppendEntries n req = (n', resp)"
  shows "(aer_success resp \<longleftrightarrow> rn_term n \<le> ae_term req \<and> unat (ae_prev_index req) \<le> length (rn_log n)
            \<and> TermAt n (ae_prev_index req) = ae_prev_term req)
    \<and> (\<not> aer_success resp \<longrightarrow> rn_log n' = rn_log n \<and> rn_commit n' = rn_commit n)
    \<and> (aer_success resp \<longrightarrow> rn_role n' = Follower \<and> rn_leader n' = Some (ae_leader req) \<and> rn_term n' = ae_term req
        \<and> rn_log n' = (if ae_entries req = [] then rn_log n else take (unat (ae_prev_index req)) (rn_log n) @ ae_entries req)
        \<and> rn_commit n' = (if rn_commit n < ae_commit req then min (ae_commit req) (LastLogIndex n') else rn_commit n))
    \<and> (ae_term req < rn_term n \<longrightarrow> n' = n)
    \<and> rn_term n' = max (rn_term n) (ae_term req) \<and> aer_term resp = rn_term n'"
  using append_entries_effect [OF assms] append_entries_commit [OF assms(2)] by blast

theorem append_entries_spec_witness:
  "let (n, resp) = OnAppendEntries (commit_example []) \<lparr>ae_term = 2, ae_leader = 7, ae_prev_index = 4, ae_prev_term = 2,
      ae_entries = [\<lparr>le_term = 2, le_op = OpDel, le_key = ''k'', le_value = []\<rparr>], ae_commit = 0\<rparr>
   in aer_success resp \<and> length (rn_log n) = 5"
proof -
  let ?n = "commit_example []" and ?req = "\<lparr>ae_term = 2, ae_leader = 7, ae_prev_index = 4, ae_prev_term = 2,
      ae_entries = [\<lparr>le_term = 2, le_op = OpDel, le_key = ''k'', le_value = []\<rparr>], ae_commit = 0\<rparr>"
  have "length (rn_log ?n) = 5" "rn_term ?n = 2" "TermAt ?n 4 = 2" by code_simp+
  then show ?thesis
    using append_entries_spec [of ?n ?req, OF _ prod.collapse [symmetric]] by (simp add: case_prod_beta)
qed

text \<open>
  A request that repeats an old predecessor removes committed entries: the handler cuts the log without
  comparing the entries, the commit index then points beyond the log, and the apply thread reads an
  element that does not exist.
\<close>

theorem append_drops_committed:
  "let n = (commit_example [])\<lparr>rn_commit := 4, rn_applied := 3\<rparr>;
       (n', resp) = OnAppendEntries n \<lparr>ae_term = 2, ae_leader = 7, ae_prev_index = 0, ae_prev_term = 0,
          ae_entries = [\<lparr>le_term = 2, le_op = OpPut, le_key = ''k'', le_value = ''v''\<rparr>], ae_commit = 0\<rparr>
   in aer_success resp \<and> length (rn_log n') = 1 \<and> rn_commit n' = 4 \<and> snd (apply_take n') = ApplyOutOfBounds"
  by code_simp

end
