(* ===== verification/Raft_Cluster.thy ===== *)
theory Raft_Cluster
  imports Raft
begin

text \<open>
  Nodes, the in-process transport of \<^verbatim>\<open>src/raft_transport.cpp\<close>, and the threads of every node.  A client call
  and a round of a thread appear twice: as a function that runs it from beginning to end, and cut at its
  critical sections into the steps of a transition system, in which all threads of all nodes interleave
  freely.  An RPC holds the transport's mutex while the handler runs, so it is one step.  The election thread
  reads its role in one section and becomes a candidate in the next; only that thread makes its node a
  leader, so the two are one step here.
\<close>

section \<open>State\<close>

text \<open>Where a thread stands between two critical sections.\<close>

datatype elect_pc =
    EIdle
  | EAsk request_vote_req nat "int list"
  | EGot request_vote_req nat request_vote_resp "int list"

datatype beat_pc =
    BIdle
  | BPeers "int list"
  | BSend int append_entries_req "int list"
  | BGot int append_entries_req append_entries_resp "int list"

datatype call_pc =
    CAppended log_entry
  | CAsk append_entries_req nat "int list"
  | CGot append_entries_req nat append_entries_resp "int list"
  | CCommit
  | CBeat append_entries_req "int list"
  | CBeatGot append_entries_req append_entries_resp "int list"
  | CDone bool

record cluster =
  cl_nodes :: "int \<Rightarrow> raft_node"
  cl_up :: "int list"                       \<comment> \<open>\<^verbatim>\<open>nodes_\<close> of the transport\<close>
  cl_elect :: "int \<Rightarrow> elect_pc"
  cl_beat :: "int \<Rightarrow> beat_pc"
  cl_calls :: "int \<Rightarrow> call_pc list"
  cl_applied :: "int \<Rightarrow> log_entry list"    \<comment> \<open>what the state machine was given, in order\<close>

definition set_node :: "int \<Rightarrow> raft_node \<Rightarrow> cluster \<Rightarrow> cluster" where
  "set_node i n c = c\<lparr>cl_nodes := (cl_nodes c)(i := n)\<rparr>"

section \<open>Transport\<close>

definition transport_register :: "int \<Rightarrow> cluster \<Rightarrow> cluster" where
  "transport_register i c = c\<lparr>cl_up := List.insert i (cl_up c)\<rparr>"

definition transport_unregister :: "int \<Rightarrow> cluster \<Rightarrow> cluster" where
  "transport_unregister i c = c\<lparr>cl_up := removeAll i (cl_up c)\<rparr>"

definition transport_vote :: "cluster \<Rightarrow> int \<Rightarrow> request_vote_req \<Rightarrow> cluster \<times> request_vote_resp" where
  "transport_vote c p req =
     (if p \<notin> set (cl_up c) then (c, \<lparr>rvr_term = rv_term req, rvr_granted = False\<rparr>)
      else let (n, resp) = OnRequestVote (cl_nodes c p) req in (set_node p n c, resp))"

definition transport_append :: "cluster \<Rightarrow> int \<Rightarrow> append_entries_req \<Rightarrow> cluster \<times> append_entries_resp" where
  "transport_append c p req =
     (if p \<notin> set (cl_up c) then (c, \<lparr>aer_term = ae_term req, aer_success = False\<rparr>)
      else let (n, resp) = OnAppendEntries (cl_nodes c p) req in (set_node p n c, resp))"

section \<open>Calls and rounds run to completion\<close>

fun propose_loop :: "int \<Rightarrow> append_entries_req \<Rightarrow> int list \<Rightarrow> nat \<Rightarrow> cluster \<Rightarrow> cluster \<times> (bool + nat)" where
  "propose_loop i req [] acks c = (c, Inr acks)"
| "propose_loop i req (p # ps) acks c =
     (let (c1, resp) = transport_append c p req;
          (n, r) = propose_reply (cl_nodes c1 i) resp acks;
          c2 = set_node i n c1
      in case r of
           Inl b \<Rightarrow> (c2, Inl b)
         | Inr (acks', stop) \<Rightarrow> if stop then (c2, Inr acks') else propose_loop i req ps acks' c2)"

fun propose_beats :: "int \<Rightarrow> append_entries_req \<Rightarrow> int list \<Rightarrow> cluster \<Rightarrow> cluster" where
  "propose_beats i hb [] c = c"
| "propose_beats i hb (p # ps) c =
     (let (c1, resp) = transport_append c p hb;
          (n, go_on) = heartbeat_ack (cl_nodes c1 i) resp;
          c2 = set_node i n c1
      in if go_on then propose_beats i hb ps c2 else c2)"

definition propose :: "int \<Rightarrow> op_type \<Rightarrow> string \<Rightarrow> string \<Rightarrow> cluster \<Rightarrow> cluster \<times> bool" where
  "propose i op key val c =
     (case propose_append (cl_nodes c i) op key val of
        None \<Rightarrow> (c, False)
      | Some (n, e) \<Rightarrow>
          let c1 = set_node i n c;
              req = propose_request (cl_nodes c1 i) e;
              (c2, r) = propose_loop i req (rn_peers n) 1 c1
          in case r of
               Inl b \<Rightarrow> (c2, b)
             | Inr acks \<Rightarrow>
                 if acks < votes_needed n then (c2, False)
                 else let hb = propose_heartbeat (cl_nodes c2 i)
                      in (propose_beats i hb (rn_peers n) c2, True))"

definition ProposePut :: "int \<Rightarrow> string \<Rightarrow> string \<Rightarrow> cluster \<Rightarrow> cluster \<times> bool" where
  "ProposePut i key val c = propose i OpPut key val c"

definition ProposeDel :: "int \<Rightarrow> string \<Rightarrow> cluster \<Rightarrow> cluster \<times> bool" where
  "ProposeDel i key c = propose i OpDel key [] c"

fun vote_loop :: "int \<Rightarrow> request_vote_req \<Rightarrow> int list \<Rightarrow> nat \<Rightarrow> cluster \<Rightarrow> cluster" where
  "vote_loop i r [] votes c = c"
| "vote_loop i r (p # ps) votes c =
     (let (c1, resp) = transport_vote c p r;
          (n, votes', go_on) = election_reply (cl_nodes c1 i) (rv_term r) resp votes;
          c2 = set_node i n c1
      in if go_on then vote_loop i r ps votes' c2 else c2)"

text \<open>One pass of \<^verbatim>\<open>ElectionLoop\<close> after the timeout.\<close>

definition election_round :: "int \<Rightarrow> cluster \<Rightarrow> cluster" where
  "election_round i c =
     (if rn_role (cl_nodes c i) = Leader then c
      else let (n, r) = election_start (cl_nodes c i)
           in vote_loop i r (rn_peers n) 1 (set_node i n c))"

fun beat_loop :: "int \<Rightarrow> int list \<Rightarrow> cluster \<Rightarrow> cluster" where
  "beat_loop i [] c = c"
| "beat_loop i (p # ps) c =
     (if rn_role (cl_nodes c i) \<noteq> Leader then c
      else let req = BuildAppendEntries (cl_nodes c i) p;
               (c1, resp) = transport_append c p req;
               (n, go_on) = heartbeat_reply (cl_nodes c1 i) p req resp;
               c2 = set_node i n c1
           in if go_on then beat_loop i ps c2 else c2)"

definition heartbeat_round :: "int \<Rightarrow> cluster \<Rightarrow> cluster" where
  "heartbeat_round i c =
     (if rn_role (cl_nodes c i) \<noteq> Leader then c else beat_loop i (rn_peers (cl_nodes c i)) c)"

section \<open>Steps\<close>

definition elect_step :: "int \<Rightarrow> cluster \<Rightarrow> cluster" where
  "elect_step i c =
     (case cl_elect c i of
        EIdle \<Rightarrow>
          if rn_role (cl_nodes c i) = Leader then c
          else let (n, r) = election_start (cl_nodes c i)
               in (set_node i n c)\<lparr>cl_elect := (cl_elect c)(i := EAsk r 1 (rn_peers n))\<rparr>
      | EAsk r votes [] \<Rightarrow> c\<lparr>cl_elect := (cl_elect c)(i := EIdle)\<rparr>
      | EAsk r votes (p # ps) \<Rightarrow>
          let (c1, resp) = transport_vote c p r
          in c1\<lparr>cl_elect := (cl_elect c1)(i := EGot r votes resp ps)\<rparr>
      | EGot r votes resp ps \<Rightarrow>
          let (n, votes', go_on) = election_reply (cl_nodes c i) (rv_term r) resp votes
          in (set_node i n c)\<lparr>cl_elect := (cl_elect c)(i := if go_on then EAsk r votes' ps else EIdle)\<rparr>)"

definition beat_step :: "int \<Rightarrow> cluster \<Rightarrow> cluster" where
  "beat_step i c =
     (case cl_beat c i of
        BIdle \<Rightarrow>
          if rn_role (cl_nodes c i) \<noteq> Leader then c
          else c\<lparr>cl_beat := (cl_beat c)(i := BPeers (rn_peers (cl_nodes c i)))\<rparr>
      | BPeers [] \<Rightarrow> c\<lparr>cl_beat := (cl_beat c)(i := BIdle)\<rparr>
      | BPeers (p # ps) \<Rightarrow>
          if rn_role (cl_nodes c i) \<noteq> Leader then c\<lparr>cl_beat := (cl_beat c)(i := BIdle)\<rparr>
          else c\<lparr>cl_beat := (cl_beat c)(i := BSend p (BuildAppendEntries (cl_nodes c i) p) ps)\<rparr>
      | BSend p req ps \<Rightarrow>
          let (c1, resp) = transport_append c p req
          in c1\<lparr>cl_beat := (cl_beat c1)(i := BGot p req resp ps)\<rparr>
      | BGot p req resp ps \<Rightarrow>
          let (n, go_on) = heartbeat_reply (cl_nodes c i) p req resp
          in (set_node i n c)\<lparr>cl_beat := (cl_beat c)(i := if go_on then BPeers ps else BIdle)\<rparr>)"

definition call_start :: "int \<Rightarrow> op_type \<Rightarrow> string \<Rightarrow> string \<Rightarrow> cluster \<Rightarrow> cluster" where
  "call_start i op key val c =
     (case propose_append (cl_nodes c i) op key val of
        None \<Rightarrow> c\<lparr>cl_calls := (cl_calls c)(i := cl_calls c i @ [CDone False])\<rparr>
      | Some (n, e) \<Rightarrow> (set_node i n c)\<lparr>cl_calls := (cl_calls c)(i := cl_calls c i @ [CAppended e])\<rparr>)"

definition set_call :: "int \<Rightarrow> nat \<Rightarrow> call_pc \<Rightarrow> cluster \<Rightarrow> cluster" where
  "set_call i k pc c = c\<lparr>cl_calls := (cl_calls c)(i := (cl_calls c i)[k := pc])\<rparr>"

definition call_step :: "int \<Rightarrow> nat \<Rightarrow> cluster \<Rightarrow> cluster" where
  "call_step i k c =
     (if k \<ge> length (cl_calls c i) then c
      else case cl_calls c i ! k of
        CAppended e \<Rightarrow> set_call i k (CAsk (propose_request (cl_nodes c i) e) 1 (rn_peers (cl_nodes c i))) c
      | CAsk req acks [] \<Rightarrow>
          set_call i k (if acks < votes_needed (cl_nodes c i) then CDone False else CCommit) c
      | CAsk req acks (p # ps) \<Rightarrow>
          let (c1, resp) = transport_append c p req in set_call i k (CGot req acks resp ps) c1
      | CGot req acks resp ps \<Rightarrow>
          let (n, r) = propose_reply (cl_nodes c i) resp acks
          in set_call i k (case r of Inl b \<Rightarrow> CDone b | Inr (acks', stop) \<Rightarrow> CAsk req acks' (if stop then [] else ps))
               (set_node i n c)
      | CCommit \<Rightarrow> set_call i k (CBeat (propose_heartbeat (cl_nodes c i)) (rn_peers (cl_nodes c i))) c
      | CBeat hb [] \<Rightarrow> set_call i k (CDone True) c
      | CBeat hb (p # ps) \<Rightarrow>
          let (c1, resp) = transport_append c p hb in set_call i k (CBeatGot hb resp ps) c1
      | CBeatGot hb resp ps \<Rightarrow>
          let (n, go_on) = heartbeat_ack (cl_nodes c i) resp
          in set_call i k (if go_on then CBeat hb ps else CDone True) (set_node i n c)
      | CDone b \<Rightarrow> c)"

definition apply_step :: "int \<Rightarrow> cluster \<Rightarrow> cluster" where
  "apply_step i c =
     (let (n, r) = apply_take (cl_nodes c i)
      in case r of
           ApplyEntry e \<Rightarrow> (set_node i n c)\<lparr>cl_applied := (cl_applied c)(i := cl_applied c i @ [e])\<rparr>
         | _ \<Rightarrow> c)"

text \<open>A cluster over the ids \<open>I\<close> as the programs build it: every node knows all the others.\<close>

definition cluster_init :: "int list \<Rightarrow> cluster \<Rightarrow> bool" where
  "cluster_init I c \<longleftrightarrow> distinct I \<and> set (cl_up c) \<subseteq> set I
     \<and> (\<forall>i. cl_nodes c i = raft_new i (removeAll i I))
     \<and> cl_elect c = (\<lambda>_. EIdle) \<and> cl_beat c = (\<lambda>_. BIdle) \<and> cl_calls c = (\<lambda>_. []) \<and> cl_applied c = (\<lambda>_. [])"

text \<open>One step of one thread, a new client call, or a change of the transport's registry.\<close>

datatype raft_action =
    Elect int
  | Beat int
  | Call int op_type string string
  | Call_step int nat
  | Apply int
  | Up int
  | Down int

primrec raft_act :: "raft_action \<Rightarrow> cluster \<Rightarrow> cluster" where
  "raft_act (Elect i) c = elect_step i c"
| "raft_act (Beat i) c = beat_step i c"
| "raft_act (Call i op key val) c = call_start i op key val c"
| "raft_act (Call_step i k) c = call_step i k c"
| "raft_act (Apply i) c = apply_step i c"
| "raft_act (Up i) c = transport_register i c"
| "raft_act (Down i) c = transport_unregister i c"

text \<open>Nodes of the cluster act, and no term reaches \<open>2 ^ 64\<close>.\<close>

primrec action_ok :: "int list \<Rightarrow> cluster \<Rightarrow> raft_action \<Rightarrow> bool" where
  "action_ok I c (Elect i) \<longleftrightarrow> i \<in> set I \<and> rn_term (cl_nodes c i) + 1 \<noteq> 0"
| "action_ok I c (Beat i) \<longleftrightarrow> i \<in> set I"
| "action_ok I c (Call i op key val) \<longleftrightarrow> i \<in> set I"
| "action_ok I c (Call_step i k) \<longleftrightarrow> i \<in> set I"
| "action_ok I c (Apply i) \<longleftrightarrow> i \<in> set I"
| "action_ok I c (Up i) \<longleftrightarrow> i \<in> set I"
| "action_ok I c (Down i) \<longleftrightarrow> i \<in> set I"

text \<open>The threads of all nodes interleave in any order.\<close>

inductive raft_reach :: "int list \<Rightarrow> cluster \<Rightarrow> bool" for I :: "int list" where
  Init: "cluster_init I c \<Longrightarrow> raft_reach I c"
| Step: "\<lbrakk>raft_reach I c; action_ok I c a\<rbrakk> \<Longrightarrow> raft_reach I (raft_act a c)"

text \<open>A schedule, executable: \<^const>\<open>None\<close> when an action is not possible.\<close>

fun raft_run :: "int list \<Rightarrow> raft_action list \<Rightarrow> cluster \<Rightarrow> cluster option" where
  "raft_run I [] c = Some c"
| "raft_run I (a # as) c = (if action_ok I c a then raft_run I as (raft_act a c) else None)"

lemma raft_run_reach: "\<lbrakk>raft_reach I c; raft_run I as c = Some c'\<rbrakk> \<Longrightarrow> raft_reach I c'"
  by (induction I as c rule: raft_run.induct) (auto intro: raft_reach.Step split: if_splits)

definition cluster_start :: "int list \<Rightarrow> cluster" where
  "cluster_start I = \<lparr>cl_nodes = (\<lambda>i. raft_new i (removeAll i I)), cl_up = I, cl_elect = (\<lambda>_. EIdle),
     cl_beat = (\<lambda>_. BIdle), cl_calls = (\<lambda>_. []), cl_applied = (\<lambda>_. [])\<rparr>"

lemma cluster_start_reach: "distinct I \<Longrightarrow> raft_reach I (cluster_start I)"
  by (rule raft_reach.Init) (simp add: cluster_init_def cluster_start_def)

end
