(* ===== verification/Raft_Election.thy ===== *)
theory Raft_Election
  imports Raft_Cluster "HOL-Library.Sublist"
begin

text \<open>
  Elections: at most one leader per term, whatever the threads of the nodes do and whichever nodes the
  transport reaches.  The invariant speaks about the vote every node gave in every term, of which the node
  itself remembers only the last.
\<close>

section \<open>Quorums\<close>

locale quorum_system =
  fixes members :: "'p set"
    and quorum :: "'p set \<Rightarrow> bool"
  assumes quorums_meet: "\<lbrakk>quorum A; quorum B\<rbrakk> \<Longrightarrow> A \<inter> B \<noteq> {}"
    and quorum_mono: "\<lbrakk>quorum A; A \<subseteq> B; B \<subseteq> members\<rbrakk> \<Longrightarrow> quorum B"
begin

lemma one_winner:
  assumes "quorum {p \<in> members. vote p = Some i}" and "quorum {p \<in> members. vote p = Some j}"
  shows "i = j"
  using quorums_meet [OF assms] by auto

lemma more_votes:
  assumes "quorum {p \<in> members. vote p = Some i}" and "\<And>p. vote p = Some i \<Longrightarrow> vote' p = Some i"
  shows "quorum {p \<in> members. vote' p = Some i}"
  using assms(1) by (rule quorum_mono) (use assms(2) in auto)

end

text \<open>The count of \<^verbatim>\<open>total / 2 + 1\<close> over the members of the cluster.\<close>

definition majority :: "int list \<Rightarrow> int set \<Rightarrow> bool" where
  "majority I A \<longleftrightarrow> A \<subseteq> set I \<and> length I div 2 + 1 \<le> card A"

lemma majorities_meet:
  assumes "majority I A" and "majority I B"
  shows "A \<inter> B \<noteq> {}"
proof
  assume "A \<inter> B = {}"
  then have "card A + card B = card (A \<union> B)"
    using assms by (intro card_Un_disjoint [symmetric]) (auto simp: majority_def intro: finite_subset)
  also have "\<dots> \<le> card (set I)" using assms by (intro card_mono) (auto simp: majority_def)
  also have "\<dots> \<le> length I" by (rule card_length)
  finally show False using assms by (auto simp: majority_def)
qed

interpretation maj: quorum_system "set I" "majority I" for I
proof
  show "A \<inter> B \<noteq> {}" if "majority I A" "majority I B" for A B using that by (rule majorities_meet)
  show "majority I B" if "majority I A" "A \<subseteq> B" "B \<subseteq> set I" for A B
    using that card_mono [OF finite_subset [OF that(3)] that(2)] by (auto simp: majority_def)
qed

section \<open>How a critical section changes its node\<close>

definition node_grows :: "raft_node \<Rightarrow> raft_node \<Rightarrow> bool" where
  "node_grows n n' \<longleftrightarrow> rn_id n' = rn_id n \<and> rn_peers n' = rn_peers n \<and> rn_term n \<le> rn_term n'
     \<and> (rn_term n' = rn_term n \<and> rn_voted n \<noteq> None \<longrightarrow> rn_voted n' = rn_voted n)"

definition no_new_leader :: "raft_node \<Rightarrow> raft_node \<Rightarrow> bool" where
  "no_new_leader n n' \<longleftrightarrow> (rn_role n' = Leader \<longrightarrow> rn_role n = Leader \<and> rn_term n' = rn_term n)"

lemmas node_change_defs = node_grows_def no_new_leader_def

named_theorems node_change \<open>effect of a critical section on identity, term, vote and role of its node\<close>

lemma node_grows_refl [simp]: "node_grows n n" by (simp add: node_grows_def)
lemma no_new_leader_refl [simp]: "no_new_leader n n" by (simp add: no_new_leader_def)

lemma node_grows_trans: "\<lbrakk>node_grows a b; node_grows b c\<rbrakk> \<Longrightarrow> node_grows a c"
  by (auto simp: node_grows_def)

lemma BecomeFollower_change [node_change]:
  "rn_term n < t \<Longrightarrow> node_grows n (BecomeFollower t l n) \<and> no_new_leader n (BecomeFollower t l n)"
  by (auto simp: BecomeFollower_def node_change_defs)

lemma vote_change [node_change]:
  "OnRequestVote n req = (n', resp) \<Longrightarrow> node_grows n n' \<and> no_new_leader n n'"
  by (drule vote_effect) (auto simp: node_change_defs)

lemma append_change [node_change]:
  "OnAppendEntries n req = (n', resp) \<Longrightarrow> node_grows n n' \<and> no_new_leader n n'"
  by (drule append_effect) (auto simp: node_change_defs)

lemma propose_append_change [node_change]:
  "propose_append n op key val = Some (n', e) \<Longrightarrow> node_grows n n' \<and> no_new_leader n n'"
  by (auto simp: propose_append_def node_change_defs Let_def split: if_splits)

lemma propose_reply_change [node_change]:
  "propose_reply n resp acks = (n', r) \<Longrightarrow> node_grows n n' \<and> no_new_leader n n'"
  by (auto simp: propose_reply_def Let_def BecomeFollower_change split: if_splits)

lemma heartbeat_ack_change [node_change]:
  "heartbeat_ack n resp = (n', b) \<Longrightarrow> node_grows n n' \<and> no_new_leader n n'"
  by (auto simp: heartbeat_ack_def BecomeFollower_change split: if_splits)

lemma AdvanceCommitIndex_fields [simp]:
  "rn_id (AdvanceCommitIndex n) = rn_id n" "rn_peers (AdvanceCommitIndex n) = rn_peers n"
  "rn_term (AdvanceCommitIndex n) = rn_term n" "rn_voted (AdvanceCommitIndex n) = rn_voted n"
  "rn_role (AdvanceCommitIndex n) = rn_role n" "rn_log (AdvanceCommitIndex n) = rn_log n"
  "rn_applied (AdvanceCommitIndex n) = rn_applied n"
  "rn_next (AdvanceCommitIndex n) = rn_next n" "rn_match (AdvanceCommitIndex n) = rn_match n"
  by (simp_all add: AdvanceCommitIndex_def Let_def)

lemma heartbeat_reply_change [node_change]:
  "heartbeat_reply n p req resp = (n', b) \<Longrightarrow> node_grows n n' \<and> no_new_leader n n'"
  by (auto simp: heartbeat_reply_def Let_def node_change_defs BecomeFollower_def split: if_splits option.splits)

lemma apply_take_change [node_change]:
  "apply_take n = (n', r) \<Longrightarrow> node_grows n n' \<and> no_new_leader n n'"
  by (auto simp: apply_take_def Let_def node_change_defs split: if_splits)

lemma less_Suc_term:
  assumes "t + 1 \<noteq> (0 :: u64)"
  shows "t < t + 1"
proof -
  have "unat t + 1 \<noteq> 2 ^ 64"
  proof
    assume "unat t + 1 = 2 ^ 64"
    then have "unat (t + 1) = 0" by (simp add: unat_word_ariths)
    with assms show False by (simp add: unsigned_eq_0_iff)
  qed
  with unat_u64_less [of t] show ?thesis by (subst less_Suc_u64) simp_all
qed

lemma election_start_change [node_change]:
  "\<lbrakk>election_start n = (n', r); rn_term n + 1 \<noteq> 0\<rbrakk> \<Longrightarrow> node_grows n n' \<and> no_new_leader n n'"
  using less_Suc_term [of "rn_term n"]
  by (auto simp: election_start_def BecomeCandidate_def node_change_defs Let_def)

lemma election_reply_change:
  "election_reply n t resp votes = (n', votes', b) \<Longrightarrow> node_grows n n'"
  by (auto simp: election_reply_def BecomeLeader_def BecomeFollower_def node_change_defs Let_def split: if_splits)

section \<open>The invariant\<close>

text \<open>
  \<open>V p t\<close> is the vote node \<open>p\<close> gave in term \<open>t\<close>.  A leader holds the votes of a majority in its term, and a
  round of requests that has counted \<open>k\<close> votes has them from \<open>k\<close> different nodes it will not ask again.
\<close>

definition vote_inv :: "int list \<Rightarrow> (int \<Rightarrow> u64 \<Rightarrow> int option) \<Rightarrow> (int \<Rightarrow> raft_node) \<Rightarrow> bool" where
  "vote_inv I V N \<longleftrightarrow> (\<forall>i. rn_id (N i) = i \<and> rn_peers (N i) = removeAll i I
     \<and> V i (rn_term (N i)) = rn_voted (N i) \<and> (\<forall>t > rn_term (N i). V i t = None)
     \<and> (rn_role (N i) = Leader \<longrightarrow> majority I {p \<in> set I. V p (rn_term (N i)) = Some i}))"

definition voters :: "int list \<Rightarrow> (int \<Rightarrow> u64 \<Rightarrow> int option) \<Rightarrow> int \<Rightarrow> request_vote_req \<Rightarrow> nat \<Rightarrow> int list \<Rightarrow> bool" where
  "voters I V i r k ps \<longleftrightarrow> rv_candidate r = i \<and> distinct ps \<and> set ps \<subseteq> set I
     \<and> (\<exists>Q \<subseteq> set I - set ps. k \<le> card Q \<and> (\<forall>p \<in> Q. V p (rv_term r) = Some i))"

fun ballot :: "int list \<Rightarrow> (int \<Rightarrow> u64 \<Rightarrow> int option) \<Rightarrow> int \<Rightarrow> elect_pc \<Rightarrow> bool" where
  "ballot I V i EIdle \<longleftrightarrow> True"
| "ballot I V i (EAsk r votes ps) \<longleftrightarrow> voters I V i r votes ps"
| "ballot I V i (EGot r votes resp ps) \<longleftrightarrow> voters I V i r (votes + (if rvr_granted resp then 1 else 0)) ps"

definition ballot_inv :: "int list \<Rightarrow> (int \<Rightarrow> u64 \<Rightarrow> int option) \<Rightarrow> (int \<Rightarrow> elect_pc) \<Rightarrow> bool" where
  "ballot_inv I V E \<longleftrightarrow> (\<forall>i \<in> set I. ballot I V i (E i))"

definition votes_kept :: "(int \<Rightarrow> u64 \<Rightarrow> int option) \<Rightarrow> (int \<Rightarrow> u64 \<Rightarrow> int option) \<Rightarrow> bool" where
  "votes_kept V V' \<longleftrightarrow> (\<forall>p t j. V p t = Some j \<longrightarrow> V' p t = Some j)"

definition elect_inv :: "int list \<Rightarrow> (int \<Rightarrow> u64 \<Rightarrow> int option) \<Rightarrow> cluster \<Rightarrow> bool" where
  "elect_inv I V c \<longleftrightarrow> vote_inv I V (cl_nodes c) \<and> ballot_inv I V (cl_elect c)"

text \<open>The invariant holds after a step, for the history of votes with what the step added.\<close>

definition elect_next :: "int list \<Rightarrow> (int \<Rightarrow> u64 \<Rightarrow> int option) \<Rightarrow> cluster \<Rightarrow> bool" where
  "elect_next I V c \<longleftrightarrow> (\<exists>V'. votes_kept V V' \<and> elect_inv I V' c)"

lemma voters_mono: "\<lbrakk>voters I V i r k ps; votes_kept V V'\<rbrakk> \<Longrightarrow> voters I V' i r k ps"
  unfolding voters_def votes_kept_def by meson

lemma ballot_mono: "\<lbrakk>ballot I V i e; votes_kept V V'\<rbrakk> \<Longrightarrow> ballot I V' i e"
  by (cases e) (auto intro: voters_mono)

lemma ballot_inv_update:
  "\<lbrakk>ballot_inv I V E; votes_kept V V'; i \<in> set I \<Longrightarrow> ballot I V' i e\<rbrakk> \<Longrightarrow> ballot_inv I V' (E(i := e))"
  by (auto simp: ballot_inv_def intro: ballot_mono)

lemma ballot_inv_mono: "\<lbrakk>ballot_inv I V E; votes_kept V V'\<rbrakk> \<Longrightarrow> ballot_inv I V' E"
  by (auto simp: ballot_inv_def intro: ballot_mono)

lemma votes_kept_refl [simp]: "votes_kept V V" by (simp add: votes_kept_def)

text \<open>A node that grows extends the history of votes.\<close>

lemma vote_inv_update:
  assumes inv: "vote_inv I V N" and g: "node_grows (N p) n"
    and ldr: "rn_role n = Leader \<Longrightarrow> majority I {q \<in> set I. V q (rn_term n) = Some p}"
  defines "V' \<equiv> V(p := (V p)(rn_term n := rn_voted n))"
  shows "votes_kept V V'" and "vote_inv I V' (N(p := n))"
proof -
  have P: "V p (rn_term (N p)) = rn_voted (N p)" "\<And>t. rn_term (N p) < t \<Longrightarrow> V p t = None"
    using inv by (auto simp: vote_inv_def)
  show kept: "votes_kept V V'"
    unfolding votes_kept_def
  proof (intro allI impI)
    fix q t j assume v: "V q t = Some j"
    show "V' q t = Some j"
    proof (cases "q = p \<and> t = rn_term n")
      case True
      then have "rn_term n \<le> rn_term (N p)" using v P(2) by (metis not_less option.distinct(1))
      then have "rn_term n = rn_term (N p)" using g by (simp add: node_grows_def)
      then show ?thesis using True v g P(1) by (simp add: V'_def node_grows_def)
    qed (use v in \<open>auto simp: V'_def\<close>)
  qed
  have maj: "majority I {q \<in> set I. V' q t = Some i}" if "majority I {q \<in> set I. V q t = Some i}" for t i
    using that by (rule maj.more_votes) (use kept in \<open>simp add: votes_kept_def\<close>)
  show "vote_inv I V' (N(p := n))"
    unfolding vote_inv_def
  proof (intro allI conjI impI)
    fix i
    show "rn_id ((N(p := n)) i) = i" "rn_peers ((N(p := n)) i) = removeAll i I"
      using inv g by (auto simp: vote_inv_def node_grows_def)
    show "V' i (rn_term ((N(p := n)) i)) = rn_voted ((N(p := n)) i)"
      using inv by (auto simp: V'_def vote_inv_def)
    show "V' i t = None" if "rn_term ((N(p := n)) i) < t" for t
      using that inv g by (auto simp: V'_def vote_inv_def node_grows_def split: if_splits)
    show "majority I {q \<in> set I. V' q (rn_term ((N(p := n)) i)) = Some i}" if "rn_role ((N(p := n)) i) = Leader"
    proof (rule maj)
      show "majority I {q \<in> set I. V q (rn_term ((N(p := n)) i)) = Some i}"
        using that ldr inv by (cases "i = p") (auto simp: vote_inv_def)
    qed
  qed
qed

lemma leader_kept:
  "\<lbrakk>vote_inv I V N; no_new_leader (N p) n; rn_role n = Leader\<rbrakk> \<Longrightarrow> majority I {q \<in> set I. V q (rn_term n) = Some p}"
  by (auto simp: vote_inv_def no_new_leader_def)

lemma elect_inv_node:
  assumes "elect_inv I V c" and "node_grows (cl_nodes c p) n \<and> no_new_leader (cl_nodes c p) n"
    and "cl_nodes c' = (cl_nodes c)(p := n)" and "cl_elect c' = cl_elect c"
  shows "elect_next I V c'"
proof -
  have V: "vote_inv I V (cl_nodes c)" "ballot_inv I V (cl_elect c)"
    using assms(1) by (simp_all add: elect_inv_def)
  note up = vote_inv_update [OF V(1) conjunct1 [OF assms(2)] leader_kept [OF V(1) conjunct2 [OF assms(2)]]]
  from up ballot_inv_mono [OF V(2) up(1)] show ?thesis unfolding elect_next_def elect_inv_def assms(3,4) by blast
qed

lemma elect_next_same: "elect_inv I V c \<Longrightarrow> elect_next I V c"
  unfolding elect_next_def by (intro exI [of _ V]) simp

text \<open>The four steps of the election thread.\<close>

lemma elect_start_inv:
  assumes inv: "elect_inv I V c" and i: "i \<in> set I" "distinct I" and t: "rn_term (cl_nodes c i) + 1 \<noteq> 0"
    and s: "election_start (cl_nodes c i) = (n, r)"
  shows "elect_next I V ((set_node i n c)\<lparr>cl_elect := (cl_elect c)(i := EAsk r 1 (rn_peers n))\<rparr>)"
proof -
  have V: "vote_inv I V (cl_nodes c)" "ballot_inv I V (cl_elect c)"
    using inv by (simp_all add: elect_inv_def)
  have ch: "node_grows (cl_nodes c i) n" "no_new_leader (cl_nodes c i) n"
    using election_start_change [OF s t] by auto
  note up = vote_inv_update [OF V(1) ch(1) leader_kept [OF V(1) ch(2)]]
  let ?V = "V(i := (V i)(rn_term n := rn_voted n))"
  have n: "rv_term r = rn_term n" "rv_candidate r = i" "rn_voted n = Some i" "rn_peers n = removeAll i I"
    using s V(1) by (auto simp: election_start_def BecomeCandidate_def Let_def vote_inv_def)
  have "voters I ?V i r 1 (rn_peers n)"
    unfolding voters_def n using i by (intro conjI exI [of _ "{i}"]) (auto simp: distinct_removeAll n)
  with up ballot_inv_update [OF V(2) up(1), of i "EAsk r 1 (rn_peers n)"] show ?thesis
    unfolding elect_next_def elect_inv_def set_node_def by (intro exI [of _ ?V]) simp
qed

lemma elect_ask_inv:
  assumes inv: "elect_inv I V c" and i: "i \<in> set I" and pc: "cl_elect c i = EAsk r votes (p # ps)"
    and tr: "transport_vote c p r = (c1, resp)"
  shows "elect_next I V (c1\<lparr>cl_elect := (cl_elect c1)(i := EGot r votes resp ps)\<rparr>)"
proof -
  have V: "vote_inv I V (cl_nodes c)" "ballot_inv I V (cl_elect c)"
    using inv by (simp_all add: elect_inv_def)
  have vs: "voters I V i r votes (p # ps)" using V(2) i pc by (auto simp: ballot_inv_def)
  show ?thesis
  proof (cases "p \<in> set (cl_up c)")
    case False
    then have c1: "c1 = c" "\<not> rvr_granted resp" using tr by (auto simp: transport_vote_def)
    have "voters I V i r votes ps" using vs by (auto simp: voters_def)
    then show ?thesis
      using V ballot_inv_update [OF V(2) votes_kept_refl, of i "EGot r votes resp ps"] c1
      unfolding elect_next_def elect_inv_def by (intro exI [of _ V]) simp
  next
    case True
    then obtain n where on: "OnRequestVote (cl_nodes c p) r = (n, resp)" and c1: "c1 = set_node p n c"
      using tr by (auto simp: transport_vote_def split: prod.splits)
    have ch: "node_grows (cl_nodes c p) n" "no_new_leader (cl_nodes c p) n" using vote_change [OF on] by auto
    note up = vote_inv_update [OF V(1) ch(1) leader_kept [OF V(1) ch(2)]]
    let ?V = "V(p := (V p)(rn_term n := rn_voted n))"
    obtain Q where Q: "rv_candidate r = i" "distinct ps" "p \<notin> set ps" "p \<in> set I" "set ps \<subseteq> set I" "Q \<subseteq> set I - set (p # ps)"
      "votes \<le> card Q" "\<forall>q \<in> Q. ?V q (rv_term r) = Some i"
      using voters_mono [OF vs up(1)] unfolding voters_def by auto
    have granted: "rn_voted n = Some i \<and> rn_term n = rv_term r" if "rvr_granted resp"
      using vote_effect [OF on] that Q(1) by auto
    have fin: "finite Q" "p \<notin> Q" using Q(6) by (auto intro: finite_subset)
    have "voters I ?V i r (votes + (if rvr_granted resp then 1 else 0)) ps"
      unfolding voters_def using Q granted fin
      by (intro conjI exI [of _ "if rvr_granted resp then insert p Q else Q"]) auto
    then show ?thesis
      using up ballot_inv_update [OF V(2) up(1), of i "EGot r votes resp ps"]
      unfolding elect_next_def elect_inv_def c1 set_node_def by (intro exI [of _ ?V]) simp
  qed
qed

lemma elect_got_inv:
  assumes inv: "elect_inv I V c" and i: "i \<in> set I" "distinct I" and pc: "cl_elect c i = EGot r votes resp ps"
    and rep: "election_reply (cl_nodes c i) (rv_term r) resp votes = (n, votes', go_on)"
  shows "elect_next I V ((set_node i n c)\<lparr>cl_elect := (cl_elect c)(i := if go_on then EAsk r votes' ps else EIdle)\<rparr>)"
proof -
  have V: "vote_inv I V (cl_nodes c)" "ballot_inv I V (cl_elect c)"
    using inv by (simp_all add: elect_inv_def)
  let ?k = "votes + (if rvr_granted resp then 1 else 0)"
  have vs: "voters I V i r ?k ps" using V(2) i pc by (auto simp: ballot_inv_def)
  have needed: "votes_needed (cl_nodes c i) = length I div 2 + 1"
    using V(1) i by (simp add: votes_needed_def vote_inv_def distinct_remove1_removeAll [symmetric] length_remove1)
  have ldr: "majority I {q \<in> set I. V q (rn_term n) = Some i}" if "rn_role n = Leader"
  proof -
    have "rn_term n = rv_term r \<and> length I div 2 + 1 \<le> ?k \<or> rn_role (cl_nodes c i) = Leader \<and> rn_term n = rn_term (cl_nodes c i)"
      using rep that needed
      by (auto simp: election_reply_def Let_def BecomeFollower_def BecomeLeader_def split: if_splits)
    then show ?thesis
    proof
      assume k: "rn_term n = rv_term r \<and> length I div 2 + 1 \<le> ?k"
      from vs obtain Q where "Q \<subseteq> set I" "?k \<le> card Q" "\<forall>q \<in> Q. V q (rv_term r) = Some i"
        unfolding voters_def by auto
      with k have "majority I Q" "Q \<subseteq> {q \<in> set I. V q (rn_term n) = Some i}" by (auto simp: majority_def)
      then show ?thesis by (rule maj.quorum_mono) auto
    qed (use V(1) in \<open>auto simp: vote_inv_def\<close>)
  qed
  note up = vote_inv_update [OF V(1) election_reply_change [OF rep] ldr]
  let ?V = "V(i := (V i)(rn_term n := rn_voted n))"
  have "ballot I ?V i (if go_on then EAsk r votes' ps else EIdle)"
    using rep voters_mono [OF vs up(1)] by (auto simp: election_reply_def Let_def split: if_splits)
  then show ?thesis
    using up ballot_inv_update [OF V(2) up(1), of i "if go_on then EAsk r votes' ps else EIdle"]
    unfolding elect_next_def elect_inv_def set_node_def by (intro exI [of _ ?V]) simp
qed

lemma elect_step_inv:
  assumes "elect_inv I V c" and "i \<in> set I" "distinct I" and "rn_term (cl_nodes c i) + 1 \<noteq> 0"
  shows "elect_next I V (elect_step i c)"
proof (cases "cl_elect c i")
  case EIdle
  then show ?thesis
    using assms elect_start_inv [OF assms] elect_next_same by (auto simp: elect_step_def split: prod.splits)
next
  case (EAsk r votes ps)
  show ?thesis
  proof (cases ps)
    case Nil
    have "elect_inv I V (c\<lparr>cl_elect := (cl_elect c)(i := EIdle)\<rparr>)"
      using assms(1) ballot_inv_update [OF _ votes_kept_refl, of I V "cl_elect c" i EIdle] by (simp add: elect_inv_def)
    from elect_next_same [OF this] show ?thesis using EAsk Nil by (simp add: elect_step_def)
  next
    case (Cons p qs)
    obtain c1 resp where tr: "transport_vote c p r = (c1, resp)" by force
    show ?thesis using elect_ask_inv [OF assms(1,2) _ tr, of votes qs] EAsk Cons tr by (simp add: elect_step_def)
  qed
next
  case (EGot r votes resp ps)
  obtain n votes' go_on where rep: "election_reply (cl_nodes c i) (rv_term r) resp votes = (n, votes', go_on)"
    by (metis prod_cases3)
  show ?thesis using elect_got_inv [OF assms(1-3) EGot rep] EGot rep by (simp add: elect_step_def)
qed

section \<open>The other threads\<close>

text \<open>A step of any other thread changes one node, which grows, and leaves the election threads alone.\<close>

definition quiet :: "cluster \<Rightarrow> cluster \<Rightarrow> bool" where
  "quiet c c' \<longleftrightarrow> cl_elect c' = cl_elect c
     \<and> (\<exists>p n. node_grows (cl_nodes c p) n \<and> no_new_leader (cl_nodes c p) n \<and> cl_nodes c' = (cl_nodes c)(p := n))"

lemma quiet_same: "\<lbrakk>cl_elect c' = cl_elect c; cl_nodes c' = cl_nodes c\<rbrakk> \<Longrightarrow> quiet c c'"
  unfolding quiet_def by (intro conjI exI [of _ 0] exI [of _ "cl_nodes c 0"]) auto

lemma quiet_node:
  "\<lbrakk>node_grows (cl_nodes c p) n \<and> no_new_leader (cl_nodes c p) n; cl_nodes c' = (cl_nodes c)(p := n); cl_elect c' = cl_elect c\<rbrakk>
    \<Longrightarrow> quiet c c'"
  unfolding quiet_def by blast

lemma quiet_transport: "transport_append c p req = (c1, resp) \<Longrightarrow> quiet c c1"
  by (auto simp: transport_append_def set_node_def split: if_splits prod.splits
      intro: quiet_same quiet_node [OF append_change])

lemma quiet_more: "\<lbrakk>quiet c c1; cl_nodes c' = cl_nodes c1; cl_elect c' = cl_elect c1\<rbrakk> \<Longrightarrow> quiet c c'"
  by (simp add: quiet_def)

lemma quiet_beat: "quiet c (beat_step i c)"
proof (cases "cl_beat c i")
  case (BSend p req ps)
  then show ?thesis
    by (auto simp: beat_step_def split: prod.splits intro: quiet_more [OF quiet_transport])
next
  case (BGot p req resp ps)
  then show ?thesis
    by (auto simp: beat_step_def set_node_def split: prod.splits intro!: quiet_node [OF heartbeat_reply_change])
qed (auto simp: beat_step_def intro: quiet_same split: list.splits)

lemma quiet_call: "quiet c (call_start i op key val c)"
  by (auto simp: call_start_def set_node_def split: option.splits
      intro: quiet_same quiet_node [OF propose_append_change])

lemma set_call_fields [simp]:
  "cl_nodes (set_call i k pc c) = cl_nodes c" "cl_elect (set_call i k pc c) = cl_elect c"
  "cl_applied (set_call i k pc c) = cl_applied c"
  by (simp_all add: set_call_def)

lemma quiet_call_step: "quiet c (call_step i k c)"
proof (cases "k < length (cl_calls c i)")
  case True
  then have open_call: "\<not> length (cl_calls c i) \<le> k" by simp
  show ?thesis
  proof (cases "cl_calls c i ! k")
    case (CAsk req acks ps)
    with open_call show ?thesis
      by (auto simp: call_step_def split: list.splits prod.splits intro: quiet_same quiet_more [OF quiet_transport])
  next
    case (CGot req acks resp ps)
    with open_call show ?thesis
      by (auto simp: call_step_def set_node_def split: prod.splits intro!: quiet_node [OF propose_reply_change])
  next
    case (CBeat hb ps)
    with open_call show ?thesis
      by (auto simp: call_step_def split: list.splits prod.splits intro: quiet_same quiet_more [OF quiet_transport])
  next
    case (CBeatGot hb resp ps)
    with open_call show ?thesis
      by (auto simp: call_step_def set_node_def split: prod.splits intro!: quiet_node [OF heartbeat_ack_change])
  qed (auto simp: call_step_def intro: quiet_same)
qed (simp add: call_step_def quiet_same)

lemma quiet_apply: "quiet c (apply_step i c)"
  by (auto simp: apply_step_def set_node_def split: prod.splits apply_result.splits
      intro: quiet_same quiet_node [OF apply_take_change])

lemma quiet_act: "(\<And>i. a \<noteq> Elect i) \<Longrightarrow> quiet c (raft_act a c)"
  by (cases a) (auto simp: quiet_beat quiet_call quiet_call_step quiet_apply
      transport_register_def transport_unregister_def intro: quiet_same)

lemma elect_inv_quiet: "\<lbrakk>elect_inv I V c; quiet c c'\<rbrakk> \<Longrightarrow> elect_next I V c'"
  by (auto simp: quiet_def intro: elect_inv_node)

lemma raft_act_inv: "\<lbrakk>elect_inv I V c; distinct I; action_ok I c a\<rbrakk> \<Longrightarrow> elect_next I V (raft_act a c)"
  by (cases a) (auto simp: elect_step_inv intro!: elect_inv_quiet [OF _ quiet_act] simp del: raft_act.simps(2-7))

lemma raft_reach_distinct: "raft_reach I c \<Longrightarrow> distinct I"
  by (induction rule: raft_reach.induct) (auto simp: cluster_init_def)

lemma elect_inv_init: "cluster_init I c \<Longrightarrow> elect_inv I (\<lambda>_ _. None) c"
  by (auto simp: elect_inv_def vote_inv_def ballot_inv_def cluster_init_def raft_new_def)

lemma raft_reach_inv: "raft_reach I c \<Longrightarrow> \<exists>V. elect_inv I V c"
proof (induction rule: raft_reach.induct)
  case (Init c)
  then show ?case using elect_inv_init by blast
next
  case (Step c a)
  then show ?case using raft_act_inv raft_reach_distinct unfolding elect_next_def by blast
qed

section \<open>Histories of one node\<close>

lemma quiet_grows: "quiet c c' \<Longrightarrow> node_grows (cl_nodes c i) (cl_nodes c' i)"
  by (auto simp: quiet_def)

lemma transport_vote_grows:
  "transport_vote c p r = (c1, resp) \<Longrightarrow> node_grows (cl_nodes c i) (cl_nodes c1 i)"
  by (auto simp: transport_vote_def set_node_def vote_change split: if_splits prod.splits)

lemma elect_step_grows:
  "rn_term (cl_nodes c i) + 1 \<noteq> 0 \<Longrightarrow> node_grows (cl_nodes c j) (cl_nodes (elect_step i c) j)"
  by (auto simp: elect_step_def set_node_def election_start_change election_reply_change transport_vote_grows
      split: elect_pc.splits list.splits prod.splits)

lemma raft_act_grows: "action_ok I c a \<Longrightarrow> node_grows (cl_nodes c i) (cl_nodes (raft_act a c) i)"
  by (cases a) (auto simp: elect_step_grows intro!: quiet_grows [OF quiet_act] simp del: raft_act.simps(2-7))

lemma raft_run_grows: "raft_run I as c = Some c' \<Longrightarrow> node_grows (cl_nodes c i) (cl_nodes c' i)"
  by (induction I as c rule: raft_run.induct) (auto intro: node_grows_trans raft_act_grows split: if_splits)

text \<open>Only the apply thread moves the applied index.\<close>

named_theorems applied_kept \<open>sections that leave the applied index alone\<close>

lemma sections_applied [applied_kept]:
  "OnRequestVote n rv = (n', rvr) \<Longrightarrow> rn_applied n' = rn_applied n"
  "propose_append n op key val = Some (n', e) \<Longrightarrow> rn_applied n' = rn_applied n"
  "propose_reply n aer acks = (n', r) \<Longrightarrow> rn_applied n' = rn_applied n"
  "heartbeat_ack n aer = (n', b) \<Longrightarrow> rn_applied n' = rn_applied n"
  "election_start n = (n', rv) \<Longrightarrow> rn_applied n' = rn_applied n"
  "election_reply n t rvr votes = (n', votes', b) \<Longrightarrow> rn_applied n' = rn_applied n"
  by (auto simp: OnRequestVote_def propose_append_def propose_reply_def heartbeat_ack_def election_start_def
      election_reply_def BecomeFollower_def BecomeCandidate_def BecomeLeader_def Let_def split: if_splits)

lemma append_applied [applied_kept]: "OnAppendEntries n req = (n', resp) \<Longrightarrow> rn_applied n' = rn_applied n"
  by (auto simp: OnAppendEntries_def BecomeFollower_def Let_def split: if_splits)

lemma heartbeat_reply_applied [applied_kept]:
  "heartbeat_reply n p req resp = (n', b) \<Longrightarrow> rn_applied n' = rn_applied n"
  by (auto simp: heartbeat_reply_def BecomeFollower_def Let_def split: if_splits option.splits)

definition applied_same :: "cluster \<Rightarrow> cluster \<Rightarrow> bool" where
  "applied_same c c' \<longleftrightarrow> cl_applied c' = cl_applied c \<and> (\<forall>i. rn_applied (cl_nodes c' i) = rn_applied (cl_nodes c i))"

lemma transport_applied [applied_kept]:
  "transport_vote c p rv = (c1, rvr) \<Longrightarrow> applied_same c c1"
  "transport_append c p ae = (c1, aer) \<Longrightarrow> applied_same c c1"
  by (auto simp: transport_vote_def transport_append_def applied_same_def set_node_def applied_kept
      split: if_splits prod.splits)

lemma thread_applied:
  "applied_same c (elect_step i c)" "applied_same c (beat_step i c)"
  "applied_same c (call_start i op key val c)" "applied_same c (call_step i k c)"
  by (auto simp: elect_step_def beat_step_def call_start_def call_step_def applied_same_def set_node_def
      sections_applied append_applied heartbeat_reply_applied
      split: elect_pc.splits beat_pc.splits call_pc.splits list.splits prod.splits option.splits
      dest!: transport_applied)

definition apply_inv :: "cluster \<Rightarrow> bool" where
  "apply_inv c \<longleftrightarrow> (\<forall>i. length (cl_applied c i) = unat (rn_applied (cl_nodes c i)))"

lemma apply_step_inv:
  assumes "apply_inv c"
  shows "apply_inv (apply_step i c) \<and> prefix (cl_applied c j) (cl_applied (apply_step i c) j)"
proof (cases "snd (apply_take (cl_nodes c i))")
  case (ApplyEntry e)
  let ?n = "cl_nodes c i"
  from ApplyEntry have lt: "rn_applied ?n < rn_commit ?n"
    and n: "apply_take ?n = (?n\<lparr>rn_applied := rn_applied ?n + 1\<rparr>, ApplyEntry e)"
    by (auto simp: apply_take_def Let_def split: if_splits)
  have "unat (rn_applied ?n + 1) = unat (rn_applied ?n) + 1"
    using lt unat_u64_less [of "rn_commit ?n"] by (intro unat_Suc_u64) (simp add: word_less_nat_alt)
  with assms n show ?thesis by (auto simp: apply_step_def apply_inv_def set_node_def)
qed (use assms in \<open>auto simp: apply_step_def split: prod.splits\<close>)

lemma raft_act_apply:
  assumes "apply_inv c"
  shows "apply_inv (raft_act a c) \<and> prefix (cl_applied c j) (cl_applied (raft_act a c) j)"
proof -
  have "apply_inv c' \<and> prefix (cl_applied c j) (cl_applied c' j)" if "applied_same c c'" for c'
    using that assms by (auto simp: applied_same_def apply_inv_def)
  moreover have "applied_same c (transport_register i c)" "applied_same c (transport_unregister i c)" for i
    by (simp_all add: applied_same_def transport_register_def transport_unregister_def)
  ultimately show ?thesis
    using apply_step_inv [OF assms] thread_applied [of c] by (cases a) auto
qed

lemma raft_run_apply:
  "\<lbrakk>raft_run I as c = Some c'; apply_inv c\<rbrakk> \<Longrightarrow> apply_inv c' \<and> prefix (cl_applied c j) (cl_applied c' j)"
proof (induction I as c rule: raft_run.induct)
  case (2 I a as c)
  then show ?case
    using raft_act_apply [of c a j] by (auto intro: prefix_order.order_trans split: if_splits)
qed simp

lemma raft_reach_apply: "raft_reach I c \<Longrightarrow> apply_inv c"
  by (induction rule: raft_reach.induct) (auto simp: raft_act_apply, auto simp: apply_inv_def cluster_init_def raft_new_def)

text \<open>What one step of the apply thread does, and that no other action touches what has been applied.\<close>

lemma apply_step_applied:
  assumes "apply_inv c"
  shows "cl_applied (apply_step i c) i =
    (let n = cl_nodes c i; k = length (cl_applied c i)
     in if k < unat (rn_commit n) \<and> k < length (rn_log n) then cl_applied c i @ [rn_log n ! k] else cl_applied c i)"
proof -
  have "unat (rn_applied (cl_nodes c i)) = length (cl_applied c i)" using assms by (simp add: apply_inv_def)
  then show ?thesis
    by (auto simp: apply_step_def apply_take_def set_node_def word_less_nat_alt Let_def)
qed

lemma applied_changes:
  assumes "cl_applied (raft_act a c) i \<noteq> cl_applied c i"
  shows "a = Apply i"
proof (cases a)
  case (Apply j)
  then show ?thesis
    using assms by (cases "j = i") (auto simp: apply_step_def set_node_def split: prod.splits apply_result.splits)
qed (use assms thread_applied [of c] in
    \<open>simp_all add: applied_same_def transport_register_def transport_unregister_def\<close>)

text \<open>Entry \<open>k\<close> of the state machine was handed over by a step of the run that found it at position \<open>k\<close> of the log.\<close>

definition handed_over :: "int list \<Rightarrow> raft_action list \<Rightarrow> cluster \<Rightarrow> int \<Rightarrow> nat \<Rightarrow> log_entry \<Rightarrow> bool" where
  "handed_over I as c i k e \<longleftrightarrow> (\<exists>xs ys d. as = xs @ Apply i # ys \<and> raft_run I xs c = Some d
     \<and> length (cl_applied d i) = k \<and> k < unat (rn_commit (cl_nodes d i))
     \<and> k < length (rn_log (cl_nodes d i)) \<and> rn_log (cl_nodes d i) ! k = e)"

lemma handed_over_Cons:
  assumes "action_ok I c a" "handed_over I as (raft_act a c) i k e"
  shows "handed_over I (a # as) c i k e"
  using assms unfolding handed_over_def by (metis append_Cons raft_run.simps(2))

lemma raft_run_handed:
  assumes "raft_run I as c = Some c'" "apply_inv c" "length (cl_applied c i) \<le> k" "k < length (cl_applied c' i)"
  shows "handed_over I as c i k (cl_applied c' i ! k)"
  using assms
proof (induction I as c rule: raft_run.induct)
  case (2 I a as c)
  let ?d = "raft_act a c"
  have ok: "action_ok I c a" and run: "raft_run I as ?d = Some c'"
    using "2.prems"(1) by (auto split: if_splits)
  have inv: "apply_inv ?d" using raft_act_apply [OF "2.prems"(2)] by blast
  show ?case
  proof (cases "length (cl_applied ?d i) \<le> k")
    case True
    then show ?thesis using handed_over_Cons [OF ok] "2.IH" ok run inv "2.prems"(4) by blast
  next
    case False
    then have "cl_applied ?d i \<noteq> cl_applied c i" using "2.prems"(3) by auto
    then have a: "a = Apply i" by (rule applied_changes)
    let ?n = "cl_nodes c i"
    have k: "k = length (cl_applied c i)" "k < unat (rn_commit ?n)" "k < length (rn_log ?n)"
      "cl_applied ?d i = cl_applied c i @ [rn_log ?n ! k]"
      using False "2.prems"(3) apply_step_applied [OF "2.prems"(2), of i] by (auto simp: a Let_def not_less_eq_eq le_antisym split: if_splits)
    have "prefix (cl_applied ?d i) (cl_applied c' i)" using raft_run_apply [OF run inv] by blast
    then have "cl_applied c' i ! k = rn_log ?n ! k" using k(1,4) by (auto simp: prefix_def nth_append)
    then show ?thesis unfolding handed_over_def a using k(1-3)
      by (intro exI [of _ "[]"] exI [of _ as] exI [of _ c]) simp
  qed
qed simp

section \<open>Roles\<close>

text \<open>A candidate has voted for itself, and so has a leader, which knows that it is the leader.\<close>

definition role_inv :: "raft_node \<Rightarrow> bool" where
  "role_inv n \<longleftrightarrow> (rn_role n \<noteq> Follower \<longrightarrow> rn_voted n = Some (rn_id n)) \<and> (rn_role n = Leader \<longrightarrow> rn_leader n = Some (rn_id n))"

lemma sections_role:
  "\<lbrakk>OnRequestVote n rv = (n', rvr); role_inv n\<rbrakk> \<Longrightarrow> role_inv n'"
  "\<lbrakk>propose_append n op key val = Some (n', e); role_inv n\<rbrakk> \<Longrightarrow> role_inv n'"
  "\<lbrakk>propose_reply n aer acks = (n', r); role_inv n\<rbrakk> \<Longrightarrow> role_inv n'"
  "\<lbrakk>heartbeat_ack n aer = (n', b); role_inv n\<rbrakk> \<Longrightarrow> role_inv n'"
  "\<lbrakk>election_start n = (n', rv'); role_inv n\<rbrakk> \<Longrightarrow> role_inv n'"
  "\<lbrakk>election_reply n t rvr votes = (n', votes', b); role_inv n\<rbrakk> \<Longrightarrow> role_inv n'"
  "\<lbrakk>apply_take n = (n', res); role_inv n\<rbrakk> \<Longrightarrow> role_inv n'"
  by (auto simp: OnRequestVote_def propose_append_def propose_reply_def heartbeat_ack_def election_start_def apply_take_def
      election_reply_def BecomeFollower_def BecomeCandidate_def BecomeLeader_def role_inv_def Let_def split: if_splits)

lemma append_role: "\<lbrakk>OnAppendEntries n req = (n', resp); role_inv n\<rbrakk> \<Longrightarrow> role_inv n'"
  by (auto simp: OnAppendEntries_def BecomeFollower_def role_inv_def Let_def split: if_splits)

lemma AdvanceCommitIndex_leader [simp]: "rn_leader (AdvanceCommitIndex n) = rn_leader n"
  by (simp add: AdvanceCommitIndex_def Let_def)

lemma heartbeat_reply_role: "\<lbrakk>heartbeat_reply n p req resp = (n', b); role_inv n\<rbrakk> \<Longrightarrow> role_inv n'"
  by (auto simp: heartbeat_reply_def BecomeFollower_def role_inv_def Let_def split: if_splits option.splits)

definition roles_inv :: "cluster \<Rightarrow> bool" where
  "roles_inv c \<longleftrightarrow> (\<forall>i. role_inv (cl_nodes c i))"

lemma transport_roles:
  "\<lbrakk>transport_vote c p rv = (c1, rvr); roles_inv c\<rbrakk> \<Longrightarrow> roles_inv c1"
  "\<lbrakk>transport_append c p ae = (c1, aer); roles_inv c\<rbrakk> \<Longrightarrow> roles_inv c1"
  by (auto simp: transport_vote_def transport_append_def roles_inv_def set_node_def sections_role(1) append_role
      split: if_splits prod.splits)

lemma set_node_roles: "\<lbrakk>roles_inv c; role_inv n\<rbrakk> \<Longrightarrow> roles_inv (set_node i n c)"
  by (simp add: roles_inv_def set_node_def)

lemma roles_frame [simp]:
  "roles_inv (c\<lparr>cl_elect := e\<rparr>) = roles_inv c" "roles_inv (c\<lparr>cl_beat := b\<rparr>) = roles_inv c"
  "roles_inv (c\<lparr>cl_calls := cs\<rparr>) = roles_inv c" "roles_inv (c\<lparr>cl_applied := a\<rparr>) = roles_inv c"
  "roles_inv (c\<lparr>cl_up := u\<rparr>) = roles_inv c" "roles_inv (set_call i k pc c) = roles_inv c"
  by (simp_all add: roles_inv_def)

lemma roles_node: "roles_inv c \<Longrightarrow> role_inv (cl_nodes c i)"
  by (simp add: roles_inv_def)

lemma raft_act_roles:
  assumes r: "roles_inv c"
  shows "roles_inv (raft_act a c)"
proof (cases a)
  case (Elect i)
  then show ?thesis
    using r by (auto simp: elect_step_def transport_roles intro!: set_node_roles intro: sections_role(5,6) [OF _ roles_node]
        split: elect_pc.splits list.splits prod.splits)
next
  case (Beat i)
  then show ?thesis
    using r by (auto simp: beat_step_def transport_roles intro!: set_node_roles heartbeat_reply_role [OF _ roles_node]
        split: beat_pc.splits list.splits prod.splits)
next
  case (Call i op key val)
  then show ?thesis
    using r by (auto simp: call_start_def intro!: set_node_roles sections_role(2) [OF _ roles_node] split: option.splits)
next
  case (Call_step i k)
  then show ?thesis
    using r by (auto simp: call_step_def transport_roles intro!: set_node_roles intro: sections_role(3,4) [OF _ roles_node]
        split: call_pc.splits list.splits prod.splits)
next
  case (Apply i)
  then show ?thesis
    using r by (auto simp: apply_step_def intro!: set_node_roles sections_role(7) [OF _ roles_node]
        split: prod.splits apply_result.splits)
qed (use r in \<open>auto simp: transport_register_def transport_unregister_def\<close>)

lemma raft_reach_roles: "raft_reach I c \<Longrightarrow> roles_inv c"
  by (induction rule: raft_reach.induct)
    (simp_all add: raft_act_roles, simp add: roles_inv_def role_inv_def cluster_init_def raft_new_def)

section \<open>Properties\<close>

definition election_schedule :: "raft_action list" where
  "election_schedule = [Elect 1, Elect 2, Elect 1, Elect 1, Elect 1, Elect 2, Elect 2, Elect 1, Elect 1]"


text \<open>
  C3. Election safety: in every reachable state of a cluster, under every interleaving of the election,
  heartbeat, apply and client threads and every change of the reachable nodes, two leaders of the same
  term are the same node.
\<close>

theorem election_safety:
  assumes "raft_reach I c" and "rn_role (cl_nodes c i) = Leader" and "rn_role (cl_nodes c j) = Leader"
    and "rn_term (cl_nodes c i) = rn_term (cl_nodes c j)"
  shows "i = j"
proof -
  from raft_reach_inv [OF assms(1)] obtain V where "vote_inv I V (cl_nodes c)" unfolding elect_inv_def by blast
  then have "majority I {p \<in> set I. V p (rn_term (cl_nodes c i)) = Some i}"
    "majority I {p \<in> set I. V p (rn_term (cl_nodes c i)) = Some j}"
    using assms(2-4) by (auto simp: vote_inv_def)
  then show ?thesis by (rule maj.one_winner)
qed

theorem election_safety_witness:
  "let c = the (raft_run [1, 2, 3] election_schedule (cluster_start [1, 2, 3]))
   in rn_role (cl_nodes c 1) = Leader \<and> rn_voted (cl_nodes c 2) = Some 2
      \<and> \<not> (rn_role (cl_nodes c 2) = Leader \<and> rn_term (cl_nodes c 2) = rn_term (cl_nodes c 1))"
proof -
  let ?r = "raft_run [1, 2, 3] election_schedule (cluster_start [1, 2, 3])"
  have r: "?r \<noteq> None \<and> rn_role (cl_nodes (the ?r) 1) = Leader \<and> rn_voted (cl_nodes (the ?r) 2) = Some 2"
    by code_simp
  then have "raft_reach [1, 2, 3] (the ?r)"
    by (intro raft_run_reach [OF cluster_start_reach, of _ election_schedule]) auto
  from election_safety [OF this, of 2 1] r show ?thesis by (auto simp: Let_def)
qed

text \<open>
  C23. Along every schedule the term of a node never decreases, and a vote is final: as long as the term is the
  same, a node that has voted has voted for the same candidate.
\<close>

theorem votes_are_final:
  assumes "raft_run I as c = Some c'"
  shows "rn_term (cl_nodes c i) \<le> rn_term (cl_nodes c' i)
    \<and> (rn_term (cl_nodes c' i) = rn_term (cl_nodes c i) \<and> rn_voted (cl_nodes c i) = Some j
       \<longrightarrow> rn_voted (cl_nodes c' i) = Some j)"
  using raft_run_grows [OF assms] by (auto simp: node_grows_def)

theorem votes_are_final_witness:
  "let c = the (raft_run [1, 2, 3] [Elect 1, Elect 1] (cluster_start [1, 2, 3]));
       c' = the (raft_run [1, 2, 3] [Elect 1, Apply 1, Beat 1] c)
   in rn_voted (cl_nodes c 2) = Some 1 \<and> rn_voted (cl_nodes c' 2) = Some 1"
proof -
  let ?c = "the (raft_run [1, 2, 3] [Elect 1, Elect 1] (cluster_start [1, 2, 3]))"
  let ?r = "raft_run [1, 2, 3] [Elect 1, Apply 1, Beat 1] ?c"
  have r: "?r \<noteq> None \<and> rn_voted (cl_nodes ?c 2) = Some 1 \<and> rn_term (cl_nodes (the ?r) 2) = rn_term (cl_nodes ?c 2)"
    by code_simp
  then have "?r = Some (the ?r)" by (metis option.collapse)
  from votes_are_final [OF this, of 2 1] r show ?thesis unfolding Let_def by blast
qed


definition apply_schedule :: "raft_action list" where
  "apply_schedule = [Elect 1, Elect 1, Elect 1, Call 1 OpPut ''a'' ''1'', Call 1 OpDel ''a'' [],
     Beat 1, Beat 1, Beat 1, Beat 1, Apply 1, Apply 1]"


text \<open>
  C37. The state of every node is well formed in every reachable state: it keeps its id and its peers, a candidate
  or leader has voted for itself, and a leader knows itself as the leader.
\<close>

theorem raft_node_well_formed:
  assumes "raft_reach I c"
  shows "rn_id (cl_nodes c i) = i \<and> rn_peers (cl_nodes c i) = removeAll i I
    \<and> (rn_role (cl_nodes c i) \<noteq> Follower \<longrightarrow> rn_voted (cl_nodes c i) = Some i)
    \<and> (rn_role (cl_nodes c i) = Leader \<longrightarrow> rn_leader (cl_nodes c i) = Some i)"
proof -
  have "rn_id (cl_nodes c i) = i" "rn_peers (cl_nodes c i) = removeAll i I"
    using raft_reach_inv [OF assms] by (auto simp: elect_inv_def vote_inv_def)
  then show ?thesis using roles_node [OF raft_reach_roles [OF assms], of i] by (auto simp: role_inv_def)
qed

theorem raft_node_well_formed_witness:
  "let c = the (raft_run [1, 2, 3] election_schedule (cluster_start [1, 2, 3])) in rn_leader (cl_nodes c 1) = Some 1"
proof -
  let ?r = "raft_run [1, 2, 3] election_schedule (cluster_start [1, 2, 3])"
  have r: "?r \<noteq> None \<and> rn_role (cl_nodes (the ?r) 1) = Leader" by code_simp
  have start: "raft_reach [1, 2, 3] (cluster_start [1, 2, 3])" by (rule cluster_start_reach) simp
  from raft_node_well_formed [OF raft_run_reach [OF start option.collapse [OF conjunct1 [OF r], symmetric]], of 1] r
  show ?thesis by (simp add: Let_def)
qed

end
