(* ===== verification/Raft_Replication.thy ===== *)
theory Raft_Replication
  imports Raft_Election
begin

text \<open>
  Replication: what an accepted proposal means, when an election succeeds, how heartbeats repair the log of a
  follower, and the schedules on which the guarantees of the protocol are lost.
\<close>

section \<open>Messages reach one node\<close>

lemma transport_vote_others:
  "transport_vote c p r = (c1, resp) \<Longrightarrow> cl_up c1 = cl_up c \<and> (\<forall>q. q \<noteq> p \<longrightarrow> cl_nodes c1 q = cl_nodes c q)"
  by (auto simp: transport_vote_def set_node_def split: if_splits prod.splits)

lemma transport_append_others:
  "transport_append c p req = (c1, resp) \<Longrightarrow> cl_up c1 = cl_up c \<and> (\<forall>q. q \<noteq> p \<longrightarrow> cl_nodes c1 q = cl_nodes c q)"
  by (auto simp: transport_append_def set_node_def split: if_splits prod.splits)

lemma set_node_simps [simp]:
  "cl_up (set_node i n c) = cl_up c" "cl_nodes (set_node i n c) i = n"
  "j \<noteq> i \<Longrightarrow> cl_nodes (set_node i n c) j = cl_nodes c j"
  by (simp_all add: set_node_def)

lemma transport_append_up:
  "p \<in> set (cl_up c) \<Longrightarrow> transport_append c p req =
    (set_node p (fst (OnAppendEntries (cl_nodes c p) req)) c, snd (OnAppendEntries (cl_nodes c p) req))"
  by (simp add: transport_append_def split: prod.splits)

section \<open>Proposals\<close>

definition has_entry :: "nat \<Rightarrow> log_entry \<Rightarrow> raft_node \<Rightarrow> bool" where
  "has_entry k e n \<longleftrightarrow> k < length (rn_log n) \<and> rn_log n ! k = e"

definition logs_fit :: "int list \<Rightarrow> cluster \<Rightarrow> bool" where
  "logs_fit I c \<longleftrightarrow> (\<forall>p \<in> set I. length (rn_log (cl_nodes c p)) + 1 < 2 ^ 64)"

lemma propose_reply_log: "propose_reply n resp acks = (n', r) \<Longrightarrow> rn_log n' = rn_log n \<and> rn_peers n' = rn_peers n"
  by (auto simp: propose_reply_def BecomeFollower_def Let_def split: if_splits)

lemma heartbeat_ack_log: "heartbeat_ack n resp = (n', b) \<Longrightarrow> rn_log n' = rn_log n"
  by (auto simp: heartbeat_ack_def BecomeFollower_def split: if_splits)

lemma propose_reply_count:
  "propose_reply n resp acks = (n', Inr (acks', stop)) \<Longrightarrow> acks' = acks + (if aer_success resp then 1 else 0)"
  by (auto simp: propose_reply_def Let_def split: if_splits)

lemma propose_loop_refuses: "propose_loop i req ps acks c = (c', Inl b) \<Longrightarrow> \<not> b"
proof (induction ps arbitrary: acks c)
  case (Cons p ps)
  obtain c1 resp where tr: "transport_append c p req = (c1, resp)" by force
  obtain n r where rep: "propose_reply (cl_nodes c1 i) resp acks = (n, r)" by force
  show ?case
  proof (cases r)
    case (Inl b')
    then show ?thesis using Cons.prems tr rep by (auto simp: propose_reply_def Let_def split: if_splits)
  next
    case (Inr x)
    then show ?thesis using Cons tr rep by (cases x) (auto simp: Let_def split: if_splits)
  qed
qed simp

text \<open>A node that acknowledges the request of a proposal has its entry.\<close>

lemma acknowledged:
  assumes "length (rn_log (cl_nodes c p)) < 2 ^ 64" and "unat (ae_prev_index req) = k" and "ae_entries req = [e]"
    and tr: "transport_append c p req = (c1, resp)" and "aer_success resp"
  shows "has_entry k e (cl_nodes c1 p)"
proof -
  have up: "p \<in> set (cl_up c)" using tr assms(5) by (auto simp: transport_append_def split: if_splits)
  obtain n where on: "OnAppendEntries (cl_nodes c p) req = (n, resp)" and c1: "c1 = set_node p n c"
    using tr transport_append_up [OF up, of req] by (metis Pair_inject prod.collapse)
  have "unat (ae_prev_index req) \<le> length (rn_log (cl_nodes c p))"
    "rn_log n = take (unat (ae_prev_index req)) (rn_log (cl_nodes c p)) @ [e]"
    using append_entries_effect [OF assms(1) on] assms(3,5) by auto
  then show ?thesis by (simp add: has_entry_def c1 assms(2) nth_append)
qed

text \<open>Every acknowledgement counted stands for a different peer that has the entry.\<close>

lemma propose_loop_acks:
  assumes "propose_loop i req ps acks c = (c', Inr acks')"
    and "distinct ps" "i \<notin> set ps" "\<And>p. p \<in> set ps \<Longrightarrow> length (rn_log (cl_nodes c p)) < 2 ^ 64"
    and req: "unat (ae_prev_index req) = k" "ae_entries req = [e]"
  shows "rn_log (cl_nodes c' i) = rn_log (cl_nodes c i)
    \<and> (\<forall>q. q \<noteq> i \<and> q \<notin> set ps \<longrightarrow> cl_nodes c' q = cl_nodes c q)
    \<and> (\<exists>Q \<subseteq> set ps. acks' \<le> acks + card Q \<and> (\<forall>q \<in> Q. has_entry k e (cl_nodes c' q)))"
  using assms(1-4)
proof (induction ps arbitrary: acks c)
  case Nil
  then show ?case by auto
next
  case (Cons p ps)
  obtain c1 resp where tr: "transport_append c p req = (c1, resp)" by force
  obtain n r where rep: "propose_reply (cl_nodes c1 i) resp acks = (n, r)" by force
  let ?c2 = "set_node i n c1"
  have c1: "cl_nodes c1 q = cl_nodes c q" if "q \<noteq> p" for q using transport_append_others [OF tr] that by blast
  have ip: "p \<noteq> i" "i \<notin> set ps" "p \<notin> set ps" "distinct ps" using Cons.prems by auto
  have log_i: "rn_log (cl_nodes ?c2 i) = rn_log (cl_nodes c i)"
    using propose_reply_log [OF rep] c1 [of i] ip by simp
  have p2: "cl_nodes ?c2 p = cl_nodes c1 p" using ip by simp
  have ack: "has_entry k e (cl_nodes ?c2 p)" if "aer_success resp"
    unfolding p2 by (rule acknowledged [OF _ req tr that]) (use Cons.prems in simp)
  obtain acks1 stop where r: "r = Inr (acks1, stop)"
    using Cons.prems(1) tr rep by (cases r) auto
  have acks1: "acks1 = acks + (if aer_success resp then 1 else 0)"
    using propose_reply_count [OF rep [unfolded r]] .
  let ?S = "if aer_success resp then {p} else {}"
  show ?case
  proof (cases stop)
    case True
    then have c': "c' = ?c2" "acks' = acks1" using Cons.prems(1) tr rep r by auto
    show ?thesis
      unfolding c' using log_i c1 ack acks1 ip
      by (intro conjI exI [of _ ?S]) auto
  next
    case False
    then have loop: "propose_loop i req ps acks1 ?c2 = (c', Inr acks')" using Cons.prems(1) tr rep r by simp
    have sizes: "length (rn_log (cl_nodes ?c2 q)) < 2 ^ 64" if "q \<in> set ps" for q
      using that Cons.prems(4) c1 [of q] ip by (metis list.set_intros(2) set_node_simps(3))
    from Cons.IH [OF loop ip(4,2) sizes] obtain Q where
      keep: "rn_log (cl_nodes c' i) = rn_log (cl_nodes ?c2 i)" "\<forall>q. q \<noteq> i \<and> q \<notin> set ps \<longrightarrow> cl_nodes c' q = cl_nodes ?c2 q"
      and Q: "Q \<subseteq> set ps" "acks' \<le> acks1 + card Q" "\<forall>q \<in> Q. has_entry k e (cl_nodes c' q)" by blast
    have p': "cl_nodes c' p = cl_nodes ?c2 p" using keep(2) ip by blast
    have "card (Q \<union> ?S) = card Q + card ?S"
      using Q(1) ip by (intro card_Un_disjoint) (auto intro: finite_subset)
    then have "acks' \<le> acks + card (Q \<union> ?S)" using Q(2) acks1 by (auto split: if_splits)
    moreover have "\<forall>q \<in> Q \<union> ?S. has_entry k e (cl_nodes c' q)" using Q(3) ack p' by auto
    ultimately show ?thesis
      using keep log_i c1 Q(1) by (intro conjI exI [of _ "Q \<union> ?S"]) auto
  qed
qed

lemma heartbeat_keeps_log: "\<lbrakk>OnAppendEntries n req = (n', resp); ae_entries req = []\<rbrakk> \<Longrightarrow> rn_log n' = rn_log n"
  by (auto simp: OnAppendEntries_def BecomeFollower_def Let_def split: if_splits)

lemma propose_beats_logs:
  assumes "ae_entries hb = []"
  shows "rn_log (cl_nodes (propose_beats i hb ps c) q) = rn_log (cl_nodes c q)"
proof (induction ps arbitrary: c)
  case (Cons p ps)
  obtain c1 resp where tr: "transport_append c p hb = (c1, resp)" by force
  obtain n go_on where rep: "heartbeat_ack (cl_nodes c1 i) resp = (n, go_on)" by force
  have log1: "rn_log (cl_nodes c1 j) = rn_log (cl_nodes c j)" for j
    using tr heartbeat_keeps_log [OF _ assms, of "cl_nodes c p"]
    by (auto simp: transport_append_def set_node_def split: if_splits prod.splits)
  have log2: "rn_log (cl_nodes (set_node i n c1) j) = rn_log (cl_nodes c j)" for j
    using heartbeat_ack_log [OF rep] log1 by (cases "j = i") auto
  show ?case using tr rep log2 Cons.IH [of "set_node i n c1"] by (simp add: Let_def)
qed simp

definition proposed :: "cluster \<Rightarrow> int \<Rightarrow> string \<Rightarrow> string \<Rightarrow> log_entry" where
  "proposed c i key val = \<lparr>le_term = rn_term (cl_nodes c i), le_op = OpPut, le_key = key, le_value = val\<rparr>"

section \<open>Elections that succeed\<close>

text \<open>A node of a smaller term whose log is not ahead grants its vote.\<close>

lemma vote_granted:
  assumes "rn_term n < rv_term r" and "IsUpToDate n (rv_last_index r) (rv_last_term r)"
  shows "snd (OnRequestVote n r) = \<lparr>rvr_term = rv_term r, rvr_granted = True\<rparr>"
proof -
  have "IsUpToDate (BecomeFollower t l n) = IsUpToDate n" for t l
    by (simp add: fun_eq_iff IsUpToDate_def LastLogIndex_def LastLogTerm_def BecomeFollower_def)
  with assms show ?thesis by (simp add: OnRequestVote_def Let_def BecomeFollower_def not_less less_imp_le)
qed

definition will_vote :: "cluster \<Rightarrow> request_vote_req \<Rightarrow> int \<Rightarrow> bool" where
  "will_vote c r p \<longleftrightarrow> p \<in> set (cl_up c) \<longrightarrow>
     rn_term (cl_nodes c p) < rv_term r \<and> IsUpToDate (cl_nodes c p) (rv_last_index r) (rv_last_term r)"

lemma vote_reply:
  assumes "will_vote c r p" and "transport_vote c p r = (c1, resp)"
  shows "rvr_term resp = rv_term r \<and> rvr_granted resp = (p \<in> set (cl_up c))"
proof (cases "p \<in> set (cl_up c)")
  case True
  then have "resp = snd (OnRequestVote (cl_nodes c p) r)"
    using assms(2) by (auto simp: transport_vote_def split: prod.splits)
  with vote_granted [of "cl_nodes c p" r] assms(1) True show ?thesis by (simp add: will_vote_def)
qed (use assms(2) in \<open>auto simp: transport_vote_def\<close>)

lemma vote_loop_wins:
  assumes "rn_role (cl_nodes c i) = Candidate" "rn_term (cl_nodes c i) = rv_term r"
    and "distinct ps" "i \<notin> set ps" "\<And>p. p \<in> set ps \<Longrightarrow> will_vote c r p"
    and "votes < votes_needed (cl_nodes c i)"
    and "votes_needed (cl_nodes c i) \<le> votes + length (filter (\<lambda>p. p \<in> set (cl_up c)) ps)"
  shows "rn_role (cl_nodes (vote_loop i r ps votes c) i) = Leader
    \<and> rn_term (cl_nodes (vote_loop i r ps votes c) i) = rv_term r"
  using assms
proof (induction ps arbitrary: votes c)
  case (Cons p ps)
  obtain c1 resp where tr: "transport_vote c p r = (c1, resp)" by force
  have resp: "rvr_term resp = rv_term r" "rvr_granted resp = (p \<in> set (cl_up c))"
    using vote_reply [OF _ tr] Cons.prems(5) by auto
  have c1: "cl_up c1 = cl_up c" "\<And>q. q \<noteq> p \<Longrightarrow> cl_nodes c1 q = cl_nodes c q"
    using transport_vote_others [OF tr] by auto
  let ?n = "cl_nodes c i"
  have n: "cl_nodes c1 i = ?n" using c1(2) Cons.prems(4) by auto
  let ?v = "if p \<in> set (cl_up c) then votes + 1 else votes"
  have rep: "election_reply (cl_nodes c1 i) (rv_term r) resp votes =
      (if ?v \<ge> votes_needed ?n then (BecomeLeader ?n, ?v, False) else (?n, ?v, True))"
    using Cons.prems(1,2) resp n by (simp add: election_reply_def Let_def)
  show ?case
  proof (cases "?v \<ge> votes_needed ?n")
    case True
    then show ?thesis using tr rep Cons.prems(2) by (simp add: Let_def BecomeLeader_def)
  next
    case False
    have same: "set_node i ?n c1 = c1" using n by (simp add: set_node_def fun_upd_idem)
    have "rn_role (cl_nodes (vote_loop i r ps ?v c1) i) = Leader \<and> rn_term (cl_nodes (vote_loop i r ps ?v c1) i) = rv_term r"
    proof (rule Cons.IH)
      show "will_vote c1 r q" if "q \<in> set ps" for q
      proof -
        have "q \<noteq> p" using Cons.prems(3) that by auto
        then show ?thesis using Cons.prems(5) [of q] c1(1) c1(2) [of q] that by (simp add: will_vote_def)
      qed
    qed (use Cons.prems False n c1 in \<open>auto split: if_splits\<close>)
    then show ?thesis using tr rep False same by (simp add: Let_def)
  qed
qed simp

section \<open>Heartbeats that repair a log\<close>

text \<open>Entries of the same index and term have the same history.\<close>

definition log_matching :: "log_entry list \<Rightarrow> log_entry list \<Rightarrow> bool" where
  "log_matching xs ys \<longleftrightarrow>
     (\<forall>k < min (length xs) (length ys). le_term (xs ! k) = le_term (ys ! k) \<longrightarrow> take (Suc k) xs = take (Suc k) ys)"

lemma TermAt_nth:
  "\<lbrakk>length (rn_log n) < 2 ^ 64; 0 < k; k \<le> length (rn_log n)\<rbrakk> \<Longrightarrow> TermAt n (word_of_nat k) = le_term (rn_log n ! (k - 1))"
proof -
  assume a: "length (rn_log n) < 2 ^ 64" "0 < k" "k \<le> length (rn_log n)"
  then have u: "unat (word_of_nat k :: u64) = k" "unat (word_of_nat (length (rn_log n)) :: u64) = length (rn_log n)"
    by (simp_all add: unsigned_of_nat take_bit_nat_eq_self)
  moreover have "unat (word_of_nat k - 1 :: u64) = k - 1" using u(1) a(2) by (subst unat_minus_one) (auto simp: unsigned_eq_0_iff)
  ultimately show ?thesis using a by (auto simp: TermAt_def word_less_nat_alt)
qed

lemma TermAt_0 [simp]: "TermAt n 0 = 0" by (simp add: TermAt_def)

lemma unat_small: "k < 2 ^ 64 \<Longrightarrow> unat (word_of_nat k :: u64) = k"
  by (simp add: unsigned_of_nat take_bit_nat_eq_self)

lemma word_pred: "\<lbrakk>1 \<le> k; k < 2 ^ 64\<rbrakk> \<Longrightarrow> (word_of_nat k :: u64) - 1 = word_of_nat (k - 1)"
  by (cases k) simp_all

lemma BuildAppendEntries_next:
  assumes "map_of (rn_next n) p = Some (word_of_nat k)" "1 \<le> k" "k \<le> length (rn_log n) + 1" "length (rn_log n) + 1 < 2 ^ 64"
  shows "BuildAppendEntries n p = \<lparr>ae_term = rn_term n, ae_leader = rn_id n, ae_prev_index = word_of_nat (k - 1),
    ae_prev_term = TermAt n (word_of_nat (k - 1)), ae_entries = drop (k - 1) (rn_log n), ae_commit = rn_commit n\<rparr>"
proof -
  have k: "k < 2 ^ 64" using assms by linarith
  have u: "unat (word_of_nat k :: u64) = k" "unat (word_of_nat (k - 1) :: u64) = k - 1"
    "unat (word_of_nat (length (rn_log n)) :: u64) = length (rn_log n)"
    using k assms(4) by (auto intro!: unat_small)
  have nz: "(word_of_nat k :: u64) \<noteq> 0" using u(1) assms(2) by (metis not_one_le_zero unat_0)
  have prev: "(if word_of_nat k = (0 :: u64) \<or> word_of_nat k = (1 :: u64) then 0 else word_of_nat k - 1) = (word_of_nat (k - 1) :: u64)"
    using word_pred [OF assms(2) k] nz by (metis diff_self)
  have bounds: "1 \<le> (word_of_nat k :: u64)" "(word_of_nat k :: u64) \<le> word_of_nat (length (rn_log n)) \<longleftrightarrow> k \<le> length (rn_log n)"
    using u assms(2) by (simp_all add: word_le_nat_alt)
  show ?thesis
    using word_pred [OF assms(2) k] u(2) bounds assms(3)
    by (auto simp: BuildAppendEntries_def assms(1) prev Let_def)
qed

text \<open>One exchange of the heartbeat thread with one peer: it either brings the peer's log up to date or steps back.\<close>

lemma beat_exchange:
  fixes c :: cluster and i p :: int
  defines "L \<equiv> rn_log (cl_nodes c i)"
  assumes ldr: "rn_role (cl_nodes c i) = Leader" and p: "p \<in> set (cl_up c)" "p \<noteq> i"
    and tm: "rn_term (cl_nodes c p) \<le> rn_term (cl_nodes c i)"
    and len: "length L + 1 < 2 ^ 64" "length (rn_log (cl_nodes c p)) < 2 ^ 64"
    and nx: "map_of (rn_next (cl_nodes c i)) p = Some (word_of_nat k)" "1 \<le> k" "k \<le> length L + 1"
    and lm: "log_matching L (rn_log (cl_nodes c p))"
  defines "c' \<equiv> beat_loop i [p] c"
  shows "rn_role (cl_nodes c' i) = Leader \<and> rn_log (cl_nodes c' i) = L \<and> cl_up c' = cl_up c
    \<and> rn_term (cl_nodes c' p) = rn_term (cl_nodes c' i)
    \<and> (prefix L (rn_log (cl_nodes c' p))
       \<or> 1 < k \<and> rn_log (cl_nodes c' p) = rn_log (cl_nodes c p) \<and> map_of (rn_next (cl_nodes c' i)) p = Some (word_of_nat (k - 1)))"
proof -
  let ?l = "cl_nodes c i" and ?f = "cl_nodes c p"
  define req where "req = BuildAppendEntries ?l p"
  have req: "req = \<lparr>ae_term = rn_term ?l, ae_leader = rn_id ?l, ae_prev_index = word_of_nat (k - 1),
      ae_prev_term = TermAt ?l (word_of_nat (k - 1)), ae_entries = drop (k - 1) L, ae_commit = rn_commit ?l\<rparr>"
    unfolding req_def L_def using nx len(1) by (intro BuildAppendEntries_next) (simp_all add: L_def)
  obtain f resp where on: "OnAppendEntries ?f req = (f, resp)" by force
  obtain n go where rep: "heartbeat_reply ?l p req resp = (n, go)" by force
  have c': "c' = set_node i n (set_node p f c)"
    using ldr p on rep unfolding c'_def req_def
    by (simp add: transport_append_def Let_def)
  have u: "unat (word_of_nat (k - 1) :: u64) = k - 1" using nx len by (intro unat_small) simp
  note eff = append_entries_effect [OF len(2) on]
  have rt: "rn_term f = rn_term ?l" "aer_term resp = rn_term ?l"
    using append_effect [OF on] tm by (simp_all add: req max_def)
  show ?thesis
  proof (cases "aer_success resp")
    case True
    then have ok: "k - 1 \<le> length (rn_log ?f)" "TermAt ?f (word_of_nat (k - 1)) = TermAt ?l (word_of_nat (k - 1))"
      and f: "rn_log f = (if drop (k - 1) L = [] then rn_log ?f else take (k - 1) (rn_log ?f) @ drop (k - 1) L)"
      using eff u by (auto simp: req)
    have same: "take (k - 1) (rn_log ?f) = take (k - 1) L"
    proof (cases "k = 1")
      case False
      then have "le_term (rn_log ?f ! (k - 1 - 1)) = le_term (L ! (k - 1 - 1))"
        using ok(2) TermAt_nth [of ?f "k - 1"] TermAt_nth [of ?l "k - 1"] ok(1) nx(2,3) len by (simp add: L_def)
      then have "take (Suc (k - 1 - 1)) L = take (Suc (k - 1 - 1)) (rn_log ?f)"
        using ok(1) nx(2,3) False
        by (intro lm [unfolded log_matching_def, rule_format, of "k - 1 - 1"]) auto
      then show ?thesis using nx(2) False by (simp add: Suc_diff_Suc)
    qed simp
    have "prefix L (rn_log f)"
    proof (cases "drop (k - 1) L = []")
      case True
      then have "L = take (k - 1) (rn_log ?f)" using same by simp
      then show ?thesis using f True by (metis take_is_prefix)
    next
      case False
      then show ?thesis using f same by simp
    qed
    moreover have "rn_role n = rn_role ?l" "rn_log n = rn_log ?l" "rn_term n = rn_term ?l"
      using rep True rt by (auto simp: heartbeat_reply_def Let_def split: if_splits)
    ultimately show ?thesis using ldr p rt by (simp add: c' L_def)
  next
    case False
    have k: "1 < k"
    proof (rule ccontr)
      assume "\<not> 1 < k"
      then have "k = 1" using nx(2) by simp
      then have "aer_success resp" using eff tm by (simp add: req)
      with False show False by simp
    qed
    have w: "unat (word_of_nat k :: u64) = k" using nx(3) len(1) by (intro unat_small) linarith
    have "(1 :: u64) < word_of_nat k" using k w by (simp add: word_less_nat_alt)
    moreover have "max 1 (word_of_nat k - 1 :: u64) = word_of_nat (k - 1)"
      using k u word_pred [of k] nx(3) len(1) by (auto simp: max_def word_le_nat_alt)
    ultimately have n: "n = ?l\<lparr>rn_next := AList.update p (word_of_nat (k - 1)) (rn_next ?l)\<rparr>"
      using rep False rt nx(1) by (simp add: heartbeat_reply_def)
    have "rn_log f = rn_log ?f" using eff False by simp
    then show ?thesis using ldr p rt k by (simp add: c' n L_def update_conv')
  qed
qed

lemma beats_repair:
  fixes c :: cluster
  assumes "rn_role (cl_nodes c i) = Leader" and "p \<in> set (cl_up c)" "p \<noteq> i"
    and "rn_term (cl_nodes c p) \<le> rn_term (cl_nodes c i)"
    and "length (rn_log (cl_nodes c i)) + 1 < 2 ^ 64" "length (rn_log (cl_nodes c p)) < 2 ^ 64"
    and "map_of (rn_next (cl_nodes c i)) p = Some (word_of_nat k)" "1 \<le> k" "k \<le> length (rn_log (cl_nodes c i)) + 1"
    and "log_matching (rn_log (cl_nodes c i)) (rn_log (cl_nodes c p))"
  shows "\<exists>m \<le> k. let c' = (beat_loop i [p] ^^ m) c
    in rn_role (cl_nodes c' i) = Leader \<and> rn_log (cl_nodes c' i) = rn_log (cl_nodes c i)
       \<and> prefix (rn_log (cl_nodes c i)) (rn_log (cl_nodes c' p))"
  using assms
proof (induction k arbitrary: c)
  case (Suc k)
  let ?c = "beat_loop i [p] c"
  note ex = beat_exchange [OF Suc.prems]
  show ?case
  proof (cases "prefix (rn_log (cl_nodes c i)) (rn_log (cl_nodes ?c p))")
    case True
    then show ?thesis using ex by (intro exI [of _ 1]) (simp add: Let_def)
  next
    case False
    then have k: "1 < Suc k" "rn_log (cl_nodes ?c p) = rn_log (cl_nodes c p)"
      "map_of (rn_next (cl_nodes ?c i)) p = Some (word_of_nat k)" using ex by auto
    have log: "rn_log (cl_nodes ?c i) = rn_log (cl_nodes c i)" using ex by blast
    have "\<exists>m \<le> k. let c' = (beat_loop i [p] ^^ m) ?c
      in rn_role (cl_nodes c' i) = Leader \<and> rn_log (cl_nodes c' i) = rn_log (cl_nodes ?c i)
         \<and> prefix (rn_log (cl_nodes ?c i)) (rn_log (cl_nodes c' p))"
      by (rule Suc.IH) (use ex k Suc.prems log in auto)
    then obtain m where "m \<le> k" and m: "let c' = (beat_loop i [p] ^^ m) ?c
      in rn_role (cl_nodes c' i) = Leader \<and> rn_log (cl_nodes c' i) = rn_log (cl_nodes ?c i)
         \<and> prefix (rn_log (cl_nodes ?c i)) (rn_log (cl_nodes c' p))" by blast
    then show ?thesis unfolding log by (intro exI [of _ "Suc m"]) (simp add: funpow_Suc_right del: funpow.simps beat_loop.simps)
  qed
qed simp

section \<open>A cluster of one\<close>

definition lonely :: "int \<Rightarrow> cluster \<Rightarrow> bool" where
  "lonely i c \<longleftrightarrow> rn_peers (cl_nodes c i) = [] \<and> rn_role (cl_nodes c i) \<noteq> Leader
     \<and> (cl_elect c i = EIdle \<or> (\<exists>r votes. cl_elect c i = EAsk r votes []))"

lemma lonely_quiet: "\<lbrakk>lonely i c; quiet c c'\<rbrakk> \<Longrightarrow> lonely i c'"
  by (auto simp: lonely_def quiet_def node_grows_def no_new_leader_def split: if_splits)

lemma lonely_elect: "lonely i c \<Longrightarrow> lonely i (elect_step i c)"
  by (auto simp: lonely_def elect_step_def election_start_def BecomeCandidate_def set_node_def Let_def)

lemma single_node_inv: "raft_reach [i] c \<Longrightarrow> lonely i c"
proof (induction rule: raft_reach.induct)
  case (Init c)
  then show ?case by (simp add: cluster_init_def lonely_def raft_new_def)
next
  case (Step c a)
  show ?case
  proof (cases "a = Elect i")
    case True
    then show ?thesis using Step.IH by (simp add: lonely_elect)
  next
    case False
    then have "quiet c (raft_act a c)" using Step.hyps by (intro quiet_act) auto
    with Step.IH show ?thesis by (rule lonely_quiet)
  qed
qed

lemma propose_put_majority:
  assumes "ProposePut i key val c = (c', True)"
    and "distinct I" "i \<in> set I" "rn_peers (cl_nodes c i) = removeAll i I" "logs_fit I c"
  shows "rn_role (cl_nodes c i) = Leader
    \<and> majority I {p \<in> set I. has_entry (length (rn_log (cl_nodes c i))) (proposed c i key val) (cl_nodes c' p)}"
proof -
  let ?n = "cl_nodes c i" and ?e = "proposed c i key val"
  let ?k = "length (rn_log ?n)"
  define n where "n = ?n\<lparr>rn_log := rn_log ?n @ [?e]\<rparr>"
  define c1 where "c1 = set_node i n c"
  define req where "req = propose_request n ?e"
  have ldr: "rn_role ?n = Leader"
    using assms(1) by (auto simp: ProposePut_def propose_def propose_append_def IsLeader_def split: if_splits)
  then have ap: "propose_append ?n OpPut key val = Some (n, ?e)"
    by (simp add: propose_append_def IsLeader_def n_def proposed_def Let_def)
  obtain c2 r where loop: "propose_loop i req (rn_peers n) 1 c1 = (c2, r)" by force
  have peers: "rn_peers n = removeAll i I" by (simp add: n_def assms(4))
  have needed: "votes_needed n = length I div 2 + 1"
    using assms(2,3) by (simp add: votes_needed_def peers distinct_remove1_removeAll [symmetric] length_remove1)
  from assms(1) ap loop obtain acks where r: "r = Inr acks" "votes_needed n \<le> acks"
    and c': "c' = propose_beats i (propose_heartbeat (cl_nodes c2 i)) (rn_peers n) c2"
    by (auto simp: ProposePut_def propose_def req_def c1_def not_less
        split: sum.splits if_splits prod.splits dest: propose_loop_refuses)
  have req: "unat (ae_prev_index req) = ?k" "ae_entries req = [?e]"
    using assms(5) [unfolded logs_fit_def, rule_format, OF assms(3)]
    by (simp_all add: req_def propose_request_def LastLogIndex_def n_def Let_def unsigned_of_nat take_bit_nat_eq_self)
  have sizes: "length (rn_log (cl_nodes c1 p)) < 2 ^ 64" if "p \<in> set (rn_peers n)" for p
    using assms(5) that unfolding logs_fit_def peers by (auto simp: c1_def intro: add_lessD1)
  have "distinct (rn_peers n)" "i \<notin> set (rn_peers n)" using assms(2) by (simp_all add: peers distinct_removeAll)
  from propose_loop_acks [OF loop [unfolded r] this sizes req] obtain Q where
    i2: "rn_log (cl_nodes c2 i) = rn_log (cl_nodes c1 i)"
    and Q: "Q \<subseteq> set (rn_peers n)" "acks \<le> 1 + card Q" "\<forall>q \<in> Q. has_entry ?k ?e (cl_nodes c2 q)" by blast
  have logs: "rn_log (cl_nodes c' q) = rn_log (cl_nodes c2 q)" for q
    unfolding c' by (rule propose_beats_logs) (simp add: propose_heartbeat_def)
  let ?M = "{p \<in> set I. has_entry ?k ?e (cl_nodes c' p)}"
  have "has_entry ?k ?e (cl_nodes c' i)" by (simp add: has_entry_def logs i2 c1_def n_def)
  moreover have "\<forall>q \<in> Q. has_entry ?k ?e (cl_nodes c' q)" using Q(3) by (simp add: has_entry_def logs)
  ultimately have sub: "insert i Q \<subseteq> ?M" using Q(1) assms(3) by (auto simp: peers)
  have "i \<notin> Q" "finite Q" using Q(1) by (auto simp: peers intro: finite_subset)
  then have "majority I (insert i Q)"
    using Q r needed assms(3) by (auto simp: majority_def peers)
  then have "majority I ?M" by (rule maj.quorum_mono) (use sub in auto)
  with ldr show ?thesis by simp
qed

section \<open>Properties\<close>

definition three :: "raft_action list \<Rightarrow> cluster" where
  "three as = the (raft_run [1, 2, 3] as (cluster_start [1, 2, 3]))"

text \<open>
  C25. An election succeeds: when the reachable peers have smaller terms and logs that are not ahead of the
  candidate's, and together with the candidate they are enough, one pass of \<^verbatim>\<open>ElectionLoop\<close> makes the node the
  leader of the next term.
\<close>

theorem election_succeeds:
  assumes "rn_role (cl_nodes c i) \<noteq> Leader" and "rn_term (cl_nodes c i) + 1 \<noteq> 0"
    and "distinct (rn_peers (cl_nodes c i))" "i \<notin> set (rn_peers (cl_nodes c i))"
    and "\<forall>p \<in> set (rn_peers (cl_nodes c i)). will_vote c (snd (election_start (cl_nodes c i))) p"
    and "1 < votes_needed (cl_nodes c i)"
    and "votes_needed (cl_nodes c i) \<le> 1 + length (filter (\<lambda>p. p \<in> set (cl_up c)) (rn_peers (cl_nodes c i)))"
  shows "rn_role (cl_nodes (election_round i c) i) = Leader
    \<and> rn_term (cl_nodes (election_round i c) i) = rn_term (cl_nodes c i) + 1"
proof -
  obtain n r where s: "election_start (cl_nodes c i) = (n, r)" by force
  have n: "rn_role n = Candidate" "rn_term n = rv_term r" "rn_peers n = rn_peers (cl_nodes c i)"
    "rv_term r = rn_term (cl_nodes c i) + 1"
    using s by (auto simp: election_start_def BecomeCandidate_def Let_def)
  let ?c = "set_node i n c"
  have "rn_role (cl_nodes (vote_loop i r (rn_peers n) 1 ?c) i) = Leader \<and> rn_term (cl_nodes (vote_loop i r (rn_peers n) 1 ?c) i) = rv_term r"
  proof (rule vote_loop_wins)
    show "will_vote ?c r p" if "p \<in> set (rn_peers n)" for p
      using assms(4,5) that s n by (cases "p = i") (auto simp: will_vote_def)
  qed (use assms n in \<open>auto simp: votes_needed_def\<close>)
  then show ?thesis using assms(1) s n by (simp add: election_round_def)
qed

theorem election_succeeds_witness:
  "rn_role (cl_nodes (election_round 2 (three [Elect 1, Elect 1, Elect 1, Down 1])) 2) = Leader"
proof -
  let ?c = "three [Elect 1, Elect 1, Elect 1, Down 1]"
  have f: "rn_role (cl_nodes ?c 2) \<noteq> Leader" "rn_term (cl_nodes ?c 2) + 1 \<noteq> 0" "rn_peers (cl_nodes ?c 2) = [1, 3]"
    "votes_needed (cl_nodes ?c 2) = 2" "cl_up ?c = [2, 3]"
    "will_vote ?c (snd (election_start (cl_nodes ?c 2))) 1" "will_vote ?c (snd (election_start (cl_nodes ?c 2))) 3"
    by code_simp+
  then show ?thesis using election_succeeds [of ?c 2] by simp
qed

text \<open>
  C16. Heartbeats repair a follower: let a leader exchange heartbeats with a reachable follower of no newer term while
  nobody else acts, the next index for the follower within the leader's log, and the two logs matching in the sense of
  the protocol (entries of one term at one position agree, and so do all before them).  After at most as many
  exchanges as the next index says the follower's log starts with the leader's whole log, and the leader is still
  the leader with its log unchanged.
\<close>

theorem heartbeats_repair_log:
  assumes "rn_role (cl_nodes c i) = Leader" and "p \<in> set (cl_up c)" "p \<noteq> i"
    and "rn_term (cl_nodes c p) \<le> rn_term (cl_nodes c i)" "logs_fit [i, p] c"
    and "map_of (rn_next (cl_nodes c i)) p = Some (word_of_nat k)" "1 \<le> k" "k \<le> length (rn_log (cl_nodes c i)) + 1"
    and "log_matching (rn_log (cl_nodes c i)) (rn_log (cl_nodes c p))"
  shows "\<exists>m \<le> k. let c' = (beat_loop i [p] ^^ m) c
    in rn_role (cl_nodes c' i) = Leader \<and> rn_log (cl_nodes c' i) = rn_log (cl_nodes c i)
       \<and> prefix (rn_log (cl_nodes c i)) (rn_log (cl_nodes c' p))"
  using assms(5) by (intro beats_repair assms) (simp_all add: logs_fit_def)

text \<open>Node 3 missed the entries of term 1 and meets the leader of term 2, which tries its last index first.\<close>

definition repair_example :: cluster where
  "repair_example = three [Elect 1, Elect 1, Elect 1, Down 3, Call 1 OpPut ''a'' ''1'', Call 1 OpPut ''b'' ''2'',
     Beat 1, Beat 1, Beat 1, Beat 1, Beat 1, Beat 1, Beat 1, Beat 1, Elect 2, Elect 2, Elect 2, Up 3]"

theorem heartbeats_repair_log_witness:
  "\<exists>m \<le> 3. prefix (rn_log (cl_nodes repair_example 2)) (rn_log (cl_nodes ((beat_loop 2 [3] ^^ m) repair_example) 3))"
proof -
  have f: "rn_role (cl_nodes repair_example 2) = Leader" "3 \<in> set (cl_up repair_example)"
    "rn_term (cl_nodes repair_example 3) \<le> rn_term (cl_nodes repair_example 2)"
    "map_of (rn_next (cl_nodes repair_example 2)) 3 = Some (word_of_nat 3)"
    "length (rn_log (cl_nodes repair_example 2)) = 2" "rn_log (cl_nodes repair_example 3) = []"
    by code_simp+
  then show ?thesis
    using heartbeats_repair_log [of repair_example 2 3 3] by (simp add: logs_fit_def log_matching_def Let_def) blast
qed

definition divergence :: "raft_action list" where
  "divergence = [Elect 1, Elect 1, Elect 1, Down 3, Call 1 OpPut ''a'' ''1'', Call_step 1 0, Call 1 OpPut ''b'' ''2'',
     Beat 1, Beat 1, Beat 1, Beat 1, Apply 1, Apply 1, Call_step 1 0, Down 1, Up 3,
     Elect 2, Elect 2, Elect 2, Elect 2, Elect 2, Call 2 OpPut ''c'' ''3'',
     Beat 2, Beat 2, Beat 2, Beat 2, Beat 2, Beat 2, Beat 2, Beat 2, Beat 2, Beat 2, Beat 2, Beat 2, Beat 2, Beat 2, Beat 2,
     Apply 2, Apply 2]"

text \<open>
  C40. A request that was built before the entries it precedes is accepted after them and cuts them off.  On the
  schedule above the proposal of \<open>a\<close> is delayed between its second and its third section; its request then
  removes the committed entry \<open>b\<close> from the only follower that had it, that follower wins the next election, and
  the state machines of two nodes are given different commands at the same position.
\<close>

theorem state_machines_diverge:
  "\<exists>c. raft_reach [1, 2, 3] c \<and> map le_key (cl_applied c 1) = [''a'', ''b''] \<and> map le_key (cl_applied c 2) = [''a'', ''c'']"
proof -
  let ?r = "raft_run [1, 2, 3] divergence (cluster_start [1, 2, 3])"
  have r: "?r \<noteq> None \<and> map le_key (cl_applied (the ?r) 1) = [''a'', ''b''] \<and> map le_key (cl_applied (the ?r) 2) = [''a'', ''c'']"
    by code_simp
  have run: "?r = Some (the ?r)" by (rule option.collapse [OF conjunct1 [OF r], symmetric])
  have start: "raft_reach [1, 2, 3] (cluster_start [1, 2, 3])" by (rule cluster_start_reach) simp
  from conjI [OF raft_run_reach [OF start run] conjunct2 [OF r]] show ?thesis by (rule exI)
qed

text \<open>
  A cluster of one node never has a leader: the count of votes is compared with the number needed only after
  a peer has answered, and there is no peer.
\<close>

theorem single_node_never_leads:
  assumes "raft_reach [i] c"
  shows "rn_role (cl_nodes c i) \<noteq> Leader"
  using single_node_inv [OF assms] by (simp add: lonely_def)

theorem single_node_never_leads_witness:
  "rn_role (cl_nodes (the (raft_run [1] [Elect 1, Elect 1, Elect 1] (cluster_start [1]))) 1) \<noteq> Leader"
proof -
  let ?r = "raft_run [1] [Elect 1, Elect 1, Elect 1] (cluster_start [1])"
  have "?r \<noteq> None" by code_simp
  then have "?r = Some (the ?r)" by (metis option.collapse)
  with cluster_start_reach have "raft_reach [1] (the ?r)" by (rule raft_run_reach) simp
  then show ?thesis by (rule single_node_never_leads)
qed

end
