(* ===== verification/Server.thy ===== *)
theory Server
  imports Kv_Store Raft_Replication
begin

text \<open>
  The two servers and the client: the line protocol of \<^verbatim>\<open>src/server_main.cpp\<close> and \<^verbatim>\<open>src/cluster_demo.cpp\<close>, the
  splitting of the received bytes into lines, the redirection \<^verbatim>\<open>src/kv_client.cpp\<close> follows, and the state
  machine the apply thread of a node feeds.  Sockets are left out: a connection is the sequence of the
  byte strings its reads return.  A handler runs its proposal to completion; the interleavings are those
  of \<^verbatim>\<open>Raft_Cluster\<close>.
\<close>

section \<open>Words of a command line\<close>

text \<open>\<^verbatim>\<open>iss >> w\<close> into an empty string: a failed extraction leaves it empty.\<close>

definition next_word :: "string \<Rightarrow> string \<times> string" where
  "next_word s = (case ext_string s of None \<Rightarrow> ([], []) | Some (w, r) \<Rightarrow> (w, r))"

section \<open>Command handlers\<close>

definition is_leader_node :: "int option \<Rightarrow> cluster \<Rightarrow> bool" where
  "is_leader_node raft c = (case raft of None \<Rightarrow> False | Some i \<Rightarrow> rn_role (cl_nodes c i) = Leader)"

definition get_reply :: "kv_store \<Rightarrow> string \<Rightarrow> string" where
  "get_reply kv k =
     (if k = [] then ''ERR usage: GET key'' @ [NL]
      else case kv_get kv k of None \<Rightarrow> ''NOT_FOUND'' @ [NL] | Some v \<Rightarrow> ''VALUE '' @ v @ [NL])"

text \<open>\<^verbatim>\<open>handle_command\<close> of \<^verbatim>\<open>server_main.cpp\<close>; \<open>raft\<close> is the pointer, with the node it points to inside the cluster.\<close>

definition server_command ::
  "int option \<Rightarrow> string \<Rightarrow> (kv_store \<times> fsys) \<times> cluster \<Rightarrow> ((kv_store \<times> fsys) \<times> cluster) \<times> string" where
  "server_command raft line = (\<lambda>((kv, fs), c).
     let is_leader = is_leader_node raft c;
         (cmd, rest) = next_word line;
         (k, rest2) = next_word rest;
         (v, _) = next_word rest2
     in if cmd = ''PUT'' then
          (if \<not> is_leader then (((kv, fs), c), ''NOT_LEADER'' @ [NL])
           else if k = [] \<or> v = [] then (((kv, fs), c), ''ERR usage: PUT key value'' @ [NL])
           else let (c', ok) = ProposePut (the raft) k v c
                in (((kv, fs), c'), (if ok then ''OK'' else ''FAIL'') @ [NL]))
        else if cmd = ''GET'' then (((kv, fs), c), get_reply kv k)
        else if cmd = ''DEL'' then
          (if \<not> is_leader then (((kv, fs), c), ''NOT_LEADER'' @ [NL])
           else if k = [] then (((kv, fs), c), ''ERR usage: DEL key'' @ [NL])
           else let (c', ok) = ProposeDel (the raft) k c
                in (((kv, fs), c'), (if ok then ''OK'' else ''NOT_FOUND'') @ [NL]))
        else if cmd = ''SIZE'' then (((kv, fs), c), ''SIZE '' @ show_nat (kv_size kv) @ [NL])
        else if cmd = ''FLUSH'' then
          (let (kv', fs', ok) = kv_flush_wal kv fs
           in (((kv', fs'), c), (if ok then ''FLUSH_OK'' else ''FLUSH_FAIL'') @ [NL]))
        else if cmd = ''PING'' then (((kv, fs), c), ''PONG'' @ [NL])
        else if cmd = ''STATUS'' then
          (((kv, fs), c), (if raft = None then ''ROLE UNKNOWN'' else if is_leader then ''ROLE LEADER'' else ''ROLE FOLLOWER'') @ [NL])
        else (((kv, fs), c), ''ERR unknown command'' @ [NL]))"

definition port_for_node :: "int \<Rightarrow> int" where
  "port_for_node node_id = (if node_id = 1 then 9101 else if node_id = 2 then 9102 else if node_id = 3 then 9103 else -1)"

text \<open>The answer of a node that is not the leader.\<close>

definition redirect_reply :: "int option \<Rightarrow> cluster \<Rightarrow> string" where
  "redirect_reply raft c =
     (let leader_port = (case raft of
            None \<Rightarrow> -1
          | Some i \<Rightarrow> (case rn_leader (cl_nodes c i) of None \<Rightarrow> -1 | Some l \<Rightarrow> port_for_node l))
      in if leader_port > 0 then ''NOT_LEADER '' @ show_nat (nat leader_port) @ [NL]
         else ''NOT_LEADER UNKNOWN'' @ [NL])"

text \<open>\<^verbatim>\<open>handle_command\<close> of \<^verbatim>\<open>cluster_demo.cpp\<close>.\<close>

definition cluster_command ::
  "int option \<Rightarrow> string \<Rightarrow> kv_store \<times> cluster \<Rightarrow> (kv_store \<times> cluster) \<times> string" where
  "cluster_command raft line = (\<lambda>(kv, c).
     let (cmd, rest) = next_word line;
         (k, rest2) = next_word rest;
         (v, _) = next_word rest2;
         is_leader = is_leader_node raft c
     in if cmd = ''PUT'' then
          (if k = [] \<or> v = [] then ((kv, c), ''ERR usage: PUT key value'' @ [NL])
           else if \<not> is_leader then ((kv, c), redirect_reply raft c)
           else let (c', ok) = ProposePut (the raft) k v c in ((kv, c'), (if ok then ''OK'' else ''FAIL'') @ [NL]))
        else if cmd = ''GET'' then ((kv, c), get_reply kv k)
        else if cmd = ''DEL'' then
          (if k = [] then ((kv, c), ''ERR usage: DEL key'' @ [NL])
           else if \<not> is_leader then ((kv, c), redirect_reply raft c)
           else let (c', ok) = ProposeDel (the raft) k c in ((kv, c'), (if ok then ''OK'' else ''NOT_FOUND'') @ [NL]))
        else if cmd = ''SIZE'' then ((kv, c), ''SIZE '' @ show_nat (kv_size kv) @ [NL])
        else if cmd = ''STATUS'' then
          ((kv, c), (if raft = None then ''ROLE UNKNOWN'' else if is_leader then ''ROLE LEADER'' else ''ROLE FOLLOWER'') @ [NL])
        else if cmd = ''PING'' then ((kv, c), ''PONG'' @ [NL])
        else if cmd = ''KILL'' then
          (case raft of
             None \<Rightarrow> ((kv, c), ''ERR no raft'' @ [NL])
           | Some i \<Rightarrow> ((kv, set_node i (raft_stop (cl_nodes c i)) c), ''STOPPED'' @ [NL]))
        else ((kv, c), ''ERR unknown command'' @ [NL]))"

section \<open>Lines of a connection\<close>

definition strip_cr :: "string \<Rightarrow> string" where
  "strip_cr line = (if line \<noteq> [] \<and> last line = CHR 0x0D then butlast line else line)"

text \<open>The inner loop over the pending bytes: the complete lines, and what stays pending.\<close>

lemma find_char_less: "find_char s c = Some i \<Longrightarrow> i < length s"
  by (induction s arbitrary: i) (auto split: if_splits)

function take_lines :: "string \<Rightarrow> string list \<times> string" where
  "take_lines pending =
     (case find_char pending NL of
        None \<Rightarrow> ([], pending)
      | Some nl \<Rightarrow>
          let line = strip_cr (substr pending 0 nl);
              (ls, r) = take_lines (drop (nl + 1) pending)
          in (line # ls, r))"
  by pat_completeness auto
termination
  by (relation "measure length") (auto dest: find_char_less)

declare take_lines.simps [simp del]

fun run_lines :: "(string \<Rightarrow> 's \<Rightarrow> 's \<times> string) \<Rightarrow> string list \<Rightarrow> 's \<Rightarrow> 's \<times> string list" where
  "run_lines handle [] s = (s, [])"
| "run_lines handle (l # ls) s =
     (let (s1, resp) = handle l s; (s2, resps) = run_lines handle ls s1 in (s2, resp # resps))"

text \<open>A connection: the argument is what successive calls of \<^verbatim>\<open>read\<close> deliver before it ends.\<close>

fun serve :: "(string \<Rightarrow> 's \<Rightarrow> 's \<times> string) \<Rightarrow> string list \<Rightarrow> string \<Rightarrow> 's \<Rightarrow> 's \<times> string list" where
  "serve handle [] pending s = (s, [])"
| "serve handle (buf # bufs) pending s =
     (let (ls, r) = take_lines (pending @ buf);
          (s1, resps1) = run_lines handle ls s;
          (s2, resps2) = serve handle bufs r s1
      in (s2, resps1 @ resps2))"

section \<open>The client\<close>

text \<open>\<^verbatim>\<open>iss >> n\<close> for an \<^verbatim>\<open>int\<close>: at the end of the stream the variable keeps its value, text that is no number makes
  it zero, and a number out of range the nearest bound.\<close>

definition read_int :: "int \<Rightarrow> string \<Rightarrow> int" where
  "read_int old s =
     (if skip_ws s = [] then old
      else let (neg, r) = sign_split (skip_ws s);
               ds = takeWhile is_digit r;
               v = (if neg then - int (digits_val ds) else int (digits_val ds))
           in if ds = [] then 0 else max (- (2 ^ 31)) (min (2 ^ 31 - 1) v))"

text \<open>The port of the second request, if the client makes one.\<close>

definition client_redirect :: "string \<Rightarrow> int option" where
  "client_redirect resp =
     (if has_prefix ''NOT_LEADER '' resp
      then let (tag, rest) = next_word resp; leader_port = read_int (-1) rest
           in if leader_port > 0 then Some leader_port else None
      else None)"

section \<open>The state machine of a node\<close>

definition sm_apply :: "log_entry \<Rightarrow> kv_store \<Rightarrow> kv_store" where
  "sm_apply e kv = (if le_op e = OpPut then ApplyPut (le_key e) (le_value e) kv else ApplyDel (le_key e) kv)"

text \<open>The store behind node \<open>i\<close>: what the apply thread has given it, on a store that was never opened.\<close>

definition replica :: "cluster \<Rightarrow> int \<Rightarrow> kv_store" where
  "replica c i = fold sm_apply (cl_applied c i) kv_init"

section \<open>Lemmas\<close>

lemma take_lines_append:
  "take_lines a = (ls, r) \<Longrightarrow> take_lines (r @ b) = (ls', r') \<Longrightarrow> take_lines (a @ b) = (ls @ ls', r')"
proof (induction a arbitrary: ls r rule: take_lines.induct)
  case (1 a)
  show ?case
  proof (cases "find_char a NL")
    case None
    then have "ls = []" "r = a" using "1.prems"(1) by (simp_all add: take_lines.simps [of a])
    with "1.prems"(2) show ?thesis by simp
  next
    case (Some nl)
    have less: "nl < length a" by (rule find_char_less [OF Some])
    have nl: "find_char (a @ b) NL = Some nl" using Some
      by (induction a arbitrary: nl) (auto split: if_splits)
    obtain ls1 r1 where rec: "take_lines (drop (nl + 1) a) = (ls1, r1)" by fastforce
    have eq: "ls = strip_cr (substr a 0 nl) # ls1" "r = r1"
      using "1.prems"(1) Some rec by (auto simp: take_lines.simps [of a])
    have "take_lines (drop (nl + 1) a @ b) = (ls1 @ ls', r')"
      using "1.IH" [OF Some refl rec] "1.prems"(2) eq(2) by simp
    then show ?thesis
      using nl less eq(1) by (simp add: take_lines.simps [of "a @ b"] substr_def)
  qed
qed

lemma run_lines_append:
  "run_lines h (ls @ ms) s = (let (s1, r1) = run_lines h ls s; (s2, r2) = run_lines h ms s1 in (s2, r1 @ r2))"
  by (induction ls arbitrary: s) (auto simp: case_prod_beta Let_def)

lemma take_lines_rest: "take_lines a = (ls, r) \<Longrightarrow> take_lines r = ([], r)"
proof (induction a arbitrary: ls r rule: take_lines.induct)
  case (1 a)
  show ?case
  proof (cases "find_char a NL")
    case None
    then have "take_lines a = ([], a)" by (simp add: take_lines.simps [of a])
    then show ?thesis using "1.prems" by simp
  next
    case (Some nl)
    obtain ls1 r1 where "take_lines (drop (nl + 1) a) = (ls1, r1)" by fastforce
    then show ?thesis using "1.prems" "1.IH" [OF Some refl] Some by (auto simp: take_lines.simps [of a])
  qed
qed

lemma serve_lines:
  "take_lines pending = ([], pending) \<Longrightarrow> serve h bufs pending s = run_lines h (fst (take_lines (pending @ concat bufs))) s"
proof (induction bufs arbitrary: pending s)
  case (Cons buf bufs)
  obtain ls r where t: "take_lines (pending @ buf) = (ls, r)" by fastforce
  obtain ms q where u: "take_lines (r @ concat bufs) = (ms, q)" by fastforce
  have all: "take_lines (pending @ concat (buf # bufs)) = (ls @ ms, q)"
    using take_lines_append [OF t u] by simp
  obtain s1 r1 where l: "run_lines h ls s = (s1, r1)" by fastforce
  have "serve h bufs r s1 = run_lines h ms s1" using Cons.IH [OF take_lines_rest [OF t], of s1] u by simp
  then show ?case using t l all by (simp add: run_lines_append case_prod_beta)
qed simp

lemma take_lines_Nil: "take_lines [] = ([], [])"
  by (simp add: take_lines.simps)

text \<open>The word operations on a line of words separated by single spaces.\<close>

lemma next_word_space: "next_word (CHR '' '' # s) = next_word s"
  by (simp add: next_word_def ext_string_def)

lemma next_word_word:
  "\<lbrakk>w \<noteq> []; \<forall>c \<in> set w. \<not> is_space c\<rbrakk> \<Longrightarrow> next_word (w @ CHR '' '' # s) = (w, CHR '' '' # s)"
  by (simp add: next_word_def ext_string_word)

lemma next_word_last: "\<lbrakk>w \<noteq> []; \<forall>c \<in> set w. \<not> is_space c\<rbrakk> \<Longrightarrow> next_word w = (w, [])"
  using skip_ws_word [of w "[]"] by (simp add: next_word_def ext_string_def takeWhile_eq_all_conv dropWhile_eq_Nil_conv)

lemma put_line_words:
  assumes "k \<noteq> []" "\<forall>c \<in> set k. \<not> is_space c" "v \<noteq> []" "\<forall>c \<in> set v. \<not> is_space c"
  shows "next_word (''PUT '' @ k @ '' '' @ v) = (''PUT'', '' '' @ k @ '' '' @ v)"
    and "next_word ('' '' @ k @ '' '' @ v) = (k, '' '' @ v)" and "next_word ('' '' @ v) = (v, [])"
proof -
  show "next_word (''PUT '' @ k @ '' '' @ v) = (''PUT'', '' '' @ k @ '' '' @ v)"
    using next_word_word [of "''PUT''" "k @ '' '' @ v"] by (simp add: is_space_def)
  show "next_word ('' '' @ k @ '' '' @ v) = (k, '' '' @ v)" "next_word ('' '' @ v) = (v, [])"
    using next_word_word [OF assms(1,2)] next_word_last [OF assms(3,4)] by (simp_all add: next_word_space)
qed

lemma read_int_show_nat:
  assumes "n < 2 ^ 31"
  shows "read_int old (CHR '' '' # show_nat n @ [NL]) = int n"
proof -
  obtain d r where dr: "show_nat n = d # r" by (cases "show_nat n") auto
  have dig: "\<forall>x \<in> set (show_nat n). is_digit x" using show_nat_digits by blast
  then have d: "is_digit d" "\<not> is_space d" using dr is_digit_not_space by auto
  have ws: "skip_ws (CHR '' '' # show_nat n @ [NL]) = show_nat n @ [NL]" using dr d(2) by simp
  have sg: "sign_split (show_nat n @ [NL]) = (False, show_nat n @ [NL])"
    using dr d(1) by (auto simp: sign_split_def is_digit_def)
  have "takeWhile is_digit (show_nat n @ [NL]) = show_nat n"
    using dig by (simp add: takeWhile_append_stop is_digit_def)
  then show ?thesis using assms by (simp add: read_int_def ws sg digits_val_show_nat)
qed

lemma client_redirect_port:
  assumes "0 < n" "n < 2 ^ 31"
  shows "client_redirect (''NOT_LEADER '' @ show_nat n @ [NL]) = Some (int n)"
proof -
  have "next_word (''NOT_LEADER '' @ show_nat n @ [NL]) = (''NOT_LEADER'', CHR '' '' # show_nat n @ [NL])"
    using next_word_word [of "''NOT_LEADER''" "show_nat n @ [NL]"] by (simp add: is_space_def)
  moreover have "has_prefix ''NOT_LEADER '' (''NOT_LEADER '' @ show_nat n @ [NL])" by (rule has_prefix_append)
  ultimately show ?thesis using assms(1) read_int_show_nat [OF assms(2)] by (simp add: client_redirect_def Let_def)
qed

lemma cluster_put:
  assumes "k \<noteq> []" "\<forall>c \<in> set k. \<not> is_space c" "v \<noteq> []" "\<forall>c \<in> set v. \<not> is_space c"
  shows "cluster_command raft (''PUT '' @ k @ '' '' @ v) (kv, c) =
    (if \<not> is_leader_node raft c then ((kv, c), redirect_reply raft c)
     else let (c', ok) = ProposePut (the raft) k v c in ((kv, c'), (if ok then ''OK'' else ''FAIL'') @ [NL]))"
  using assms by (simp only: cluster_command_def case_prod_conv put_line_words [OF assms] Let_def) simp

definition last_write :: "log_entry list \<Rightarrow> string \<Rightarrow> string option" where
  "last_write es key =
     (case filter (\<lambda>e. le_key e = key) (rev es) of [] \<Rightarrow> None | e # _ \<Rightarrow> if le_op e = OpPut then Some (le_value e) else None)"

lemma get_fold_sm_apply:
  "kv_get (fold sm_apply es kv) key = (if \<exists>e \<in> set es. le_key e = key then last_write es key else kv_get kv key)"
proof (induction es rule: rev_induct)
  case (snoc e es)
  then show ?case
    by (auto simp: sm_apply_def ApplyPut_def ApplyDel_def kv_get_def last_write_def update_conv' delete_conv' split: op_type.splits)
qed (simp add: last_write_def)

section \<open>Properties\<close>

text \<open>
  C36. Framing: what a connection does, and the responses it sends, depend on the bytes received and not on how the
  reads cut them; the handler sees the complete lines of the whole stream, in order.
\<close>

theorem serve_ignores_read_sizes:
  "serve handle bufs [] s = run_lines handle (fst (take_lines (concat bufs))) s"
  using serve_lines [OF take_lines_Nil, of handle bufs s] by simp

text \<open>
  An acknowledged write is replicated: when a node of the cluster answers \<^verbatim>\<open>OK\<close> to \<^verbatim>\<open>PUT k v\<close>, a majority of the
  nodes has the entry at the index the leader gave it.
\<close>

theorem acknowledged_put_replicated:
  assumes "cluster_command (Some i) (''PUT '' @ k @ '' '' @ v) (kv, c) = ((kv', c'), ''OK'' @ [NL])"
    and "k \<noteq> []" "\<forall>ch \<in> set k. \<not> is_space ch" "v \<noteq> []" "\<forall>ch \<in> set v. \<not> is_space ch"
    and "distinct I" "i \<in> set I" "rn_peers (cl_nodes c i) = removeAll i I" "logs_fit I c"
  shows "majority I {p \<in> set I. has_entry (length (rn_log (cl_nodes c i))) (proposed c i k v) (cl_nodes c' p)}"
proof -
  have ne: "redirect_reply (Some i) c \<noteq> ''OK'' @ [NL]" by (auto simp: redirect_reply_def Let_def)
  have "ProposePut i k v c = (c', True)"
    using assms(1) ne unfolding cluster_put [OF assms(2-5)] by (auto split: if_splits prod.splits)
  then show ?thesis using propose_put_majority [OF _ assms(6-9)] by blast
qed

theorem acknowledged_put_replicated_witness:
  "let c = three [Elect 1, Elect 1, Elect 1, Down 3];
       ((kv', c'), resp) = cluster_command (Some 1) ''PUT k v'' (kv_init, c)
   in resp = ''OK'' @ [NL] \<and> majority [1, 2, 3] {p \<in> {1, 2, 3}. has_entry 0 (proposed c 1 ''k'' ''v'') (cl_nodes c' p)}"
proof -
  let ?c = "three [Elect 1, Elect 1, Elect 1, Down 3]"
  let ?r = "cluster_command (Some 1) ''PUT k v'' (kv_init, ?c)"
  have ok: "snd (ProposePut 1 ''k'' ''v'' ?c)" "rn_role (cl_nodes ?c 1) = Leader" by code_simp+
  have log: "rn_log (cl_nodes ?c 1) = []" "rn_log (cl_nodes ?c 2) = []" "rn_log (cl_nodes ?c 3) = []" by code_simp+
  have peers: "rn_peers (cl_nodes ?c 1) = removeAll 1 [1, 2, 3]" by code_simp
  have fit: "logs_fit [1, 2, 3] ?c" by (simp add: logs_fit_def log)
  have r: "?r = ((kv_init, fst (ProposePut 1 ''k'' ''v'' ?c)), ''OK'' @ [NL])"
    using cluster_put [of "''k''" "''v''" "Some 1" kv_init ?c] ok
    by (simp add: is_space_def is_leader_node_def case_prod_beta Let_def)
  have "majority [1, 2, 3] {p \<in> set [1, 2, 3]. has_entry (length (rn_log (cl_nodes ?c 1))) (proposed ?c 1 ''k'' ''v'')
      (cl_nodes (fst (ProposePut 1 ''k'' ''v'' ?c)) p)}"
    by (rule acknowledged_put_replicated [where k = "''k''" and v = "''v''" and kv = kv_init and kv' = kv_init])
      (use r peers fit in \<open>simp_all add: is_space_def\<close>)
  then show ?thesis using r log by (simp add: Let_def)
qed

text \<open>
  A client follows a redirection to the leader the node knows: parsing the answer of a node that is not the
  leader gives back the port of its leader, and no port when it knows none.
\<close>

theorem client_follows_redirect:
  "client_redirect (redirect_reply raft c) =
    (case raft of None \<Rightarrow> None
     | Some i \<Rightarrow> (case rn_leader (cl_nodes c i) of None \<Rightarrow> None
         | Some l \<Rightarrow> if l \<in> {1, 2, 3} then Some (port_for_node l) else None))"
proof -
  have unknown: "client_redirect (''NOT_LEADER UNKNOWN'' @ [NL]) = None" by code_simp
  show ?thesis
    using unknown client_redirect_port [of 9101] client_redirect_port [of 9102] client_redirect_port [of 9103] by (auto simp: redirect_reply_def port_for_node_def Let_def split: option.splits)
qed

text \<open>
  A replica serves the writes that were applied to it: in every reachable state of the cluster a read of node
  \<open>i\<close> returns the value of the last command for the key among the entries its apply thread has taken, which are
  as many as its applied index.
\<close>

theorem replica_serves_last_applied:
  assumes "raft_reach I c"
  shows "kv_get (replica c i) key = last_write (cl_applied c i) key \<and> length (cl_applied c i) = unat (rn_applied (cl_nodes c i))"
  using raft_reach_apply [OF assms] get_fold_sm_apply [of "cl_applied c i" kv_init key]
  by (auto simp: replica_def apply_inv_def last_write_def kv_get_def kv_init_def filter_empty_conv split: list.splits)

theorem replica_serves_last_applied_witness:
  "let c = three apply_schedule in kv_get (replica c 1) ''a'' = None \<and> unat (rn_applied (cl_nodes c 1)) = 2"
proof -
  have r: "raft_run [1, 2, 3] apply_schedule (cluster_start [1, 2, 3]) \<noteq> None"
    "cl_applied (three apply_schedule) 1 = [\<lparr>le_term = 1, le_op = OpPut, le_key = ''a'', le_value = ''1''\<rparr>,
       \<lparr>le_term = 1, le_op = OpDel, le_key = ''a'', le_value = []\<rparr>]"
    by code_simp+
  have "raft_reach [1, 2, 3] (cluster_start [1, 2, 3])" by (rule cluster_start_reach) simp
  then have "raft_reach [1, 2, 3] (three apply_schedule)"
    unfolding three_def by (rule raft_run_reach [OF _ option.collapse [OF r(1), symmetric]])
  from replica_serves_last_applied [OF this, of 1 "''a''"] show ?thesis
    by (simp add: r(2) last_write_def Let_def)
qed

text \<open>
  The stand-alone server runs without a Raft node, and then no client can write: every \<^verbatim>\<open>PUT\<close> and \<^verbatim>\<open>DEL\<close> is
  refused with \<^verbatim>\<open>NOT_LEADER\<close>, and no command changes a stored value.
\<close>

theorem standalone_server_read_only:
  "(fst (next_word line) \<in> {''PUT'', ''DEL''} \<longrightarrow> server_command None line st = (st, ''NOT_LEADER'' @ [NL]))
   \<and> kv_get (fst (fst (fst (server_command None line st)))) key = kv_get (fst (fst st)) key"
proof -
  obtain kv fs c where st: "st = ((kv, fs), c)" by (metis prod.exhaust)
  have fl: "kv_get (fst (kv_flush_wal kv fs)) key = kv_get kv key"
    by (simp add: kv_flush_wal_def kv_get_def case_prod_beta)
  show ?thesis
    unfolding st server_command_def is_leader_node_def
    using fl by (simp add: Let_def case_prod_beta)
qed

theorem standalone_server_read_only_witness:
  "server_command None ''PUT a 1'' ((kv_init, fs_empty), cluster_start [1]) = (((kv_init, fs_empty), cluster_start [1]), ''NOT_LEADER'' @ [NL])"
proof -
  have "fst (next_word ''PUT a 1'') = ''PUT''" by code_simp
  then show ?thesis using standalone_server_read_only [of "''PUT a 1''"] by simp
qed

end
