(* ===== verification/Cli.thy ===== *)
theory Cli
  imports Session Server
begin

text \<open>
  The command-line tool \<^verbatim>\<open>src/main.cpp\<close>: the loop over standard input, every command, and the end of the
  process with the destructors of the store.  Standard input is a string, the exit status and what the tool
  prints are results.

  The flush thread runs beside the loop.  A list of numbers says how many steps it takes before each call of
  the store, so a theorem about all such lists is one about all interleavings of whole critical sections.  The
  text with the measured times that \<^verbatim>\<open>BENCH\<close> prints, and the value of the uninitialised \<^verbatim>\<open>int n\<close> of \<^verbatim>\<open>SETBATCH\<close>,
  are arguments.
\<close>

section \<open>Commands\<close>

definition bench_writes :: "string \<Rightarrow> int \<Rightarrow> (string \<times> string) list" where
  "bench_writes pre n = map (\<lambda>i. (pre @ show_nat i, ''v'')) [0..<nat n]"

definition cli_bench :: "int \<Rightarrow> session \<Rightarrow> session" where
  "cli_bench n st =
     (let (st1, _) = session_flush (session_puts (bench_writes ''warm'' 1000) st);
          (st2, _) = session_flush (session_puts (bench_writes ''k'' n) st1)
      in st2)"

definition cli_wal :: string where
  "cli_wal = ''/tmp/kv.wal''"

definition cli_command :: "(int \<Rightarrow> string) \<Rightarrow> int \<Rightarrow> string \<Rightarrow> session \<Rightarrow> session \<times> string \<times> bool" where
  "cli_command timing junk line st =
     (let (cmd, rest) = next_word line;
          (k, rest2) = next_word rest;
          (v, _) = next_word rest2
      in if cmd = ''PUT'' then (session_put k v st, ''OK'' @ [NL], True)
         else if cmd = ''BENCH'' then
           (let n = read_int 100000 rest
            in (cli_bench n st, ''BENCH N='' @ show_int n @ timing n @ [NL], True))
         else if cmd = ''SETBATCH'' then
           (let n = read_int junk rest; ((kv, fs), sched) = flush_thread st
            in (((set_group_commit_every n kv, fs), sched), ''OK batch='' @ show_int n @ [NL], True))
         else if cmd = ''GET'' then
           (let (s, sched) = flush_thread st
            in ((s, sched), (case kvs_get s k of Some w \<Rightarrow> w | None \<Rightarrow> ''(nil)'') @ [NL], True))
         else if cmd = ''EXIT'' then (st, ''bye'' @ [NL], False)
         else if cmd = ''SNAP'' then
           (let ((kv, fs), sched) = flush_thread st; (kv', fs', ok) = checkpoint kv fs snapshot_file cli_wal
            in (((kv', fs'), sched), (if ok then ''SNAP OK'' else ''SNAP FAIL'') @ [NL], True))
         else if cmd = ''FLUSH'' then
           (let (st', ok) = session_flush st in (st', (if ok then ''FLUSH OK'' else ''FLUSH FAIL'') @ [NL], True))
         else (st, ''Unknown'' @ [NL], True))"

section \<open>The process\<close>

text \<open>The loop over the lines of standard input; the flag says whether it goes on.\<close>

fun cli_loop :: "(int \<Rightarrow> string) \<Rightarrow> int \<Rightarrow> string list \<Rightarrow> session \<Rightarrow> session \<times> string" where
  "cli_loop timing junk [] st = (st, ''kv> '' @ [NL] @ ''EOF'' @ [NL])"
| "cli_loop timing junk (l # ls) st =
     (let (st1, out, go_on) = cli_command timing junk l st
      in if go_on then let (st2, outs) = cli_loop timing junk ls st1 in (st2, ''kv> '' @ out @ outs)
         else (st1, ''kv> '' @ out))"

definition cli_main ::
  "(version list \<Rightarrow> version list) \<Rightarrow> (int \<Rightarrow> string) \<Rightarrow> int \<Rightarrow> nat list \<Rightarrow> string \<Rightarrow> fsys \<Rightarrow> fsys \<times> nat \<times> string" where
  "cli_main srt timing junk sched input fs =
     (let (kv, fs1, ok) = kv_open srt kv_init fs cli_wal
      in if \<not> ok then (snd (kv_destroy (kv, fs1)), 1, ''CLI started'' @ [NL])
         else let ((s, _), out) = cli_loop timing junk (getlines input) ((kv, fs1), sched)
              in (snd (kv_destroy s), 0, ''CLI started'' @ [NL] @ out))"

section \<open>What a session may print\<close>

text \<open>The writes a line makes.\<close>

definition cli_writes :: "string \<Rightarrow> (string \<times> string) list" where
  "cli_writes line =
     (let (cmd, rest) = next_word line;
          (k, rest2) = next_word rest;
          (v, _) = next_word rest2
      in if cmd = ''PUT'' then [(k, v)]
         else if cmd = ''BENCH''
         then bench_writes ''warm'' 1000 @ bench_writes ''k'' (read_int 100000 rest)
         else [])"

text \<open>
  The tool as a map from keys to values: the map after a line and the answers allowed for it.  What \<^verbatim>\<open>BENCH\<close>
  measures and whether the disk takes a flush or a snapshot is open.
\<close>

definition cli_spec :: "string \<Rightarrow> (string \<rightharpoonup> string) \<Rightarrow> (string \<rightharpoonup> string) \<times> string set" where
  "cli_spec line m =
     (let (cmd, rest) = next_word line; (k, _) = next_word rest
      in (m ++ map_of (rev (cli_writes line)),
          if cmd = ''PUT'' then {''OK'' @ [NL]}
          else if cmd = ''BENCH'' then {''BENCH N='' @ show_int (read_int 100000 rest) @ t @ [NL] | t. True}
          else if cmd = ''SETBATCH'' then {''OK batch='' @ show_int (read_int j rest) @ [NL] | j. True}
          else if cmd = ''GET'' then {(case m k of Some w \<Rightarrow> w | None \<Rightarrow> ''(nil)'') @ [NL]}
          else if cmd = ''EXIT'' then {''bye'' @ [NL]}
          else if cmd = ''SNAP'' then {''SNAP OK'' @ [NL], ''SNAP FAIL'' @ [NL]}
          else if cmd = ''FLUSH'' then {''FLUSH OK'' @ [NL], ''FLUSH FAIL'' @ [NL]}
          else {''Unknown'' @ [NL]}))"

fun cli_outputs :: "string list \<Rightarrow> (string \<rightharpoonup> string) \<Rightarrow> string set" where
  "cli_outputs [] m = {''kv> '' @ [NL] @ ''EOF'' @ [NL]}"
| "cli_outputs (l # ls) m =
     (let (m', R) = cli_spec l m
      in if fst (next_word l) = ''EXIT'' then {''kv> '' @ r | r. r \<in> R}
         else {''kv> '' @ r @ out | r out. r \<in> R \<and> out \<in> cli_outputs ls m'})"

section \<open>Lemmas\<close>

lemma cli_bench_ok:
  assumes "session_ok cli_wal (fst st)"
  shows "session_ok cli_wal (fst (cli_bench n st))
    \<and> kvs_get (fst (cli_bench n st)) = kvs_get (fst st) ++ map_of (rev (bench_writes ''warm'' 1000 @ bench_writes ''k'' n))"
proof -
  let ?st1 = "fst (session_flush (session_puts (bench_writes ''warm'' 1000) st))"
  note a = session_puts_ok [OF assms, of "bench_writes ''warm'' 1000"]
  note b = session_flush_ok [OF conjunct1 [OF a]]
  note c = session_puts_ok [OF conjunct1 [OF b], of "bench_writes ''k'' n"]
  note d = session_flush_ok [OF conjunct1 [OF c]]
  have "cli_bench n st = fst (session_flush (session_puts (bench_writes ''k'' n) ?st1))"
    by (simp add: cli_bench_def case_prod_beta Let_def)
  then show ?thesis using a b c d by simp
qed

lemma cli_snap_ok:
  assumes "session_ok cli_wal (kv, fs)" "checkpoint kv fs p cli_wal = (kv', fs', ok)"
  shows "session_ok cli_wal (kv', fs') \<and> kvs_get (kv', fs') = kvs_get (kv, fs)"
proof -
  obtain fs1 saved where v: "save_to_file kv fs p = (fs1, saved)" by fastforce
  have "fs_deny fs1 = fs_deny fs" using deny_ofs(2) [of fs p] v by (metis fst_conv save_to_file_def)
  then have d: "\<not> fs_deny fs1 cli_wal" using assms(1) by (simp add: session_ok_def)
  obtain w fs2 b where w: "wal_open_file (wal_close (kv_wal kv)) (fs_remove fs1 cli_wal) cli_wal = (w, fs2, b)"
    by (metis prod_cases3)
  then have "wal_open w" using d by (auto simp: wal_open_file_def Let_def)
  moreover have "\<not> fs_deny fs2 cli_wal" using w d deny_wal_open deny_ofs(4) by (metis fst_conv snd_conv)
  ultimately show ?thesis
    using assms d v w by (cases saved) (auto simp: checkpoint_def session_ok_def kvs_get_def kv_get_def fun_eq_iff)
qed

lemma cli_command_ok:
  assumes "session_ok cli_wal (fst st)" "cli_command timing junk line st = (st', out, go_on)"
  shows "session_ok cli_wal (fst st') \<and> kvs_get (fst st') = fst (cli_spec line (kvs_get (fst st))) \<and> out \<in> snd (cli_spec line (kvs_get (fst st)))
    \<and> go_on = (fst (next_word line) \<noteq> ''EXIT'')"
proof -
  obtain kv fs sched where f: "flush_thread st = ((kv, fs), sched)" by (metis prod.exhaust)
  note t = flush_thread_ok [OF assms(1), unfolded f fst_conv]
  have p: "session_ok cli_wal (fst (session_put k v st)) \<and> kvs_get (fst (session_put k v st)) = (kvs_get (fst st))(k \<mapsto> v)" for k v
    using session_puts_ok [OF assms(1), of "[(k, v)]"] by (simp add: session_puts_def)
  have g: "session_ok cli_wal (set_group_commit_every n kv, fs) \<and> kvs_get (set_group_commit_every n kv, fs) = kvs_get (kv, fs)" for n
    using t by (simp add: session_ok_def set_group_commit_every_def kvs_get_def kv_get_def fun_eq_iff)
  obtain kv' fs' ok where c: "checkpoint kv fs snapshot_file cli_wal = (kv', fs', ok)" by (metis prod_cases3)
  show ?thesis
    using assms t p g cli_bench_ok [OF assms(1)] session_flush_ok [OF assms(1)] cli_snap_ok [OF conjunct1 [OF t] c]
    by (auto simp: cli_command_def cli_spec_def cli_writes_def f c case_prod_beta Let_def split: if_splits)
qed

lemma cli_loop_ok: "session_ok cli_wal (fst st) \<Longrightarrow> snd (cli_loop timing junk ls st) \<in> cli_outputs ls (kvs_get (fst st))"
proof (induction ls arbitrary: st)
  case (Cons l ls)
  obtain st1 out go_on where c: "cli_command timing junk l st = (st1, out, go_on)" by (metis prod_cases3)
  note r = cli_command_ok [OF Cons.prems c]
  from Cons.IH [of st1] r c show ?case by (auto simp: case_prod_beta Let_def)
qed simp

section \<open>Sessions as runs of the store\<close>

lemma length_bench_writes [simp]: "length (bench_writes pre n) = nat n"
  by (simp add: bench_writes_def)

lemma cli_bench_run:
  assumes "std_sort srt" "runs_on srt cli_wal (length ws + n) st" "ws = bench_writes ''warm'' 1000 @ bench_writes ''k'' m"
    and "\<forall>w \<in> set ws. write_ok w"
  shows "runs_on srt cli_wal n (cli_bench m st)"
proof -
  let ?st1 = "fst (session_flush (session_puts (bench_writes ''warm'' 1000) st))"
  have "runs_on srt cli_wal (nat m + n) (session_puts (bench_writes ''warm'' 1000) st)"
    using assms(2-4) by (intro runs_on_puts [OF assms(1)]) (auto simp: add.assoc)
  then have "runs_on srt cli_wal (nat m + n) ?st1" using runs_on_flush [OF assms(1)] by blast
  then have "runs_on srt cli_wal n (session_puts (bench_writes ''k'' m) ?st1)"
    using assms(3,4) by (intro runs_on_puts [OF assms(1)]) auto
  moreover have "cli_bench m st = fst (session_flush (session_puts (bench_writes ''k'' m) ?st1))"
    by (simp add: cli_bench_def case_prod_beta Let_def)
  ultimately show ?thesis using runs_on_flush [OF assms(1)] by simp
qed

lemma read_int_range: "old < 2 ^ 31 \<Longrightarrow> read_int old s < 2 ^ 31"
  by (auto simp: read_int_def Let_def case_prod_beta)

lemma cli_command_run:
  assumes "std_sort srt" "runs_on srt cli_wal (length (cli_writes line) + n) st" "\<forall>w \<in> set (cli_writes line). write_ok w"
    and "fst (next_word line) \<noteq> ''SNAP''" "junk < 2 ^ 31"
  shows "runs_on srt cli_wal n (fst (cli_command timing junk line st))"
proof -
  let ?cmd = "fst (next_word line)" and ?rest = "snd (next_word line)"
  let ?m = "read_int 100000 ?rest"
  consider "?cmd = ''PUT''" | "?cmd = ''BENCH''" | "?cmd = ''SETBATCH''" | "?cmd \<notin> {''PUT'', ''BENCH'', ''SETBATCH''}" by blast
  then show ?thesis
  proof cases
    case 1
    then show ?thesis using assms runs_on_put [OF assms(1)]
      by (simp add: cli_command_def cli_writes_def case_prod_beta Let_def)
  next
    case 2
    then have "cli_writes line = bench_writes ''warm'' 1000 @ bench_writes ''k'' ?m"
      by (simp add: cli_writes_def case_prod_beta Let_def)
    from cli_bench_run [OF assms(1,2) this assms(3)] have "runs_on srt cli_wal n (cli_bench ?m st)" .
    then show ?thesis using 2 by (simp add: cli_command_def case_prod_beta Let_def)
  next
    case 3
    obtain kv fs sched where f: "flush_thread st = ((kv, fs), sched)" by (metis prod.exhaust)
    have "runs_on srt cli_wal n (flush_thread st)" using runs_on_thread assms(2) 3 by (simp add: cli_writes_def case_prod_beta Let_def)
    then obtain H where H: "kv_run srt cli_wal H kv fs" "room_for n kv" by (auto simp: runs_on_def f)
    have "runs_on srt cli_wal n ((set_group_commit_every (read_int junk ?rest) kv, fs), sched)"
      using kv_run.Group [OF H(1) read_int_range [OF assms(5)], of ?rest] H(2)
      unfolding runs_on_def by (auto simp: set_group_commit_every_def room_for_def)
    then show ?thesis using 3 by (simp add: cli_command_def f case_prod_beta Let_def)
  next
    case 4
    then have "runs_on srt cli_wal n st" "runs_on srt cli_wal n (flush_thread st)" using runs_on_thread assms(2)
      by (auto simp: cli_writes_def case_prod_beta Let_def)
    with 4 assms(4) show ?thesis using runs_on_flush [OF assms(1)] by (auto simp: cli_command_def case_prod_beta Let_def)
  qed
qed

definition cli_map :: "string list \<Rightarrow> (string \<rightharpoonup> string) \<Rightarrow> (string \<rightharpoonup> string)" where
  "cli_map ls m = foldl (\<lambda>m l. fst (cli_spec l m)) m ls"

lemma cli_loop_run:
  assumes "std_sort srt" "junk < 2 ^ 31" "session_ok cli_wal (fst st)" "runs_on srt cli_wal (length (concat (map cli_writes ls)) + n) st"
    and "\<forall>l \<in> set ls. fst (next_word l) \<notin> {''SNAP'', ''EXIT''} \<and> (\<forall>w \<in> set (cli_writes l). write_ok w)"
  shows "\<exists>st'. runs_on srt cli_wal n st' \<and> session_ok cli_wal (fst st') \<and> kvs_get (fst st') = cli_map ls (kvs_get (fst st))
    \<and> fst (cli_loop timing junk (ls @ rest) st) = fst (cli_loop timing junk rest st')"
  using assms(3-5)
proof (induction ls arbitrary: st)
  case Nil
  then show ?case by (intro exI [of _ st]) (simp add: cli_map_def)
next
  case (Cons l ls)
  obtain st1 out go_on where c: "cli_command timing junk l st = (st1, out, go_on)" by (metis prod_cases3)
  note r = cli_command_ok [OF Cons.prems(1) c]
  have "runs_on srt cli_wal (length (concat (map cli_writes ls)) + n) (fst (cli_command timing junk l st))"
    using Cons.prems(2,3) by (intro cli_command_run [OF assms(1)]) (use assms(2) in \<open>auto simp: add.assoc\<close>)
  with Cons.IH [of st1] r Cons.prems(3) obtain st' where "runs_on srt cli_wal n st'" "session_ok cli_wal (fst st')"
    "kvs_get (fst st') = cli_map ls (kvs_get (fst st1))"
    "fst (cli_loop timing junk (ls @ rest) st1) = fst (cli_loop timing junk rest st')" by (auto simp: c)
  moreover have "go_on" using r Cons.prems(3) by simp
  ultimately show ?case using r by (intro exI [of _ st']) (simp add: cli_map_def c case_prod_beta)
qed

lemma cli_main_opened:
  assumes "kv_open srt kv_init fs cli_wal = (kv, fs1, True)"
  shows "\<exists>fs' printed. cli_main srt timing junk sched input fs = (fs', 0, ''CLI started'' @ [NL] @ printed)
    \<and> printed \<in> cli_outputs (getlines input) (kv_get kv)"
proof -
  have "kvs_get (kv, fs1) = kv_get kv" by (simp add: kvs_get_def fun_eq_iff)
  then show ?thesis using cli_loop_ok [of "((kv, fs1), sched)" timing junk "getlines input"] session_opened [OF assms]
    by (simp add: cli_main_def assms case_prod_beta Let_def)
qed

section \<open>Properties\<close>

text \<open>
  C31. Command-line sessions: on every disk, for every input and every interleaving of the flush thread, the tool
  either fails to open the store and exits with status 1, or exits with 0 and prints a text the map from keys to
  values allows: every \<^verbatim>\<open>GET\<close> shows the value of the last \<^verbatim>\<open>PUT\<close> or benchmark write of its key, or what the store held
  when it was opened.  Failing disks do not change that.
\<close>

theorem cli_session_output:
  "let (kv, fs1, ok) = kv_open srt kv_init fs cli_wal; (fs', status, out) = cli_main srt timing junk sched input fs
   in if ok then status = 0 \<and> (\<exists>printed. printed \<in> cli_outputs (getlines input) (kv_get kv) \<and> out = ''CLI started'' @ [NL] @ printed)
      else status = 1 \<and> out = ''CLI started'' @ [NL]"
proof -
  obtain kv fs1 ok where o: "kv_open srt kv_init fs cli_wal = (kv, fs1, ok)" by (metis prod_cases3)
  show ?thesis
  proof (cases ok)
    case True
    with cli_main_opened [of srt fs kv fs1 timing junk sched input] o show ?thesis by auto
  qed (simp add: cli_main_def o)
qed

text \<open>
  C13. What one session has flushed the next one shows.  The first run opens the store in a state of a run (\<^const>\<open>kv_run\<close>: a working
  disk, no checkpoint before), is given lines without \<^verbatim>\<open>SNAP\<close> and \<^verbatim>\<open>EXIT\<close> whose writes the tables can represent (keys without
  white space, values without newlines or leading blanks) and for which the counters have room, then \<^verbatim>\<open>FLUSH\<close>, and ends by
  \<^verbatim>\<open>EXIT\<close> or the end of the input.  The next run on the same disk opens the store and answers, whatever its own
  input, from the map the lines of the first have built on top of what the store held before.
\<close>

theorem cli_flushed_session_persists:
  assumes "std_sort srt" "kv_open srt kv_init fs cli_wal = (kv, fs1, True)" "kv_run srt cli_wal H kv fs1"
    and "getlines input = ls @ ''FLUSH'' # qs" "qs = [] \<or> qs = [''EXIT'']" "junk < 2 ^ 31"
    and "\<forall>l \<in> set ls. fst (next_word l) \<notin> {''SNAP'', ''EXIT''} \<and> (\<forall>w \<in> set (cli_writes l). write_ok w)"
    and "room_for (length (concat (map cli_writes ls))) kv"
    and "cli_main srt timing junk sched input fs = (fs2, status, out)"
    and "cli_main srt timing' junk' sched' input' fs2 = (fs3, status', out')"
  shows "status' = 0 \<and> (\<exists>printed. printed \<in> cli_outputs (getlines input') (cli_map ls (latest H)) \<and> out' = ''CLI started'' @ [NL] @ printed)"
proof -
  let ?st = "((kv, fs1), sched)"
  have "runs_on srt cli_wal (length (concat (map cli_writes ls)) + 0) ?st" using assms(3,8) by (auto simp: runs_on_def)
  from cli_loop_run [OF assms(1,6) _ this assms(7), of timing "''FLUSH'' # qs"] session_opened [OF assms(2)]
  obtain st where st: "runs_on srt cli_wal 0 st" "session_ok cli_wal (fst st)" "kvs_get (fst st) = cli_map ls (kvs_get (kv, fs1))"
    "fst (cli_loop timing junk (getlines input) ?st) = fst (cli_loop timing junk (''FLUSH'' # qs) st)"
    by (auto simp: assms(4))
  have "next_word ''FLUSH'' = (''FLUSH'', [])" "next_word ''EXIT'' = (''EXIT'', [])"
    by (rule next_word_last; simp add: is_space_def)+
  then have "fst (cli_loop timing junk (''FLUSH'' # qs) st) = fst (session_flush st)"
    using assms(5) by (auto simp: cli_command_def case_prod_beta Let_def)
  with st(4) have fin: "fst (cli_loop timing junk (getlines input) ?st) = fst (session_flush st)" by simp
  note fl = runs_on_flush [OF assms(1) st(1)]
  obtain kv2 fsa sa where a: "fst (session_flush st) = ((kv2, fsa), sa)" by (metis prod.exhaust)
  obtain H2 where H2: "kv_run srt cli_wal H2 kv2 fsa" "wal_buffer (kv_wal kv2) = []" using fl by (auto simp: runs_on_def a)
  obtain n where "fs2 = snd (thread_steps n kv2 fsa)"
    using kv_destroy_steps [of kv2 fsa] assms(2,9) fin a by (auto simp: cli_main_def case_prod_beta Let_def)
  then obtain kv3 where t: "thread_steps n kv2 fsa = (kv3, fs2)" by (metis prod.collapse)
  have b: "wal_buffer (kv_wal kv3) = []" using thread_steps_only [of n kv2 fsa] t H2(2) by auto
  obtain kv4 fs4 ok where o: "kv_open srt kv_init fs2 cli_wal = (kv4, fs4, ok)" by (metis prod_cases3)
  from recovered_prefix [OF assms(1) thread_steps_run [OF H2(1) t] o] b have ok: "ok" "kv_get kv4 = latest H2" by auto
  have "latest H2 = kvs_get (kv2, fsa)" using run_ok(2) [OF assms(1), of cli_wal H2 "(kv2, fsa)"] H2(1) by simp
  also have "\<dots> = cli_map ls (latest H)"
    using session_flush_ok [OF st(2)] st(3) run_ok(2) [OF assms(1), of cli_wal H "(kv, fs1)"] assms(3) by (simp add: a)
  finally show ?thesis
    using cli_main_opened [of srt fs2 kv4 fs4 timing' junk' sched' input'] ok o assms(10) by auto
qed

text \<open>The first run on an empty disk.\<close>

lemma cli_first_open:
  obtains kv fs where "kv_open srt kv_init fs_empty cli_wal = (kv, fs, True)" "kv_run srt cli_wal [] kv fs"
    "kv = kv_init\<lparr>kv_wal := wal_init\<lparr>wal_open := True, wal_path := cli_wal\<rparr>, kv_opened := True,
        kv_manifest := manifest_file, kv_worker := worker_start worker_init\<rparr>"
proof -
  have f: "fresh_disk fs_empty cli_wal" by (rule fresh_disk_wal) (simp_all add: cli_wal_def)
  from open_fresh [OF f, of srt] kv_run.Open [OF f] that show thesis by blast
qed

lemma cli_words:
  "next_word ''PUT a 1'' = (''PUT'', '' a 1'')" "next_word '' a 1'' = (''a'', '' 1'')" "next_word '' 1'' = (''1'', [])"
  "next_word ''GET a'' = (''GET'', '' a'')" "next_word '' a'' = (''a'', [])" "next_word ''EXIT'' = (''EXIT'', [])"
  by code_simp+

lemma cli_inputs:
  "getlines (''PUT a 1'' @ [NL] @ ''FLUSH'' @ [NL]) = [''PUT a 1'', ''FLUSH'']"
  "getlines (''PUT a 1'' @ [NL] @ ''EXIT'' @ [NL]) = [''PUT a 1'', ''EXIT'']" "getlines (''GET a'' @ [NL]) = [''GET a'']"
  by code_simp+

theorem cli_flushed_session_persists_witness:
  "let (fs2, status, out) = cli_main (sort_key ver_timestamp) (\<lambda>_. []) 0 [] (''PUT a 1'' @ [NL] @ ''FLUSH'' @ [NL]) fs_empty;
       (fs3, status', out') = cli_main (sort_key ver_timestamp) (\<lambda>_. []) 0 [] (''GET a'' @ [NL]) fs2
   in status' = 0 \<and> out' = ''CLI started'' @ [NL] @ ''kv> 1'' @ [NL] @ ''kv> '' @ [NL] @ ''EOF'' @ [NL]"
proof -
  let ?srt = "sort_key ver_timestamp"
  obtain kv fs1 where o: "kv_open ?srt kv_init fs_empty cli_wal = (kv, fs1, True)" "kv_run ?srt cli_wal [] kv fs1"
    "kv = kv_init\<lparr>kv_wal := wal_init\<lparr>wal_open := True, wal_path := cli_wal\<rparr>, kv_opened := True,
        kv_manifest := manifest_file, kv_worker := worker_start worker_init\<rparr>" by (rule cli_first_open)
  obtain fs2 status out where a: "cli_main ?srt (\<lambda>_. []) 0 [] (''PUT a 1'' @ [NL] @ ''FLUSH'' @ [NL]) fs_empty = (fs2, status, out)"
    by (metis prod_cases3)
  obtain fs3 status' out' where b: "cli_main ?srt (\<lambda>_. []) 0 [] (''GET a'' @ [NL]) fs2 = (fs3, status', out')" by (metis prod_cases3)
  have w: "cli_writes ''PUT a 1'' = [(''a'', ''1'')]" by (simp add: cli_writes_def cli_words)
  have "status' = 0 \<and> (\<exists>printed. printed \<in> cli_outputs (getlines (''GET a'' @ [NL])) (cli_map [''PUT a 1''] (latest []))
      \<and> out' = ''CLI started'' @ [NL] @ printed)"
    by (rule cli_flushed_session_persists [OF stable_sort.std_sort_axioms o(1,2) _ _ _ _ _ a b, of "[''PUT a 1'']" "[]"])
      (use o(3) in \<open>simp_all add: cli_inputs w cli_words write_ok_def key_ok_def value_ok_def is_space_def room_for_def kv_init_def\<close>)
  then show ?thesis using a b by (simp add: cli_inputs cli_map_def cli_spec_def cli_words w)
qed

text \<open>
  Without a \<^verbatim>\<open>FLUSH\<close> an acknowledged write can be lost although the tool ends in order: nothing on the way from \<^verbatim>\<open>EXIT\<close>
  to the end of the process writes the log buffer, so the next run does not know the key.
\<close>

theorem cli_exit_loses_writes:
  "let (fs2, status, out) = cli_main (sort_key ver_timestamp) timing junk [] (''PUT a 1'' @ [NL] @ ''EXIT'' @ [NL]) fs_empty;
       (fs3, status', out') = cli_main (sort_key ver_timestamp) timing junk [] (''GET a'' @ [NL]) fs2
   in out = ''CLI started'' @ [NL] @ ''kv> OK'' @ [NL] @ ''kv> bye'' @ [NL] \<and> status = 0
      \<and> out' = ''CLI started'' @ [NL] @ ''kv> (nil)'' @ [NL] @ ''kv> '' @ [NL] @ ''EOF'' @ [NL]"
proof -
  let ?srt = "sort_key ver_timestamp" and ?in = "''PUT a 1'' @ [NL] @ ''EXIT'' @ [NL]"
  obtain kv fs1 where o: "kv_open ?srt kv_init fs_empty cli_wal = (kv, fs1, True)" "kv_run ?srt cli_wal [] kv fs1"
    "kv = kv_init\<lparr>kv_wal := wal_init\<lparr>wal_open := True, wal_path := cli_wal\<rparr>, kv_opened := True,
        kv_manifest := manifest_file, kv_worker := worker_start worker_init\<rparr>" by (rule cli_first_open)
  obtain kv2 fs where p: "kv_put kv fs1 ''a'' ''1'' = (kv2, fs)" by fastforce
  have r: "kv_run ?srt cli_wal ([] @ [(''a'', \<lparr>ver_timestamp = kv_seq kv + 1, ver_value = Some ''1''\<rparr>)]) kv2 fs"
    by (rule kv_run.Put [OF o(2) _ _ _ _ _ p])
      (simp_all add: o(3) kv_limits_def kv_init_def key_ok_def value_ok_def is_space_def)
  have buf: "length (wal_buffer (kv_wal kv2)) = 1"
    using p by (auto simp: o(3) kv_put_def append_put_def write_record_def kv_init_def wal_init_def memtable_put_def
        memtable_init_def maybe_flush_memtable_def approximate_size_bytes_def kMemTableFlushThresholdBytes_def
        sizeof_Timestamp_def sizeof_Version_def)
  obtain n where n: "snd (kv_destroy (kv2, fs)) = snd (thread_steps n kv2 fs)" using kv_destroy_steps by blast
  have loop: "fst (cli_loop timing junk (getlines ?in) ((kv, fs1), [])) = ((kv2, fs), [])"
    by (simp only: cli_inputs) (simp add: cli_command_def cli_words session_put_def flush_thread_def kvs_put_def p)
  obtain kv3 fs2 where t: "thread_steps n kv2 fs = (kv3, fs2)" by fastforce
  obtain kv4 fs4 ok where q: "kv_open ?srt kv_init fs2 cli_wal = (kv4, fs4, ok)" by (metis prod_cases3)
  have "length (wal_buffer (kv_wal kv3)) = 1" using thread_steps_only [of n kv2 fs] t buf by auto
  with recovered_prefix [OF stable_sort.std_sort_axioms thread_steps_run [OF r t] q]
  have ok: "ok" "kv_get kv4 = latest []" by (auto simp: append_eq_Cons_conv)
  obtain fs5 o1 where one: "cli_main ?srt timing junk [] ?in fs_empty = (fs5, 0, ''CLI started'' @ [NL] @ o1)"
    "o1 \<in> cli_outputs (getlines ?in) (kv_get kv)" using cli_main_opened [OF o(1)] by blast
  have "fst (cli_main ?srt timing junk [] ?in fs_empty) = fs2"
    using n t loop by (simp add: cli_main_def o(1) case_prod_beta Let_def)
  then have "fs5 = fs2" using one(1) by simp
  have "kv_open ?srt kv_init fs2 cli_wal = (kv4, fs4, True)" using q ok(1) by simp
  from cli_main_opened [OF this] obtain fs6 o2 where two: "cli_main ?srt timing junk [] (''GET a'' @ [NL]) fs2 = (fs6, 0, ''CLI started'' @ [NL] @ o2)"
    "o2 \<in> cli_outputs (getlines (''GET a'' @ [NL])) (kv_get kv4)" by blast
  show ?thesis using one two ok(2) \<open>fs5 = fs2\<close>
    by (simp only: cli_inputs) (auto simp: cli_spec_def cli_words latest_def hist_of_def)
qed

end
