(* ===== verification/Benchmarks.thy ===== *)
theory Benchmarks
  imports Session
begin

text \<open>
  The two benchmark programs, \<^verbatim>\<open>src/storage_benchmark.cpp\<close> and \<^verbatim>\<open>src/sstable_benchmark.cpp\<close>.  Both count what their reads
  find and print the counts as a check; the theorems say what is printed.  Measured times, the clock and the
  formatting of floating-point numbers are arguments: \<open>report\<close> is the line of \<^verbatim>\<open>print_result\<close>, \<open>row\<close> that of a result in
  the CSV file, \<open>rate\<close> the printed percentage.  Directories are not modelled, so \<^verbatim>\<open>create_directories\<close> does nothing.
\<close>

section \<open>Results\<close>

text \<open>\<^verbatim>\<open>append_csv_result\<close>: a header when the file is new, then the row; nothing when it cannot be opened.\<close>

definition append_csv_result :: "string \<Rightarrow> string \<Rightarrow> string \<Rightarrow> fsys \<Rightarrow> fsys" where
  "append_csv_result csv_path header row fs =
     (let new = (fs_files fs csv_path = None)
      in fst (ofs_write fs csv_path True ((if new then header @ [NL] else []) @ row @ [NL])))"

section \<open>Keys and values\<close>

definition present_key :: "nat \<Rightarrow> string" where
  "present_key i = ''key-'' @ show_nat i"

definition missing_key :: "nat \<Rightarrow> string" where
  "missing_key i = ''missing-'' @ show_nat i"

definition key_value_of :: "nat \<Rightarrow> string" where
  "key_value_of i = ''value-'' @ show_nat i"

lemma bench_keys_differ [simp]: "present_key i = present_key j \<longleftrightarrow> i = j" "present_key i \<noteq> missing_key j" "missing_key j \<noteq> present_key i"
  by (simp_all add: present_key_def missing_key_def)

section \<open>The storage benchmark\<close>

definition kOperations :: nat where
  "kOperations = 100000"

definition storage_wal :: string where
  "storage_wal = ''/tmp/veristore-benchmark.wal''"

definition storage_writes :: "nat \<Rightarrow> (string \<times> string) list" where
  "storage_writes n = map (\<lambda>i. (present_key i, key_value_of i)) [0..<n]"

text \<open>A loop of \<^verbatim>\<open>get\<close>, counting the answers that pass a test.\<close>

fun count_gets :: "(string option \<Rightarrow> bool) \<Rightarrow> string list \<Rightarrow> session \<Rightarrow> session \<times> nat" where
  "count_gets test [] st = (st, 0)"
| "count_gets test (k # ks) st =
     (let (s, sched) = flush_thread st; (st', n) = count_gets test ks (s, sched)
      in (st', if test (kvs_get s k) then n + 1 else n))"

definition storage_header :: string where
  "storage_header = ''timestamp,benchmark,operations,total_ms,ops_per_sec,avg_us,verified''"

definition storage_text :: "(string \<Rightarrow> nat \<Rightarrow> string) \<Rightarrow> nat \<Rightarrow> nat \<Rightarrow> string" where
  "storage_text report found missing =
     [NL] @ ''VeriStore Benchmark'' @ [NL] @ ''-------------------'' @ [NL]
     @ report ''Sequential PUT'' kOperations @ [NL] @ report ''Existing-key GET'' kOperations @ [NL]
     @ report ''Missing-key GET'' kOperations @ [NL]
     @ ''verified_hits='' @ show_nat found @ [NL] @ ''verified_misses='' @ show_nat missing @ [NL]"

definition storage_benchmark ::
  "(version list \<Rightarrow> version list) \<Rightarrow> (string \<Rightarrow> nat \<Rightarrow> string) \<Rightarrow> (string \<Rightarrow> nat \<Rightarrow> nat \<Rightarrow> string) \<Rightarrow> nat list \<Rightarrow> fsys \<Rightarrow> fsys \<times> nat \<times> string" where
  "storage_benchmark srt report row sched fs =
     (let fs0 = fs_remove (fs_remove fs storage_wal) manifest_file;
          (kv, fs1, ok) = kv_open srt kv_init fs0 storage_wal
      in if \<not> ok then (snd (kv_destroy (kv, fs1)), 1, ''Failed to open store'' @ [NL])
         else let st0 = ((set_group_commit_every 1000 kv, fs1), sched);
                  (st1, _) = session_flush (session_puts (storage_writes kOperations) st0);
                  (st2, found) = count_gets (\<lambda>v. v \<noteq> None) (map present_key [0..<kOperations]) st1;
                  (((kv3, fs3), _), missing) = count_gets (\<lambda>v. v = None) (map missing_key [0..<kOperations]) st2;
                  csv = append_csv_result ''benchmarks/results.csv'' storage_header;
                  fs4 = csv (row ''Missing-key GET'' kOperations missing)
                          (csv (row ''Existing-key GET'' kOperations found)
                            (csv (row ''Sequential PUT'' kOperations kOperations) fs3))
              in (snd (kv_destroy (kv3, fs4)), 0,
                  storage_text report found missing))"

section \<open>The SSTable benchmark\<close>

definition kLookups :: nat where
  "kLookups = 1000000"

definition bench_sstable :: string where
  "bench_sstable = ''/tmp/sstable-benchmark.sst''"

definition bench_memtable :: "nat \<Rightarrow> memtable" where
  "bench_memtable n = foldl (\<lambda>mt i. memtable_put (present_key i) (word_of_nat (i + 1)) (key_value_of i) mt)
     memtable_init [0..<n]"

definition count_results :: "lookup_state \<Rightarrow> sstable_reader \<Rightarrow> (string \<times> u64) list \<Rightarrow> nat" where
  "count_results state rd reads = length (filter (\<lambda>(k, t). lr_state (reader_get_at rd k t) = state) reads)"

definition sstable_header :: string where
  "sstable_header = storage_header @ '',false_positive_rate''"

definition sstable_csv :: string where
  "sstable_csv = ''benchmarks/sstable_results.csv''"

text \<open>The warning on a CSV file that cannot be opened comes once per row.\<close>

definition sstable_text :: "(string \<Rightarrow> nat \<Rightarrow> string) \<Rightarrow> (nat \<Rightarrow> string) \<Rightarrow> bool \<Rightarrow> nat \<Rightarrow> nat \<Rightarrow> nat \<Rightarrow> string" where
  "sstable_text report rate no_csv false_positives hits misses =
     (let warning = (if no_csv then ''failed to open '' @ sstable_csv @ [NL] else [])
      in ''bloom_false_positives='' @ show_nat false_positives @ '' rate='' @ rate false_positives @ ''%'' @ [NL]
         @ [NL] @ ''SSTable Benchmark'' @ [NL] @ ''-----------------'' @ [NL]
         @ report ''SSTable Hit Lookup'' kLookups @ [NL] @ report ''SSTable Miss Lookup'' kLookups @ [NL]
         @ ''verified_hits='' @ show_nat hits @ [NL] @ ''verified_misses='' @ show_nat misses @ [NL]
         @ warning @ warning)"

definition sstable_benchmark ::
  "(string \<Rightarrow> nat \<Rightarrow> string) \<Rightarrow> (string \<Rightarrow> nat \<Rightarrow> nat \<Rightarrow> nat \<Rightarrow> string) \<Rightarrow> (nat \<Rightarrow> string) \<Rightarrow> fsys \<Rightarrow> fsys \<times> nat \<times> string" where
  "sstable_benchmark report row rate fs =
     (let (fs1, ok) = sst_write (fs_remove fs bench_sstable) bench_sstable (snapshot_entries (bench_memtable kLookups))
      in if \<not> ok then (fs1, 1, ''Failed to write SSTable'' @ [NL])
         else let reader = reader_new fs1 bench_sstable 4 (kLookups * 10) 7;
                  false_positives = length (filter (\<lambda>i. reader_possibly_contains reader (missing_key i)) [0..<kLookups]);
                  hits = count_results Value reader (map (\<lambda>i. (present_key i, word_of_nat (i + 1))) [0..<kLookups]);
                  misses = count_results NotFound reader
                    (map (\<lambda>i. (missing_key i, word_of_nat (kLookups + 100))) [0..<kLookups]);
                  csv = append_csv_result sstable_csv sstable_header
              in (csv (row ''sstable_get_miss'' kLookups misses false_positives)
                    (csv (row ''sstable_get_hit'' kLookups hits false_positives) fs1), 0,
                  sstable_text report rate (fs_deny fs1 sstable_csv) false_positives hits misses))"

section \<open>Lemmas\<close>

lemma count_gets_session:
  assumes "session_ok wpath (fst st)"
  shows "session_ok wpath (fst (fst (count_gets test ks st))) \<and> kvs_get (fst (fst (count_gets test ks st))) = kvs_get (fst st)
    \<and> snd (count_gets test ks st) = length (filter (\<lambda>k. test (kvs_get (fst st) k)) ks)"
  using assms
proof (induction ks arbitrary: st)
  case (Cons k ks)
  note t = flush_thread_ok [OF Cons.prems]
  from Cons.IH [OF conjunct1 [OF t]] t show ?case by (simp add: case_prod_beta Let_def)
qed simp

text \<open>Opening without a snapshot file and without a log gives an empty store.\<close>

lemma open_without_log:
  assumes "kv_open srt kv_init fs wpath = (kv, fs', True)" "fs_files fs snapshot_file = None" "fs_files fs wpath = None"
  shows "kv_get kv = Map.empty"
proof -
  let ?fs1 = "fs\<lparr>fs_files := (fs_files fs)(wpath \<mapsto> [])\<rparr>"
  let ?w = "wal_init\<lparr>wal_path := wpath, wal_open := True\<rparr>"
  have l: "load_from_file kv_init fs snapshot_file = (kv_init, False)" using assms(2) by (simp add: load_from_file_def)
  have d: "\<not> fs_deny fs wpath" using assms(1) l by (auto simp: kv_open_def kv_init_def wal_open_file_def)
  have w: "wal_open_file (kv_wal kv_init) fs wpath = (?w, ?fs1, True)"
    using d assms(3) by (simp add: wal_open_file_def kv_init_def wal_init_def fs_content_def)
  have r: "replay_into ap ?w ?fs1 st = (?w, st, 0, True)" for ap and st :: kv_store
    by (simp add: replay_into_def fs_content_def replay_loop.simps wal_next_def header_size_def wal_init_def)
  have "kv_map kv5 = kv_map kv4" if "maybe_compact_sstables srt kv4 fs2 = (kv5, fs3, b)" for kv4 kv5 fs2 fs3 b
    using maybe_compact_fields [OF that] by auto
  then have "kv_map kv = []" using assms(1) l w r
    by (auto simp: kv_open_def Let_def kv_init_def split: if_splits prod.splits)
  then show ?thesis by (simp add: kv_get_def fun_eq_iff)
qed

lemma storage_lookup: "map_of (rev (storage_writes n)) (present_key i) = (if i < n then Some (key_value_of i) else None)"
  by (induction n) (auto simp: storage_writes_def)

lemma sst_written: "sst_write fs path es = (fs', True) \<Longrightarrow> fs_files fs' path = Some (sst_format es)"
  by (auto dest: sst_write_ok)

definition bench_ops :: "nat \<Rightarrow> history" where
  "bench_ops n = map (\<lambda>i. (present_key i, \<lparr>ver_timestamp = word_of_nat (i + 1), ver_value = Some (key_value_of i)\<rparr>)) [0..<n]"

lemma bench_memtable_ops: "bench_memtable n = fold memtable_apply (bench_ops n) memtable_init"
  by (induction n) (simp_all add: bench_memtable_def bench_ops_def memtable_apply_def)

lemma bench_ops_hist:
  "hist_of (bench_ops n) (present_key i) =
    (if i < n then [\<lparr>ver_timestamp = word_of_nat (i + 1), ver_value = Some (key_value_of i)\<rparr>] else [])"
  "hist_of (bench_ops n) (missing_key i) = []"
  by (induction n) (auto simp: bench_ops_def hist_of_def less_Suc_eq)

lemma bench_table:
  assumes "n < 2 ^ 63"
  shows "table_ok (mt_entries (bench_memtable n)) \<and> vers (mt_entries (bench_memtable n)) k = hist_of (bench_ops n) k"
  unfolding bench_memtable_ops
proof (rule applied_table)
  have "(word_of_nat (i + 1) :: u64) < word_of_nat (j + 1)" if "i < j" "j < n" for i j
    using that assms by (simp only: word_less_nat_alt unat_of_nat) simp
  then show "sorted_wrt (<) (map (ver_timestamp \<circ> snd) (bench_ops n))"
    by (simp add: bench_ops_def sorted_wrt_iff_nth_less)
  have "NL \<notin> set (show_nat i)" for i using show_nat_no_space [of _ i] by (auto simp: is_space_def)
  then show "\<forall>(k, v) \<in> set (bench_ops n). key_ok k \<and> version_ok v"
    using show_nat_no_space by (auto simp: bench_ops_def present_key_def key_value_of_def key_ok_def version_ok_def value_ok_def is_space_def)
qed

section \<open>Properties\<close>

text \<open>
  The storage benchmark verifies the store: when there is no snapshot file and the store can be opened, the
  program prints that all 100000 keys it wrote were found and none of the 100000 others, on every disk, however
  the flush thread is scheduled.
\<close>

theorem storage_benchmark_verified:
  assumes "kv_open srt kv_init (fs_remove (fs_remove fs storage_wal) manifest_file) storage_wal = (kv, fs1, True)"
    and "fs_files fs snapshot_file = None"
  shows "\<exists>fs'. storage_benchmark srt report row sched fs = (fs', 0, storage_text report 100000 100000)"
proof -
  let ?st0 = "((set_group_commit_every 1000 kv, fs1), sched)" and ?n = kOperations
  have empty: "kv_get kv = Map.empty"
    by (rule open_without_log [OF assms(1)]) (use assms(2) in \<open>simp_all add: fs_remove_def snapshot_file_def storage_wal_def manifest_file_def\<close>)
  have s0: "session_ok storage_wal (fst ?st0) \<and> kvs_get (fst ?st0) = Map.empty"
    using session_opened [OF assms(1)] empty by (simp add: session_ok_def set_group_commit_every_def kvs_get_def kv_get_def fun_eq_iff)
  note s1 = session_puts_ok [OF conjunct1 [OF s0], of "storage_writes ?n"]
  note s2 = session_flush_ok [OF conjunct1 [OF s1]]
  let ?st1 = "fst (session_flush (session_puts (storage_writes ?n) ?st0))"
  have g: "kvs_get (fst ?st1) = map_of (rev (storage_writes ?n))" using s0 s1 s2 by simp
  note h = count_gets_session [OF conjunct1 [OF s2], of "\<lambda>v. v \<noteq> None" "map present_key [0..<?n]"]
  let ?st2 = "fst (count_gets (\<lambda>v. v \<noteq> None) (map present_key [0..<?n]) ?st1)"
  note m = count_gets_session [OF conjunct1 [OF h], of "\<lambda>v. v = None" "map missing_key [0..<?n]"]
  have "filter (\<lambda>i. \<exists>y. map_of (rev (storage_writes ?n)) (present_key i) = Some y) [0..<?n] = [0..<?n]"
    unfolding filter_id_conv by (simp add: storage_lookup)
  then have found: "snd (count_gets (\<lambda>v. v \<noteq> None) (map present_key [0..<?n]) ?st1) = 100000"
    using h g by (simp add: filter_map o_def kOperations_def)
  have "map_of (rev (storage_writes ?n)) (missing_key i) = None" for i
    by (auto simp: map_of_eq_None_iff storage_writes_def)
  then have missing: "snd (count_gets (\<lambda>v. v = None) (map missing_key [0..<?n]) ?st2) = 100000"
    using m h g by (simp add: filter_map o_def kOperations_def)
  show ?thesis
    using found missing assms(1) by (auto simp: storage_benchmark_def Let_def case_prod_beta)
qed

theorem storage_benchmark_verified_witness:
  "\<exists>fs'. storage_benchmark (sort_key ver_timestamp) (\<lambda>_ _. []) (\<lambda>_ _ _. []) [] fs_empty = (fs', 0, storage_text (\<lambda>_ _. []) 100000 100000)"
proof -
  have e: "fs_remove (fs_remove fs_empty storage_wal) manifest_file = fs_empty" by (simp add: fs_remove_def fs_empty_def)
  have "fresh_disk fs_empty storage_wal" by (rule fresh_disk_wal) (simp_all add: storage_wal_def)
  from open_fresh [OF this, of "sort_key ver_timestamp"] obtain kv fs1
    where "kv_open (sort_key ver_timestamp) kv_init fs_empty storage_wal = (kv, fs1, True)" by auto
  then show ?thesis by (intro storage_benchmark_verified [of _ _ kv fs1]) (simp_all only: e, simp add: fs_empty_def)
qed

text \<open>
  The SSTable benchmark verifies the reader: once the table of a million keys is written, the program prints a
  million hits and a million misses, whatever the Bloom filter lets through.
\<close>

theorem sstable_benchmark_verified:
  assumes "snd (sst_write (fs_remove fs bench_sstable) bench_sstable (snapshot_entries (bench_memtable kLookups)))"
  shows "\<exists>fs' no_csv fp. sstable_benchmark report row rate fs = (fs', 0, sstable_text report rate no_csv fp 1000000 1000000)"
proof -
  let ?n = kLookups
  obtain fs1 where w: "sst_write (fs_remove fs bench_sstable) bench_sstable (mt_entries (bench_memtable ?n)) = (fs1, True)"
    using assms by (metis prod.collapse snapshot_entries_def)
  let ?rd = "reader_new fs1 bench_sstable 4 (?n * 10) 7"
  have n: "?n < 2 ^ 63" by (simp add: kLookups_def)
  have f: "fs_files fs1 bench_sstable = Some (sst_format (mt_entries (bench_memtable ?n)))"
    by (rule sst_written [OF w])
  have get: "reader_get_at ?rd k t = result_of (visible (hist_of (bench_ops ?n) k) t)" for k t
    using reader_get_at_written [OF conjunct1 [OF bench_table [OF n]] f, of "?n * 10" 4 7 k t] bench_table [OF n, of k]
    by (simp add: kLookups_def)
  have hits: "count_results Value ?rd (map (\<lambda>i. (present_key i, word_of_nat (i + 1))) [0..<?n]) = ?n"
  proof -
    have "lr_state (reader_get_at ?rd (present_key i) (word_of_nat (i + 1))) = Value" if "i < ?n" for i
      using that by (simp add: get bench_ops_hist visible_def result_of_def found_value_def)
    then show ?thesis by (simp add: count_results_def filter_map o_def)
  qed
  have misses: "count_results NotFound ?rd (map (\<lambda>i. (missing_key i, word_of_nat (?n + 100))) [0..<?n]) = ?n"
    by (simp add: count_results_def filter_map o_def get bench_ops_hist result_of_def not_found_def)
  show ?thesis
    unfolding sstable_benchmark_def snapshot_entries_def w
    by (simp only: Let_def prod.case hits misses) (simp add: kLookups_def, blast)
qed

theorem sstable_benchmark_verified_witness:
  "\<exists>fs' no_csv fp. sstable_benchmark (\<lambda>_ _. []) (\<lambda>_ _ _ _. []) (\<lambda>_. []) fs_empty
     = (fs', 0, sstable_text (\<lambda>_ _. []) (\<lambda>_. []) no_csv fp 1000000 1000000)"
proof (rule sstable_benchmark_verified)
  have "fs_sound (fs_remove fs_empty bench_sstable)" by (simp add: fs_remove_def)
  then show "snd (sst_write (fs_remove fs_empty bench_sstable) bench_sstable (snapshot_entries (bench_memtable kLookups)))"
    by (simp add: sst_write_def fs_rules)
qed

end
