(* ===== verification/Demos.thy ===== *)
theory Demos
  imports Benchmarks
begin

text \<open>
  The demonstration programs for single components: \<^verbatim>\<open>src/bloom_filter_demo.cpp\<close>, \<^verbatim>\<open>src/sstable_demo.cpp\<close>,
  \<^verbatim>\<open>src/sstable_index_demo.cpp\<close>, \<^verbatim>\<open>src/compactor_demo.cpp\<close> and \<^verbatim>\<open>src/flush_worker_demo.cpp\<close>.  A program is a function from the
  disk to the disk, the exit status and the printed text; the theorems say what it prints.
\<close>

section \<open>Programs\<close>

definition bloom_filter_demo :: "nat \<times> string" where
  "bloom_filter_demo =
     (let inserted = [''alpha'', ''beta'', ''delta'', ''gamma''];
          filter = fold bloom_add inserted (bloom_new 1024 3);
          answer = (\<lambda>key. key @ '': '' @ (if possibly_contains filter key then ''1'' else ''0'') @ [NL])
      in (0, concat (map answer inserted) @ answer ''missing-key''))"

definition print_result :: "string \<Rightarrow> lookup_result \<Rightarrow> string" where
  "print_result label result = label @ '': ''
     @ (if lr_state result = Value then the (lr_value result)
        else if lr_state result = Tombstone then ''<deleted>'' else ''<not found>'') @ [NL]"

definition demo_memtable :: memtable where
  "demo_memtable = memtable_del ''beta'' 4 (memtable_put ''beta'' 3 ''three''
     (memtable_put ''alpha'' 2 ''two'' (memtable_put ''alpha'' 1 ''one'' memtable_init)))"

definition sstable_demo :: "fsys \<Rightarrow> fsys \<times> nat \<times> string" where
  "sstable_demo fs =
     (let (fs1, ok) = sst_write fs ''demo.sst'' (snapshot_entries demo_memtable)
      in if \<not> ok then (fs1, 1, ''failed to write SSTable'' @ [NL])
         else let reader = reader_new fs1 ''demo.sst'' 4 8192 4
              in (fs1, 0, ''wrote demo.sst'' @ [NL]
                   @ print_result ''alpha@1'' (reader_get_at reader ''alpha'' 1)
                   @ print_result ''alpha@2'' (reader_get_at reader ''alpha'' 2)
                   @ print_result ''beta@3'' (reader_get_at reader ''beta'' 3)
                   @ print_result ''beta@4'' (reader_get_at reader ''beta'' 4)))"

definition index_memtable :: memtable where
  "index_memtable = memtable_put ''omega'' 6 ''six'' (memtable_put ''gamma'' 5 ''five'' (memtable_put ''epsilon'' 4 ''four''
     (memtable_put ''delta'' 3 ''three'' (memtable_put ''beta'' 2 ''two'' (memtable_put ''alpha'' 1 ''one'' memtable_init)))))"

definition sstable_index_demo :: "fsys \<Rightarrow> fsys \<times> nat \<times> string" where
  "sstable_index_demo fs =
     (let path = ''/tmp/sstable-index-demo.sst'';
          (fs1, ok) = sst_write fs path (snapshot_entries index_memtable)
      in if \<not> ok then (fs1, 1, ''failed to write SSTable'' @ [NL])
         else let (index, built) = index_build fs1 path (index_new 2)
              in if \<not> built then (fs1, 1, ''failed to build SSTable index'' @ [NL])
                 else (fs1, 0, concat (map (\<lambda>(key, offset). key @ '' -> '' @ show_nat offset @ [NL]) (ix_entries index))))"

definition compactor_first :: memtable where
  "compactor_first = memtable_put ''beta'' 3 ''three'' (memtable_put ''alpha'' 2 ''two'' (memtable_put ''alpha'' 1 ''one'' memtable_init))"

definition compactor_second :: memtable where
  "compactor_second = memtable_put ''gamma'' 6 ''six'' (memtable_del ''beta'' 5 (memtable_put ''alpha'' 4 ''four'' memtable_init))"

definition compactor_demo :: "(version list \<Rightarrow> version list) \<Rightarrow> fsys \<Rightarrow> fsys \<times> nat \<times> string" where
  "compactor_demo srt fs =
     (let first_path = ''/tmp/compaction-0.sst''; second_path = ''/tmp/compaction-1.sst''; output_path = ''/tmp/compacted.sst'';
          (fs1, ok1) = sst_write fs first_path (snapshot_entries compactor_first)
      in if \<not> ok1 then (fs1, 1, [])
         else let (fs2, ok2) = sst_write fs1 second_path (snapshot_entries compactor_second)
              in if \<not> ok2 then (fs2, 1, [])
                 else let (fs3, ok3) = compact srt fs2 [first_path, second_path] output_path
                      in if \<not> ok3 then (fs3, 1, ''compaction failed'' @ [NL])
                         else let reader = reader_new fs3 output_path 4 8192 4
                              in (fs3, 0, print_result ''alpha@1'' (reader_get_at reader ''alpha'' 1)
                                    @ print_result ''alpha@2'' (reader_get_at reader ''alpha'' 2)
                                    @ print_result ''alpha@4'' (reader_get_at reader ''alpha'' 4)
                                    @ print_result ''beta@3'' (reader_get_at reader ''beta'' 3)
                                    @ print_result ''beta@5'' (reader_get_at reader ''beta'' 5)
                                    @ print_result ''gamma@6'' (reader_get_at reader ''gamma'' 6)))"

definition flush_worker_demo :: "fsys \<Rightarrow> fsys \<times> nat \<times> string" where
  "flush_worker_demo fs =
     (let manifest = ''/tmp/flush-worker-demo-MANIFEST'';
          (fw, queued) = enqueue (worker_start worker_init) ''/tmp/flush-worker-demo.sst'' manifest (fst (take_entries demo_memtable))
      in if \<not> queued then (fs, 1, ''failed to queue flush'' @ [NL])
         else let (fw', fs1) = worker_stop fw fs;
                  (fs2, _) = manifest_open fs1 manifest
              in (fs2, 0, ''Manifest contains '' @ show_nat (length (load_sstables fs2 manifest)) @ '' SSTables'' @ [NL]
                   @ ''flush worker stopped cleanly'' @ [NL]))"

section \<open>Lemmas\<close>

lemma bloom_bits_adds:
  "bloom_ok bf \<Longrightarrow> bloom_get_bit j (bf_bits (fold bloom_add ks bf)) \<longleftrightarrow>
     (\<exists>k \<in> set ks. \<exists>i < bf_hash_count bf. j = bloom_index bf k i) \<or> bloom_get_bit j (bf_bits bf)"
proof (induction ks arbitrary: bf)
  case (Cons k ks)
  have "bloom_get_bit j (bf_bits (bloom_add k bf)) \<longleftrightarrow> (\<exists>i < bf_hash_count bf. j = bloom_index bf k i) \<or> bloom_get_bit j (bf_bits bf)"
    using Cons.prems by (auto simp: bloom_add_def fold_set_bit bloom_index_bound)
  with Cons show ?case by auto
qed simp

lemma bloom_new_bits: "\<not> bloom_get_bit j (bf_bits (bloom_new n h))" if "j < n" "8 \<le> n" "n + 7 < 2 ^ 64"
  using that by (simp add: bloom_new_def bloom_get_bit_def)

lemma bloom_demo_indices:
  "map (bloom_index (bloom_new 1024 3) ''alpha'') [0, 1, 2] = [389, 248, 73]"
  "map (bloom_index (bloom_new 1024 3) ''beta'') [0, 1, 2] = [342, 972, 272]"
  "map (bloom_index (bloom_new 1024 3) ''delta'') [0, 1, 2] = [531, 145, 960]"
  "map (bloom_index (bloom_new 1024 3) ''gamma'') [0, 1, 2] = [348, 151, 927]"
  "bloom_index (bloom_new 1024 3) ''missing-key'' 0 = 189"
  by (simp_all add: bloom_index_def bloom_new_def hash_with_seed_def Let_def unat_numeral)

text \<open>A sorted list of versions stays as it is.\<close>

lemma sort_unique_id:
  assumes "std_sort srt" "ts_sorted vs"
  shows "std_unique (srt vs) = vs"
proof -
  let ?us = "std_unique (srt vs)"
  have "set ?us = set vs"
    using assms(2) by (intro std_sort.sort_unique_set [OF assms(1)]) (auto dest: ts_sorted_inject)
  then have m: "map ver_timestamp ?us = map ver_timestamp vs"
    using std_sort.sort_unique_sorted [OF assms(1), of vs] assms(2)
    by (intro sorted_distinct_set_unique) (auto simp: strict_sorted_iff)
  have "?us ! i = vs ! i" if "i < length vs" for i
  proof (rule ts_sorted_inject [OF assms(2)])
    have l: "length ?us = length vs" using m by (metis length_map)
    show "?us ! i \<in> set vs" using that l \<open>set ?us = set vs\<close> by (metis nth_mem)
    show "vs ! i \<in> set vs" using that by simp
    show "ver_timestamp (?us ! i) = ver_timestamp (vs ! i)" using m that l by (metis nth_map)
  qed
  then show ?thesis using m by (metis nth_equalityI length_map)
qed

section \<open>What they print\<close>

theorem bloom_filter_demo_output:
  "bloom_filter_demo = (0, ''alpha: 1'' @ [NL] @ ''beta: 1'' @ [NL] @ ''delta: 1'' @ [NL] @ ''gamma: 1'' @ [NL] @ ''missing-key: 0'' @ [NL])"
proof -
  let ?ks = "[''alpha'', ''beta'', ''delta'', ''gamma'']" and ?bf = "bloom_new 1024 3"
  have ok: "bloom_ok ?bf" by (rule bloom_ok_new) simp
  have yes: "possibly_contains (fold bloom_add ?ks ?bf) k" if "k \<in> set ?ks" for k
    using bloom_no_false_negative [OF ok] that by blast
  have "\<not> bloom_get_bit 189 (bf_bits (fold bloom_add ?ks ?bf))"
  proof -
    have three: "i = 0 \<or> i = 1 \<or> i = 2" if "i < bf_hash_count ?bf" for i using that by (auto simp: bloom_new_def)
    have "189 \<noteq> bloom_index ?bf k i" if "k \<in> set ?ks" "i < bf_hash_count ?bf" for k i
      using that(1) three [OF that(2)] bloom_demo_indices by auto
    moreover have "\<not> bloom_get_bit 189 (bf_bits ?bf)" by (rule bloom_new_bits) simp_all
    ultimately show ?thesis by (auto simp only: bloom_bits_adds [OF ok])
  qed
  then have "\<not> possibly_contains (fold bloom_add ?ks ?bf) ''missing-key''"
    using bloom_demo_indices(5) by (auto simp: possibly_contains_def bloom_probe_iff bloom_new_def intro!: bexI [of _ 0])
  then show ?thesis using yes by (simp only: bloom_filter_demo_def Let_def) simp
qed

lemma demo_entries:
  "mt_entries demo_memtable = [(''alpha'', [\<lparr>ver_timestamp = 1, ver_value = Some ''one''\<rparr>, \<lparr>ver_timestamp = 2, ver_value = Some ''two''\<rparr>]),
     (''beta'', [\<lparr>ver_timestamp = 3, ver_value = Some ''three''\<rparr>, \<lparr>ver_timestamp = 4, ver_value = None\<rparr>])]"
  by code_simp

lemma index_entries:
  "mt_entries index_memtable = [(''alpha'', [\<lparr>ver_timestamp = 1, ver_value = Some ''one''\<rparr>]),
     (''beta'', [\<lparr>ver_timestamp = 2, ver_value = Some ''two''\<rparr>]), (''delta'', [\<lparr>ver_timestamp = 3, ver_value = Some ''three''\<rparr>]),
     (''epsilon'', [\<lparr>ver_timestamp = 4, ver_value = Some ''four''\<rparr>]), (''gamma'', [\<lparr>ver_timestamp = 5, ver_value = Some ''five''\<rparr>]),
     (''omega'', [\<lparr>ver_timestamp = 6, ver_value = Some ''six''\<rparr>])]"
  by code_simp

lemma compactor_entries:
  "mt_entries compactor_first = [(''alpha'', [\<lparr>ver_timestamp = 1, ver_value = Some ''one''\<rparr>, \<lparr>ver_timestamp = 2, ver_value = Some ''two''\<rparr>]),
     (''beta'', [\<lparr>ver_timestamp = 3, ver_value = Some ''three''\<rparr>])]"
  "mt_entries compactor_second = [(''alpha'', [\<lparr>ver_timestamp = 4, ver_value = Some ''four''\<rparr>]),
     (''beta'', [\<lparr>ver_timestamp = 5, ver_value = None\<rparr>]), (''gamma'', [\<lparr>ver_timestamp = 6, ver_value = Some ''six''\<rparr>])]"
  by code_simp+

lemma demo_tables: "table_ok (mt_entries demo_memtable)" "table_ok (mt_entries compactor_first)" "table_ok (mt_entries compactor_second)"
  by (simp_all add: demo_entries compactor_entries table_ok_def key_ok_def version_ok_def value_ok_def is_space_def)

lemmas lookup_eval = visible_def result_of_def found_value_def tombstone_def not_found_def print_result_def vers_def word_le_nat_alt

theorem sstable_demo_output:
  "snd (sstable_demo fs) =
     (if snd (sst_write fs ''demo.sst'' (mt_entries demo_memtable))
      then (0, ''wrote demo.sst'' @ [NL] @ ''alpha@1: one'' @ [NL] @ ''alpha@2: two'' @ [NL] @ ''beta@3: three'' @ [NL] @ ''beta@4: <deleted>'' @ [NL])
      else (1, ''failed to write SSTable'' @ [NL]))"
proof -
  obtain fs1 ok where w: "sst_write fs ''demo.sst'' (mt_entries demo_memtable) = (fs1, ok)" by fastforce
  show ?thesis
  proof (cases ok)
    case True
    then have "fs_files fs1 ''demo.sst'' = Some (sst_format (mt_entries demo_memtable))" using w by (intro sst_written) simp
    then have get: "reader_get_at (reader_new fs1 ''demo.sst'' 4 8192 4) k t = result_of (visible (vers (mt_entries demo_memtable) k) t)" for k t
      by (rule reader_get_at_written [OF demo_tables(1)]) simp
    show ?thesis by (simp add: sstable_demo_def snapshot_entries_def w True get) (simp add: demo_entries lookup_eval)
  qed (simp add: sstable_demo_def snapshot_entries_def w)
qed

theorem sstable_index_demo_output:
  "snd (sstable_index_demo fs) =
     (if snd (sst_write fs ''/tmp/sstable-index-demo.sst'' (mt_entries index_memtable))
      then (0, ''alpha -> 0'' @ [NL] @ ''delta -> 27'' @ [NL] @ ''gamma -> 60'' @ [NL])
      else (1, ''failed to write SSTable'' @ [NL]))"
proof -
  obtain fs1 ok where w: "sst_write fs ''/tmp/sstable-index-demo.sst'' (mt_entries index_memtable) = (fs1, ok)" by fastforce
  show ?thesis
  proof (cases ok)
    case True
    have f: "fs_files fs1 ''/tmp/sstable-index-demo.sst'' = Some (sst_format (mt_entries index_memtable))"
      using w True by (intro sst_written) simp
    have ix: "index_loop 2 (getlines_at 0 (sst_format (mt_entries index_memtable))) 0 [] 0 [] = [(''alpha'', 0), (''delta'', 27), (''gamma'', 60)]"
      by code_simp
    show ?thesis
      by (simp add: sstable_index_demo_def snapshot_entries_def w True index_build_def f index_new_def ix)
        (simp add: show_nat.simps digit_char_def char_of_def bit_Suc_0_iff)
  qed (simp add: sstable_index_demo_def snapshot_entries_def w)
qed

text \<open>The compactor's answers do not depend on which sorting function the library has.\<close>

theorem compactor_demo_output:
  assumes "std_sort srt" "fs_sound fs"
  shows "snd (compactor_demo srt fs) = (0, ''alpha@1: one'' @ [NL] @ ''alpha@2: two'' @ [NL] @ ''alpha@4: four'' @ [NL]
    @ ''beta@3: three'' @ [NL] @ ''beta@5: <deleted>'' @ [NL] @ ''gamma@6: six'' @ [NL])"
proof -
  let ?p = "''/tmp/compaction-0.sst''" and ?q = "''/tmp/compaction-1.sst''" and ?o = "''/tmp/compacted.sst''"
  let ?a = "mt_entries compactor_first" and ?b = "mt_entries compactor_second"
  let ?m = "merge_tables srt [?a, ?b]"
  define fs1 where "fs1 = fs\<lparr>fs_files := (fs_files fs)(?p \<mapsto> sst_format ?a)\<rparr>"
  define fs2 where "fs2 = fs1\<lparr>fs_files := (fs_files fs1)(?q \<mapsto> sst_format ?b)\<rparr>"
  have sound: "fs_sound fs1" "fs_sound fs2" using assms(2) by (simp_all add: fs1_def fs2_def)
  have w1: "sst_write fs ?p ?a = (fs1, True)" by (simp add: sst_write_def fs_rules assms(2) fs1_def)
  have w2: "sst_write fs1 ?q ?b = (fs2, True)" by (simp add: sst_write_def fs_rules sound(1) fs2_def)
  have files: "list_all2 (\<lambda>path es. table_ok es \<and> fs_files fs2 path = Some (sst_format es)) [?p, ?q] [?a, ?b]"
    using demo_tables by (simp add: fs2_def fs1_def)
  obtain fs3 where w3: "compact srt fs2 [?p, ?q] ?o = (fs3, True)" "sst_write fs2 ?o ?m = (fs3, True)"
    using std_sort.compact_written [OF assms(1) _ files, of ?o] by (simp add: sst_write_def fs_rules sound(2))
  have ok: "table_ok ?m" using demo_tables by (intro std_sort.merge_tables_ok [OF assms(1)]) simp
  have v: "vers ?m k = std_unique (srt (vers ?a k @ vers ?b k))" for k
    using demo_tables by (subst std_sort.vers_merge_tables [OF assms(1)]) (simp_all add: table_ok_def)
  have m: "vers ?m ''alpha'' = vers ?a ''alpha'' @ vers ?b ''alpha''" "vers ?m ''beta'' = vers ?a ''beta'' @ vers ?b ''beta''"
    "vers ?m ''gamma'' = vers ?a ''gamma'' @ vers ?b ''gamma''"
    unfolding v by (rule sort_unique_id [OF assms(1)]; simp add: compactor_entries vers_def)+
  have "reader_get_at (reader_new fs3 ?o 4 8192 4) k t = result_of (visible (vers ?m k) t)" for k t
    by (rule reader_get_at_written [OF ok sst_written [OF w3(2)]]) simp
  note get = this
  show ?thesis
    by (simp add: compactor_demo_def snapshot_entries_def w1 w2 w3(1) get m) (simp add: compactor_entries lookup_eval)
qed

theorem compactor_demo_output_witness:
  "snd (compactor_demo (sort_key ver_timestamp) fs_empty) = (0, ''alpha@1: one'' @ [NL] @ ''alpha@2: two'' @ [NL] @ ''alpha@4: four'' @ [NL]
    @ ''beta@3: three'' @ [NL] @ ''beta@5: <deleted>'' @ [NL] @ ''gamma@6: six'' @ [NL])"
  by (rule compactor_demo_output [OF stable_sort.std_sort_axioms]) simp

text \<open>The manifest names the table once, however often the program is run.\<close>

theorem flush_worker_demo_output:
  assumes "fs_sound fs" "fs_content fs ''/tmp/flush-worker-demo-MANIFEST'' \<in> {[], ''/tmp/flush-worker-demo.sst'' @ [NL]}"
  shows "snd (flush_worker_demo fs) = (0, ''Manifest contains 1 SSTables'' @ [NL] @ ''flush worker stopped cleanly'' @ [NL])"
proof -
  let ?m = "''/tmp/flush-worker-demo-MANIFEST''" and ?p = "''/tmp/flush-worker-demo.sst''"
  let ?es = "mt_entries demo_memtable"
  let ?t = "\<lparr>ft_sstable_path = ?p, ft_manifest_path = ?m, ft_entries = ?es\<rparr>"
  let ?fw = "\<lparr>fw_tasks = [?t], fw_completions = [], fw_started = True, fw_stopping = False, fw_pc = WWait\<rparr>"
  define fs1 where "fs1 = fs\<lparr>fs_files := (fs_files fs)(?p \<mapsto> sst_format ?es)\<rparr>"
  define fs2 where "fs2 = fs1\<lparr>fs_files := (fs_files fs1)(?m \<mapsto> fs_content fs1 ?m)\<rparr>"
  define fs3 where "fs3 = fst (append_sstable fs2 ?m ?p)"
  have sound: "fs_sound fs1" "fs_sound fs2" using assms(1) by (simp_all add: fs1_def fs2_def)
  have c: "fs_content fs2 ?m \<in> {[], ?p @ [NL]}" using assms(2) by (simp add: fs2_def fs1_def fs_content_def)
  have nl: "NL \<notin> set ?p" by simp
  have l2: "load_sstables fs2 ?m = (if fs_content fs2 ?m = [] then [] else [?p])"
    using c getlines_line [OF nl, of "[]"] by (auto simp: load_sstables_def fs2_def fs_content_def)
  have a: "append_sstable fs2 ?m ?p = (fs3, True)"
    unfolding fs3_def by (simp add: append_sstable_def fs_rules sound(2))
  have l3: "fs_sound fs3 \<and> fs_content fs3 ?m = ?p @ [NL]"
    using c l2 sound(2) by (auto simp: fs3_def append_sstable_def fs_rules fs_content_def)
  have steps: "sst_write fs ?p ?es = (fs1, True)" "manifest_open fs1 ?m = (fs2, True)"
    by (simp_all add: sst_write_def manifest_open_def fs_rules assms(1) sound(1) fs1_def fs2_def)
  have stop: "snd (worker_stop ?fw fs) = fs3"
    by (simp add: worker_stop_def worker_join.simps worker_step_def steps a case_prod_beta)
  have "load_sstables (fst (manifest_open fs3 ?m)) ?m = [?p]"
    using l3 getlines_line [OF nl, of "[]"] by (simp add: manifest_open_def fs_rules load_sstables_def)
  then show ?thesis using stop
    by (simp add: flush_worker_demo_def enqueue_def worker_start_def worker_init_def take_entries_def case_prod_beta
        show_nat.simps digit_char_def char_of_def bit_Suc_0_iff)
qed

theorem flush_worker_demo_output_witness:
  "snd (flush_worker_demo fs_empty) = (0, ''Manifest contains 1 SSTables'' @ [NL] @ ''flush worker stopped cleanly'' @ [NL])"
  by (rule flush_worker_demo_output) (simp, simp add: fs_content_def fs_empty_def)

end
