(* ===== verification/Kv_Checkpoint.thy ===== *)
theory Kv_Checkpoint
  imports Kv_Recovery
begin

text \<open>
  Checkpoints (\<^verbatim>\<open>KVStore::checkpoint\<close> in \<^verbatim>\<open>src/kv_store.cpp\<close>): the active table is saved to the snapshot file and the log
  is started anew.  What a store opened on the result knows, and what it has lost.
\<close>

section \<open>The files after a checkpoint\<close>

lemma checkpoint_files:
  assumes "fs_sound fs" "kv_opened kv" "wpath \<noteq> snapshot_file" "checkpoint kv fs snapshot_file wpath = (kv', fs', ok)"
  shows "ok \<and> fs_sound fs' \<and> fs_files fs' snapshot_file = Some (text_of (rows_of (mt_entries (kv_memtable kv))))
    \<and> fs_content fs' wpath = [] \<and> (\<forall>p. p \<noteq> snapshot_file \<longrightarrow> p \<noteq> wpath \<longrightarrow> fs_files fs' p = fs_files fs p)"
proof -
  let ?fs1 = "fs\<lparr>fs_files := (fs_files fs)(snapshot_file \<mapsto> text_of (rows_of (mt_entries (kv_memtable kv))))\<rparr>"
  have "save_to_file kv fs snapshot_file = (?fs1, True)"
    using assms(1) by (simp add: save_to_file_def snapshot_entries_def fs_rules sst_format_rows text_of_def)
  then show ?thesis
    using assms by (auto simp: checkpoint_def wal_open_file_def fs_remove_def fs_sound_def fs_content_def Let_def)
qed

section \<open>The table read back\<close>

lemma fold_restore_keys:
  "fst ` set (mt_entries (kv_memtable (fold restore ops kv))) = fst ` set (mt_entries (kv_memtable kv)) \<union> fst ` set ops"
proof (induction ops arbitrary: kv)
  case (Cons op ops)
  obtain k v where op: "op = (k, v)" by fastforce
  from Cons show ?case by (simp add: op restore_effect keys_entries_push)
qed simp

lemma restored_table:
  assumes "table_ok es" "mt_entries (kv_memtable kv) = []"
  defines "es' \<equiv> mt_entries (kv_memtable (fold restore (rows_of es) kv))"
  shows "table_ok es'" and "vers es' k = vers es k"
proof -
  have sk: "sorted_keys es" using assms(1) by (simp add: table_ok_def)
  have v: "vers es' k = vers es k" "sorted_keys es'" for k
    using fold_restore_vers [OF assms(2), of "rows_of es" k] filter_rows [OF sk, of k]
    by (simp_all add: es'_def hist_of_def o_def)
  have "key_ok k" if "k \<in> fst ` set es'" for k
  proof -
    have "k \<in> fst ` set (rows_of es)" using that fold_restore_keys [of "rows_of es" kv] assms(2) by (simp add: es'_def)
    then show ?thesis using table_ok_rows [OF assms(1)] by (auto simp: row_ok_def)
  qed
  moreover have "vs = vers es k" if "(k, vs) \<in> set es'" for k vs
    using map_of_table [OF v(2) that] v(1) by simp
  ultimately show "table_ok es'"
    using v(2) vers_ts_sorted [OF assms(1)] table_ok_versions [OF assms(1)] by (force simp: table_ok_def)
  show "vers es' k = vers es k" by (rule v(1))
qed

lemma holds_same_top:
  assumes "holds H (tabs @ [es])" "table_ok es'" "\<And>k. vers es' k = vers es k"
  shows "holds H (tabs @ [es'])"
  using assms by (simp add: holds_def)

section \<open>Operations that do not read the map\<close>

lemma maybe_compact_frame:
  assumes "maybe_compact_sstables srt kv fs = (kv', fs', ok)"
  shows "maybe_compact_sstables srt (kv\<lparr>kv_map := m, kv_seq := s\<rparr>) fs = (kv'\<lparr>kv_map := m, kv_seq := s\<rparr>, fs', ok)"
  using assms by (auto simp: maybe_compact_sstables_def Let_def split: if_splits option.splits prod.splits)

lemma kv_get_at_frame:
  assumes "fw_completions (kv_worker kv) = []"
  shows "snd (snd (kv_get_at srt (kv\<lparr>kv_map := m, kv_seq := s\<rparr>) fs key t)) = snd (snd (kv_get_at srt kv fs key t))"
  using assms by (simp add: kv_get_at_def drain_completed_flushes_def drain_loop_none Let_def split: option.splits)

section \<open>Opening after a checkpoint\<close>

lemma last_newest:
  assumes "ts_sorted l" "x \<in> set l" "\<forall>v\<in>set l. ver_timestamp v \<le> ver_timestamp x"
  shows "last l = x"
proof -
  obtain a b where l: "l = a @ x # b" using assms(2) by (auto simp: in_set_conv_decomp)
  have "b = []"
  proof (rule ccontr)
    assume "b \<noteq> []"
    then have "hd b \<in> set l" "ver_timestamp x < ver_timestamp (hd b)" using assms(1) by (auto simp: l sorted_wrt_append)
    with assms(3) show False by auto
  qed
  then show ?thesis by (simp add: l)
qed

text \<open>The top table has the newest version of each of its keys.\<close>

lemma top_is_latest:
  assumes "holds H (tabs @ [es])" "hist_ok H seq" "vers es k \<noteq> []"
  shows "ver_value (last (vers es k)) = latest H k"
proof -
  have h: "layered (map (\<lambda>es. vers es k) tabs @ [vers es k])"
    "(\<Union>es\<in>set (tabs @ [es]). set (vers es k)) = set (hist_of H k)"
    using assms(1) by (auto simp: holds_def set_hist_of)
  have srt: "ts_sorted (hist_of H k)" "ts_sorted (vers es k)"
    using assms(2) ts_sorted_hist_of h(1) by (auto simp: hist_ok_def layered_def)
  let ?x = "last (vers es k)"
  have x: "?x \<in> set (vers es k)" using assms(3) by simp
  have top: "ver_timestamp v \<le> ver_timestamp ?x" if "v \<in> set (vers es k)" for v
  proof -
    from that have "v = ?x \<or> v \<in> set (butlast (vers es k))" by (metis append_butlast_last_id in_set_butlastD assms(3) in_set_conv_decomp Un_iff empty_iff insert_iff list.set set_append)
    moreover have "ts_sorted (butlast (vers es k) @ [?x])" using srt(2) assms(3) by simp
    ultimately show ?thesis by (auto simp: sorted_wrt_append less_imp_le)
  qed
  have "ver_timestamp v \<le> ver_timestamp ?x" if "v \<in> set (hist_of H k)" for v
  proof -
    from that h(2) obtain e where e: "e \<in> set (tabs @ [es])" "v \<in> set (vers e k)" by blast
    show ?thesis
    proof (cases "v \<in> set (vers es k)")
      case False
      with e have "e \<in> set tabs" by auto
      then have "older (vers e k) (vers es k)" using h(1) by (auto simp: layered_def sorted_wrt_append)
      with False e(2) x show ?thesis by (auto simp: older_def less_imp_le)
    qed (rule top)
  qed
  moreover have "?x \<in> set (hist_of H k)" using h(2) x by auto
  ultimately have "last (hist_of H k) = ?x" using last_newest [OF srt(1)] by blast
  then show ?thesis using \<open>?x \<in> set (hist_of H k)\<close> by (auto simp: latest_def)
qed

text \<open>Opening with an empty log, over tables that together with what the snapshot file gave hold a history.\<close>

lemma open_over_tables:
  assumes srt: "std_sort srt" and sound: "fs_sound fs" and snap: "load_from_file kv_init fs snapshot_file = (kv1, loaded)"
    and log: "fs_content fs wpath = []" "\<not> private_path wpath"
    and files: "list_all2 (\<lambda>p es. fs_files fs p = Some (sst_format es)) (load_sstables fs manifest_file) tabs"
    and names: "distinct (load_sstables fs manifest_file)" "\<forall>p\<in>set (load_sstables fs manifest_file). store_path p"
    and man: "manifest_lists fs manifest_file (load_sstables fs manifest_file)"
    and ids: "length (load_sstables fs manifest_file) < kCompactionTrigger
      \<or> unat (max_sstable_id (load_sstables fs manifest_file)) + length (load_sstables fs manifest_file) + 2 < 2 ^ 64"
    and data: "holds H (tabs @ [mt_entries (kv_memtable kv1)])" "hist_ok H seq"
    and m: "distinct (map fst m)" "\<forall>k. map_of m k = latest H k"
    and run: "kv_open srt kv_init fs wpath = (kv', fs', ok)"
  shows "ok \<and> (\<forall>key t. snd (snd (kv_get_at srt kv' fs' key t)) = value_at H key t)
    \<and> (\<forall>key. kv_get kv' key = kv_get kv1 key) \<and> kv_seq kv' = 0"
proof -
  let ?P = "load_sstables fs manifest_file"
  obtain w fs2 kv4 kv5 b where o: "maybe_compact_sstables srt kv4 fs2 = (kv5, fs', b)" ok
    "kv4 = (fold restore [] (kv1\<lparr>kv_wal := wal_init\<lparr>wal_path := wpath, wal_open := True,
         wal_pos := length (fs_content fs wpath)\<rparr>\<rparr>))\<lparr>kv_wal := w, kv_seq := last_seq [], kv_opened := True,
         kv_manifest := manifest_file, kv_paths := ?P, kv_next_id := max_sstable_id ?P\<rparr>"
    "kv' = kv5\<lparr>kv_worker := worker_start (kv_worker kv5), kv_next_id := word_of_nat (length (kv_paths kv5))\<rparr>"
    "fs_sound fs2" "fs_content fs2 = fs_content fs" "\<forall>p. p \<noteq> wpath \<longrightarrow> p \<noteq> manifest_file \<longrightarrow> fs_files fs2 p = fs_files fs p"
    using open_recovers [OF sound snap _ _ run, of "[]"] log(1) by auto
  let ?kv4 = "kv4\<lparr>kv_map := m, kv_seq := seq\<rparr>" and ?kv5 = "kv5\<lparr>kv_map := m, kv_seq := seq\<rparr>"
  have kv1: "kv_worker kv1 = worker_init" "kv_immutable kv1 = None"
    using load_from_file_fields [OF snap] by (simp_all add: kv_init_def)
  have "data_inv H tabs [] ?kv4" using data m by (simp add: data_inv_def o(3))
  moreover have "files_inv tabs ?kv4 fs2"
  proof -
    have "fs_files fs2 p = fs_files fs p" if "p \<in> set ?P" for p
      using that names(2) o(7) log(2) private_store_path [of p] store_path_ok(2) [of p] by auto
    with files show ?thesis by (auto simp: files_inv_def o(3) elim!: list.rel_mono_strong)
  qed
  ultimately have "tables_inv H tabs ?kv4 fs2"
    using names man o(5,6) by (simp add: tables_inv_def o(3) manifest_lists_def)
  have kv': "kv'\<lparr>kv_map := m, kv_seq := seq\<rparr> =
      ?kv5\<lparr>kv_worker := worker_start (kv_worker ?kv5), kv_next_id := word_of_nat (length (kv_paths kv5))\<rparr>"
    by (cases kv5) (simp add: o(4))
  from reopened_reads [OF srt \<open>tables_inv H tabs ?kv4 fs2\<close> _ _ _ maybe_compact_frame [OF o(1)]] ids
  have "snd (snd (kv_get_at srt (kv'\<lparr>kv_map := m, kv_seq := seq\<rparr>) fs' key t)) = value_at H key t" for key t
    unfolding kv' by (simp add: o(3) kv1)
  moreover have kv5: "kv_worker kv5 = worker_init" "kv_map kv5 = kv_map kv1" "kv_seq kv5 = 0"
    using maybe_compact_fields [OF o(1)] by (auto simp: o(3) kv1 last_seq_def)
  ultimately show ?thesis using o(2) kv_get_at_frame [of kv'] by (simp add: o(4) kv_get_def worker_start_def worker_init_def)
qed

lemma open_checkpointed:
  assumes srt: "std_sort srt" and sound: "fs_sound fs" and snap: "fs_files fs snapshot_file = Some (text_of (rows_of es))"
    and log: "fs_content fs wpath = []" "\<not> private_path wpath"
    and files: "list_all2 (\<lambda>p es. fs_files fs p = Some (sst_format es)) (load_sstables fs manifest_file) tabs"
    and names: "distinct (load_sstables fs manifest_file)" "\<forall>p\<in>set (load_sstables fs manifest_file). store_path p"
    and man: "manifest_lists fs manifest_file (load_sstables fs manifest_file)"
    and ids: "unat (max_sstable_id (load_sstables fs manifest_file)) + length (load_sstables fs manifest_file) + 2 < 2 ^ 64"
    and data: "holds H (tabs @ [es])" "hist_ok H seq"
    and m: "distinct (map fst m)" "\<forall>k. map_of m k = latest H k"
    and run: "kv_open srt kv_init fs wpath = (kv', fs', ok)"
  shows "ok \<and> (\<forall>key t. snd (snd (kv_get_at srt kv' fs' key t)) = value_at H key t)
    \<and> (\<forall>key. kv_get kv' key = latest (rows_of es) key)"
proof -
  let ?kv0 = "kv_init\<lparr>kv_map := [], kv_memtable := memtable_clear (kv_memtable kv_init)\<rparr>"
  have es: "table_ok es" using data(1) by (simp add: holds_def)
  have "holds H (tabs @ [mt_entries (kv_memtable (fold restore (rows_of es) ?kv0))])"
    using restored_table [OF es, of ?kv0] by (intro holds_same_top [OF data(1)]) (auto simp: memtable_clear_def)
  then have h: "holds H (tabs @ [mt_entries (kv_memtable ((fold restore (rows_of es) ?kv0)
      \<lparr>kv_seq := fold (\<lambda>(k, v) m. max m (ver_timestamp v)) (rows_of es) (kv_seq kv_init)\<rparr>))])" by simp
  show ?thesis
    using open_over_tables [OF srt sound load_table [OF snap es] log files names man disjI2 [OF ids] h data(2) m run]
      fold_restore_map [of ?kv0 "rows_of es"] by (simp add: kv_get_def)
qed

section \<open>Properties\<close>

text \<open>
  C29. A checkpoint can be recovered from: with no flush under way, \<^verbatim>\<open>checkpoint\<close> succeeds, opening succeeds on the
  files it leaves, and every \<^verbatim>\<open>get_at\<close> of the reopened store answers from the whole history, including writes that
  were only in the log buffer.  \<^verbatim>\<open>get\<close> knows the keys of the active table, which are all keys when no table has been
  flushed; a key whose versions are all in flushed tables is missing.
\<close>

theorem checkpoint_recovers:
  assumes "std_sort srt" "kv_run srt wpath H kv fs" "kv_immutable kv = None"
    and "unat (max_sstable_id (kv_paths kv)) + length (kv_paths kv) + 2 < 2 ^ 64"
    and "checkpoint kv fs snapshot_file wpath = (kv1, fs1, ok)" "kv_open srt kv_init fs1 wpath = (kv', fs', ok')"
  shows "ok \<and> ok' \<and> (\<forall>key t. snd (snd (kv_get_at srt kv' fs' key t)) = value_at H key t)
    \<and> (\<forall>key. kv_get kv' key = (if vers (mt_entries (kv_memtable kv)) key = [] then None else latest H key))
    \<and> (kv_paths kv = [] \<longrightarrow> (\<forall>key. kv_get kv' key = latest H key))"
proof -
  let ?es = "mt_entries (kv_memtable kv)"
  obtain tabs fl F B where i: "kv_inv H tabs fl kv fs" "log_inv wpath F B kv fs" using kv_run_inv [OF assms(1,2)] by blast
  have fl: "fl = []" "load_sstables fs manifest_file = kv_paths kv"
    using i(1) assms(3) by (auto simp: kv_inv_def flight_inv_def)
  have d: "holds H (tabs @ [?es])" "hist_ok H (kv_seq kv)" "distinct (map fst (kv_map kv))" "\<forall>k. map_of (kv_map kv) k = latest H k"
    using i(1) fl(1) by (auto simp: kv_inv_def data_inv_def)
  have w: "\<not> private_path wpath" "wpath \<noteq> snapshot_file" "kv_opened kv" using i by (auto simp: log_inv_def kv_inv_def thread_inv_def)
  have "ok \<and> fs_sound fs1 \<and> fs_files fs1 snapshot_file = Some (text_of (rows_of ?es)) \<and> fs_content fs1 wpath = []
      \<and> (\<forall>p. p \<noteq> snapshot_file \<longrightarrow> p \<noteq> wpath \<longrightarrow> fs_files fs1 p = fs_files fs p)"
    by (rule checkpoint_files [OF kv_inv_sound [OF i(1)] w(3,2) assms(5)])
  then have c: "ok" "fs_sound fs1" "fs_files fs1 snapshot_file = Some (text_of (rows_of ?es))" "fs_content fs1 wpath = []"
    "\<forall>p. p \<noteq> snapshot_file \<longrightarrow> p \<noteq> wpath \<longrightarrow> fs_files fs1 p = fs_files fs p"
    by simp_all
  have priv: "fs_files fs1 p = fs_files fs p" if "private_path p" for p
    using c(5) that w(1) not_private_snapshot by metis
  obtain T rest where T: "list_all2 (\<lambda>p es. fs_files fs p = Some (sst_format es)) (kv_paths kv) T"
    "distinct (kv_paths kv)" "\<forall>p\<in>set (kv_paths kv). store_path p" "manifest_lists fs manifest_file (kv_paths kv)"
    using manifest_tables [OF i(1)] by (auto simp: fl(2))
  have P: "load_sstables fs1 manifest_file = kv_paths kv" "manifest_lists fs1 manifest_file (kv_paths kv)"
    using T(4) priv [of manifest_file] load_listed by (simp_all add: manifest_lists_def fs_content_def)
  have f: "list_all2 (\<lambda>p es. fs_files fs1 p = Some (sst_format es)) (kv_paths kv) tabs"
    using i(1) priv T(3) private_store_path by (auto simp: kv_inv_def files_inv_def elim!: list.rel_mono_strong)
  note r = open_checkpointed [OF assms(1) c(2-4) w(1) _ _ _ _ _ d assms(6), unfolded P(1), OF f T(2,3) P(2) assms(4)]
  have rows: "hist_of (rows_of ?es) key = vers ?es key" for key
    using filter_rows [of ?es key] d(1) by (simp add: hist_of_def holds_def table_ok_def o_def)
  have g: "kv_get kv' key = (if vers ?es key = [] then None else latest H key)" for key
    using r rows top_is_latest [OF d(1,2), of key] by (simp add: latest_def)
  moreover have "latest H key = None" if "kv_paths kv = []" "vers ?es key = []" for key
  proof -
    have "tabs = []" using f that(1) by simp
    with d(1) have "set (vers ?es key) = {v. (key, v) \<in> set H}" by (simp add: holds_def)
    then have "set (hist_of H key) = {}" using that(2) by (simp add: set_hist_of)
    then show ?thesis by (simp add: latest_def)
  qed
  ultimately show ?thesis using c(1) r by simp
qed

theorem checkpoint_recovers_witness:
  "\<exists>kv fs kv1 fs1 kv' fs'. kv_run (sort_key ver_timestamp) ''w'' example_history kv fs
     \<and> checkpoint kv fs snapshot_file ''w'' = (kv1, fs1, True)
     \<and> kv_open (sort_key ver_timestamp) kv_init fs1 ''w'' = (kv', fs', True)
     \<and> kv_get kv' ''a'' = Some ''x'' \<and> snd (snd (kv_get_at (sort_key ver_timestamp) kv' fs' ''a'' 7)) = Some ''x''"
proof -
  let ?srt = "sort_key ver_timestamp"
  obtain kv fs where r: "kv_run ?srt ''w'' example_history kv fs" "in_work (kv_worker kv) = []"
    "fw_completions (kv_worker kv) = []" "kv_paths kv = []"
    using example_run by blast
  have im: "kv_immutable kv = None"
    using kv_run_inv [OF stable_sort.std_sort_axioms r(1)] r(2,3) by (auto simp: kv_inv_def flight_inv_def)
  obtain kv1 fs1 ok where c: "checkpoint kv fs snapshot_file ''w'' = (kv1, fs1, ok)" by (metis prod_cases3)
  obtain kv' fs' ok' where o: "kv_open ?srt kv_init fs1 ''w'' = (kv', fs', ok')" by (metis prod_cases3)
  have "unat (max_sstable_id (kv_paths kv)) + length (kv_paths kv) + 2 < 2 ^ 64" by (simp add: r(4) max_sstable_id_def)
  note rec = checkpoint_recovers [OF stable_sort.std_sort_axioms r(1) im this c o]
  have "ok" "ok'" "kv_get kv' ''a'' = latest example_history ''a''"
    "snd (snd (kv_get_at ?srt kv' fs' ''a'' 7)) = value_at example_history ''a'' 7"
    using rec r(4) by blast+
  moreover have "latest example_history ''a'' = Some ''x''" "value_at example_history ''a'' 7 = Some ''x''"
    by (simp_all add: example_history_def latest_def value_at_def hist_of_def visible_def value_of_def)
  ultimately have "ok" "ok'" "kv_get kv' ''a'' = Some ''x''" "snd (snd (kv_get_at ?srt kv' fs' ''a'' 7)) = Some ''x''"
    by simp_all
  then have "checkpoint kv fs snapshot_file ''w'' = (kv1, fs1, True)" "kv_open ?srt kv_init fs1 ''w'' = (kv', fs', True)"
    "kv_get kv' ''a'' = Some ''x''" "snd (snd (kv_get_at ?srt kv' fs' ''a'' 7)) = Some ''x''"
    using c o by simp_all
  with r(1) show ?thesis by blast
qed

text \<open>
  A checkpoint during a flush loses data: there is a reachable state in which a value is stored, \<^verbatim>\<open>checkpoint\<close> reports
  success, and after a restart neither \<^verbatim>\<open>get\<close> nor \<^verbatim>\<open>get_at\<close> at any time finds the value, because the snapshot has
  only the active table while the log with the frozen table's writes is removed.
\<close>

theorem checkpoint_loses_frozen_table:
  "\<exists>H kv fs kv1 fs1 kv' fs'. kv_run (sort_key ver_timestamp) ''w'' H kv fs \<and> kv_get kv ''a'' \<noteq> None
     \<and> checkpoint kv fs snapshot_file ''w'' = (kv1, fs1, True)
     \<and> kv_open (sort_key ver_timestamp) kv_init fs1 ''w'' = (kv', fs', True)
     \<and> kv_get kv' ''a'' = None \<and> (\<forall>t. snd (snd (kv_get_at (sort_key ver_timestamp) kv' fs' ''a'' t)) = None)"
proof -
  let ?srt = "sort_key ver_timestamp"
  obtain val kv fs where r: "kv_run ?srt ''w'' [(''a'', \<lparr>ver_timestamp = 1, ver_value = Some val\<rparr>)] kv fs"
    "mt_entries (kv_memtable kv) = []" "kv_paths kv = []" "load_sstables fs manifest_file = []"
    using flight_run [of ?srt] by blast
  let ?H = "[(''a'', \<lparr>ver_timestamp = 1, ver_value = Some val\<rparr>)]"
  obtain tabs fl F B where i: "kv_inv ?H tabs fl kv fs" "log_inv ''w'' F B kv fs"
    using kv_run_inv [OF stable_sort.std_sort_axioms r(1)] by blast
  have g: "kv_get kv ''a'' \<noteq> None" using i(1) by (simp add: kv_inv_def data_inv_def kv_get_def latest_def hist_of_def)
  have w: "\<not> private_path ''w''" "''w'' \<noteq> snapshot_file" "kv_opened kv"
    using i by (auto simp: log_inv_def kv_inv_def thread_inv_def)
  obtain kv1 fs1 ok where c: "checkpoint kv fs snapshot_file ''w'' = (kv1, fs1, ok)" by (metis prod_cases3)
  note f = checkpoint_files [OF kv_inv_sound [OF i(1)] w(3,2) c, unfolded r(2)]
  obtain kv' fs' ok' where o: "kv_open ?srt kv_init fs1 ''w'' = (kv', fs', ok')" by (metis prod_cases3)
  obtain ps where "manifest_lists fs manifest_file ps"
    using i(1) by (auto simp: kv_inv_def thread_inv_def worker_ok_def)
  then have ml: "manifest_lists fs manifest_file []" using load_listed r(4) by fastforce
  have "fs_files fs1 manifest_file = fs_files fs manifest_file"
    using f w(1) not_private_snapshot private_manifest(1) by metis
  with ml have ml1: "manifest_lists fs1 manifest_file []" by (simp add: manifest_lists_def fs_content_def)
  have P: "load_sstables fs1 manifest_file = []" by (rule load_listed [OF ml1])
  have h: "holds [] ([] @ [[]])" "hist_ok [] 0" by (simp_all add: holds_def hist_ok_def layered_def vers_def)
  have "ok' \<and> (\<forall>key t. snd (snd (kv_get_at ?srt kv' fs' key t)) = value_at [] key t)
      \<and> (\<forall>key. kv_get kv' key = latest (rows_of []) key)"
    by (rule open_checkpointed [OF stable_sort.std_sort_axioms _ _ _ w(1) _ _ _ _ _ h _ _ o, of "[]"])
      (use f P ml1 in \<open>simp_all add: max_sstable_id_def latest_def hist_of_def\<close>)
  then have lost: "kv_get kv' ''a'' = None" "\<forall>t. snd (snd (kv_get_at ?srt kv' fs' ''a'' t)) = None"
    and "ok'"
    by (simp_all add: value_at_def latest_def hist_of_def rows_of_def visible_def value_of_def)
  moreover have ok using f by simp
  ultimately have "checkpoint kv fs snapshot_file ''w'' = (kv1, fs1, True)" "kv_open ?srt kv_init fs1 ''w'' = (kv', fs', True)"
    using c o by simp_all
  with lost r(1) g show ?thesis by blast
qed

text \<open>
  A table can outlive the log: the flush thread writes a frozen table to disk although the writes in it may still be
  in the log buffer.  There is a reachable state after which a restart gives a store that does not find a value
  with \<^verbatim>\<open>get\<close>, finds it with \<^verbatim>\<open>get_at\<close>, and will give out its timestamp again.
\<close>

theorem table_outlives_log:
  "\<exists>H kv fs kv' fs'. kv_run (sort_key ver_timestamp) ''w'' H kv fs
     \<and> kv_open (sort_key ver_timestamp) kv_init fs ''w'' = (kv', fs', True)
     \<and> kv_get kv' ''a'' = None \<and> snd (snd (kv_get_at (sort_key ver_timestamp) kv' fs' ''a'' 1)) \<noteq> None \<and> kv_seq kv' = 0"
proof -
  let ?srt = "sort_key ver_timestamp"
  obtain val kv0 fs0 t where r0: "kv_run ?srt ''w'' [(''a'', \<lparr>ver_timestamp = 1, ver_value = Some val\<rparr>)] kv0 fs0"
    "kv_immutable kv0 = Some []" "mt_entries (kv_memtable kv0) = []" "kv_paths kv0 = []" "length (wal_buffer (kv_wal kv0)) = 1"
    using flight_run [of ?srt] by blast
  let ?H = "[(''a'', \<lparr>ver_timestamp = 1, ver_value = Some val\<rparr>)]"
  obtain kv fs where st: "thread_steps 5 kv0 fs0 = (kv, fs)" by fastforce
  then obtain fw where kv: "kv = kv0\<lparr>kv_worker := fw\<rparr>" using thread_steps_only [of 5 kv0 fs0] by auto
  have r: "kv_run ?srt ''w'' ?H kv fs" by (rule thread_steps_run [OF r0(1) st])
  have idle: "in_work (kv_worker kv) = []"
    using thread_steps_work [OF stable_sort.std_sort_axioms r0(1) work_left_bound [OF stable_sort.std_sort_axioms r0(1)]] st by simp
  obtain tabs fl F B where i: "kv_inv ?H tabs fl kv fs" "log_inv ''w'' F B kv fs" "F @ B = ?H"
    using kv_run_inv [OF stable_sort.std_sort_axioms r] by blast
  have "length B = 1" using i(2) r0(5) by (simp add: log_inv_def kv)
  with i(3) have "F = []" by (cases F) auto
  then have log: "fs_content fs ''w'' = []" "\<not> private_path ''w''" "fs_files fs snapshot_file = None"
    using i(2) by (auto simp: log_inv_def)
  obtain p es where fl: "fl = [es]" "fs_files fs p = Some (sst_format es)" "load_sstables fs manifest_file = [p]"
    using i(1) idle r0(2,4) by (auto simp: kv_inv_def flight_inv_def kv)
  obtain T rest where T: "distinct [p]" "\<forall>q\<in>set [p]. store_path q" "manifest_lists fs manifest_file [p]"
    using manifest_tables [OF i(1)] by (auto simp: fl(3))
  have "tabs = []" using i(1) r0(4) by (simp add: kv_inv_def files_inv_def kv)
  then have d: "holds ?H ([es] @ [mt_entries (kv_memtable kv_init)])" "hist_ok ?H (kv_seq kv)"
    "distinct (map fst (kv_map kv))" "\<forall>k. map_of (kv_map kv) k = latest ?H k"
    using i(1) r0(3) by (auto simp: kv_inv_def data_inv_def fl(1) kv kv_init_def memtable_init_def)
  obtain kv' fs' ok where o: "kv_open ?srt kv_init fs ''w'' = (kv', fs', ok)" by (metis prod_cases3)
  have "ok \<and> (\<forall>key t. snd (snd (kv_get_at ?srt kv' fs' key t)) = value_at ?H key t)
      \<and> (\<forall>key. kv_get kv' key = kv_get kv_init key) \<and> kv_seq kv' = 0"
    by (rule open_over_tables [OF stable_sort.std_sort_axioms kv_inv_sound [OF i(1)] load_no_snapshot [OF log(3)] log(1,2) _ _ _ _ _ d o])
      (use T fl in \<open>simp_all add: kCompactionTrigger_def\<close>)
  then show ?thesis using r o
    by (intro exI [of _ ?H] exI [of _ kv] exI [of _ fs] exI [of _ kv'] exI [of _ fs'])
      (simp add: kv_get_def kv_init_def value_at_def hist_of_def visible_def value_of_def)
qed

end
