(* ===== verification/Network.thy ===== *)
theory Network
  imports Server Kv_System
begin

text \<open>
  The processes around the command handlers: the accept loops and start-up of \<^verbatim>\<open>src/server_main.cpp\<close> and of
  \<^verbatim>\<open>run_server\<close> in \<^verbatim>\<open>src/cluster_demo.cpp\<close>, the requests of \<^verbatim>\<open>src/kv_client.cpp\<close>, and a client talking to the three
  servers of the cluster.  The operating system's part is an argument: what \<^verbatim>\<open>socket\<close>, \<^verbatim>\<open>bind\<close> and \<^verbatim>\<open>listen\<close> say, the
  accepted connections with the byte strings their reads return, and, for the client, a function from port and
  request to what the connection gives.
\<close>

section \<open>Accepting connections\<close>

text \<open>A failed \<^verbatim>\<open>accept\<close> is tried again; connections are served one after the other, each with its own pending bytes.\<close>

fun accept_loop ::
  "(string \<Rightarrow> 's \<Rightarrow> 's \<times> string) \<Rightarrow> string list option list \<Rightarrow> 's \<Rightarrow> 's \<times> string list list" where
  "accept_loop handle [] s = (s, [])"
| "accept_loop handle (None # cs) s = accept_loop handle cs s"
| "accept_loop handle (Some bufs # cs) s =
     (let (s1, resps) = serve handle bufs [] s; (s2, rest) = accept_loop handle cs s1 in (s2, resps # rest))"

datatype listen_result = Socket_failed | Bind_failed | Listen_failed | Listening

text \<open>\<^verbatim>\<open>main\<close> of the stand-alone server: the message of a failed start, or the greeting, the responses and the state
  after the given connections.\<close>

definition server_main ::
  "(version list \<Rightarrow> version list) \<Rightarrow> string list \<Rightarrow> listen_result \<Rightarrow> string list option list \<Rightarrow> fsys
   \<Rightarrow> string + string \<times> ((kv_store \<times> fsys) \<times> cluster) \<times> string list list" where
  "server_main srt args net conns fs =
     (let port = (case args of [] \<Rightarrow> 9000 | a # _ \<Rightarrow> atoi a);
          (kv, fs1, ok) = kv_open srt kv_init fs ''/tmp/kv_server.wal''
      in if \<not> ok then Inl (''failed to open WAL'' @ [NL])
         else case net of
                Socket_failed \<Rightarrow> Inl (''socket() failed'' @ [NL])
              | Bind_failed \<Rightarrow> Inl (''bind() failed'' @ [NL])
              | Listen_failed \<Rightarrow> Inl (''listen() failed'' @ [NL])
              | Listening \<Rightarrow>
                  Inr (''kv_server listening on port '' @ show_int port @ [NL],
                       accept_loop (server_command None) conns ((kv, fs1), cluster_start [])))"

text \<open>One server thread of the cluster.\<close>

definition run_server ::
  "int \<Rightarrow> int option \<Rightarrow> listen_result \<Rightarrow> string list option list \<Rightarrow> kv_store \<times> cluster
   \<Rightarrow> string + string \<times> (kv_store \<times> cluster) \<times> string list list" where
  "run_server port raft net conns st =
     (case net of
        Socket_failed \<Rightarrow> Inl (''socket() failed on port '' @ show_int port @ [NL])
      | Bind_failed \<Rightarrow> Inl (''bind() failed on port '' @ show_int port @ [NL])
      | Listen_failed \<Rightarrow> Inl (''listen() failed on port '' @ show_int port @ [NL])
      | Listening \<Rightarrow> Inr (''server listening on port '' @ show_int port @ [NL], accept_loop (cluster_command raft) conns st))"

section \<open>The client\<close>

datatype net_result = No_socket | No_connect | Reply string

text \<open>One \<^verbatim>\<open>read\<close> of at most 4095 bytes; the buffer is then taken as a C string.\<close>

definition send_command ::
  "(int \<Rightarrow> string \<Rightarrow> 's \<Rightarrow> 's \<times> net_result) \<Rightarrow> int \<Rightarrow> string \<Rightarrow> 's \<Rightarrow> 's \<times> string" where
  "send_command net port cmd s =
     (let (s', r) = net (port mod 65536) (cmd @ [NL]) s
      in (s', case r of
                No_socket \<Rightarrow> ''ERR socket'' @ [NL]
              | No_connect \<Rightarrow> ''ERR connect'' @ [NL]
              | Reply bytes \<Rightarrow>
                  let buf = take 4095 bytes
                  in if buf = [] then ''ERR read'' @ [NL] else takeWhile (\<lambda>c. c \<noteq> CHR 0x00) buf))"

definition client_main ::
  "(int \<Rightarrow> string \<Rightarrow> 's \<Rightarrow> 's \<times> net_result) \<Rightarrow> string list \<Rightarrow> 's \<Rightarrow> 's \<times> nat \<times> string" where
  "client_main net args s =
     (case args of
        port # cmd # _ \<Rightarrow>
          (let (s1, resp) = send_command net (atoi port) cmd s
           in case client_redirect resp of
                None \<Rightarrow> (s1, 0, ''response: '' @ resp)
              | Some leader_port \<Rightarrow>
                  let (s2, resp2) = send_command net leader_port cmd s1
                  in (s2, 0, ''response: '' @ resp @ ''redirecting to '' @ show_int leader_port @ [NL] @ ''response: '' @ resp2))
      | _ \<Rightarrow> (s, 1, ''usage: kv_client <port> '' @ [CHR 0x22] @ ''COMMAND'' @ [CHR 0x22] @ [NL]))"

section \<open>The client and the cluster\<close>

definition cluster_servers :: "(int \<times> int) list" where
  "cluster_servers = [(9101, 1), (9102, 2), (9103, 3)]"

text \<open>A connection to one of the servers: the request arrives, the client's read returns the server's answer.\<close>

definition cluster_net :: "int \<Rightarrow> string \<Rightarrow> cluster \<Rightarrow> cluster \<times> net_result" where
  "cluster_net port bytes c =
     (case map_of cluster_servers port of
        None \<Rightarrow> (c, No_connect)
      | Some i \<Rightarrow>
          let ((_, c'), resps) = serve (cluster_command (Some i)) [bytes] [] (replica c i, c)
          in (c', Reply (concat resps)))"

section \<open>Lemmas\<close>

lemma run_lines_keep:
  assumes "\<And>l s. P s \<Longrightarrow> P (fst (handle l s))"
  shows "P s \<Longrightarrow> P (fst (run_lines handle ls s))"
  using assms by (induction ls arbitrary: s) (simp_all add: case_prod_beta Let_def)

lemma accept_loop_keep:
  assumes "\<And>l s. P s \<Longrightarrow> P (fst (handle l s))"
  shows "P s \<Longrightarrow> P (fst (accept_loop handle cs s))"
proof (induction cs arbitrary: s)
  case (Cons conn cs)
  show ?case
  proof (cases conn)
    case (Some bufs)
    have "P (fst (serve handle bufs [] s))"
      unfolding serve_lines [OF take_lines_Nil] by (rule run_lines_keep [of P, OF assms Cons.prems])
    then show ?thesis using Cons.IH by (simp add: Some case_prod_beta Let_def)
  qed (simp add: Cons)
qed simp

lemma take_one_line: "\<lbrakk>NL \<notin> set l; l \<noteq> []; last l \<noteq> CHR 0x0D\<rbrakk> \<Longrightarrow> take_lines (l @ [NL]) = ([l], [])"
proof -
  assume l: "NL \<notin> set l" "l \<noteq> []" "last l \<noteq> CHR 0x0D"
  have "find_char (l @ [NL]) NL = Some (length l)" using l(1) by (induction l) auto
  then show ?thesis using l(2,3)
    by (simp add: take_lines.simps [of "l @ [NL]"] take_lines_Nil substr_def strip_cr_def)
qed

lemma send_to_node:
  assumes "i \<in> {1, 2, 3}" "NL \<notin> set cmd" "cmd \<noteq> []" "last cmd \<noteq> CHR 0x0D"
    and "cluster_command (Some i) cmd (replica c i, c) = ((kv', c'), resp)"
    and "resp \<noteq> []" "length resp < 4096" "CHR 0x00 \<notin> set resp"
  shows "send_command cluster_net (port_for_node i) cmd c = (c', resp)"
proof -
  have "map_of cluster_servers (port_for_node i mod 65536) = Some i"
    using assms(1) by (auto simp: cluster_servers_def port_for_node_def)
  then have "cluster_net (port_for_node i mod 65536) (cmd @ [NL]) c = (c', Reply resp)"
    using take_one_line [OF assms(2-4)] assms(5)
    by (simp add: cluster_net_def serve_lines [OF take_lines_Nil] case_prod_beta)
  moreover have "takeWhile (\<lambda>c. c \<noteq> CHR 0x00) resp = resp" using assms(8) by (auto simp: takeWhile_eq_all_conv)
  ultimately show ?thesis using assms(6,7) by (simp add: send_command_def)
qed

section \<open>Properties\<close>

text \<open>
  C15. A client that asks the wrong node: run \<^verbatim>\<open>kv_client\<close> with \<^verbatim>\<open>PUT k v\<close>, words without white space, and the port of a node
  that is not the leader but whose \<^verbatim>\<open>leader_id_\<close> names the node that is, while no other thread of the cluster acts during
  the exchange.  The client is sent to the leader, repeats the command there, and prints both answers; the command
  is proposed once, and if the last answer is \<^verbatim>\<open>OK\<close> a majority of the nodes has the entry.
\<close>

theorem client_put_redirected:
  assumes "i \<in> {1, 2, 3}" "l \<in> {1, 2, 3}" "rn_role (cl_nodes c i) \<noteq> Leader" "rn_leader (cl_nodes c i) = Some l"
    and "rn_role (cl_nodes c l) = Leader" "rn_peers (cl_nodes c l) = removeAll l [1, 2, 3]" "logs_fit [1, 2, 3] c"
    and "k \<noteq> []" "\<forall>ch \<in> set k. \<not> is_space ch" "v \<noteq> []" "\<forall>ch \<in> set v. \<not> is_space ch"
    and "ProposePut l k v c = (c', ok)"
  shows "client_main cluster_net [show_int (port_for_node i), ''PUT '' @ k @ '' '' @ v] c =
      (c', 0, ''response: NOT_LEADER '' @ show_int (port_for_node l) @ [NL]
        @ ''redirecting to '' @ show_int (port_for_node l) @ [NL] @ ''response: '' @ (if ok then ''OK'' else ''FAIL'') @ [NL])
    \<and> (ok \<longrightarrow> majority [1, 2, 3] {p \<in> {1, 2, 3}. has_entry (length (rn_log (cl_nodes c l))) (proposed c l k v) (cl_nodes c' p)})"
proof -
  let ?cmd = "''PUT '' @ k @ '' '' @ v" and ?r = "redirect_reply (Some i) c"
  let ?r2 = "(if ok then ''OK'' else ''FAIL'') @ [NL]"
  have cmd: "NL \<notin> set ?cmd" "?cmd \<noteq> []" "last ?cmd \<noteq> CHR 0x0D"
    using assms(9-11) last_in_set [OF assms(10)] by (auto simp: is_space_def)
  have port: "show_nat (nat (port_for_node l)) = show_int (port_for_node l)" "port_for_node l > 0"
    using assms(2) by (auto simp: port_for_node_def show_int_def)
  have r: "?r = ''NOT_LEADER '' @ show_int (port_for_node l) @ [NL]"
    using port assms(4) by (simp add: redirect_reply_def)
  have rl: "length ?r < 4096" "CHR 0x00 \<notin> set ?r" unfolding r using assms(2)
    by (auto simp: port_for_node_def show_int_def show_nat.simps digit_char_def char_of_def)
  have one: "cluster_command (Some i) ?cmd (replica c i, c) = ((replica c i, c), ?r)"
    using assms(3) by (simp only: cluster_put [OF assms(8-11)]) (simp add: is_leader_node_def)
  have two: "cluster_command (Some l) ?cmd (replica c l, c) = ((replica c l, c'), ?r2)"
    using assms(5,12) by (simp only: cluster_put [OF assms(8-11)]) (simp add: is_leader_node_def)
  have "atoi (show_int (port_for_node i)) = port_for_node i"
    using assms(1) by (auto simp: port_for_node_def atoi_def show_int_def stoi_show_nat)
  moreover have "client_redirect ?r = Some (port_for_node l)"
    unfolding r using assms(2) client_redirect_port [of 9101] client_redirect_port [of 9102] client_redirect_port [of 9103]
    by (auto simp: port_for_node_def show_int_def)
  moreover have "send_command cluster_net (port_for_node i) ?cmd c = (c, ?r)"
    by (rule send_to_node [OF assms(1) cmd one _ rl]) (simp add: r)
  moreover have "send_command cluster_net (port_for_node l) ?cmd c = (c', ?r2)"
    by (rule send_to_node [OF assms(2) cmd two]) auto
  moreover have "majority [1, 2, 3] {p \<in> {1, 2, 3}. has_entry (length (rn_log (cl_nodes c l))) (proposed c l k v) (cl_nodes c' p)}" if ok
    using propose_put_majority [of l k v c c' "[1, 2, 3]"] assms(2,6,7,12) that by simp
  ultimately show ?thesis by (simp only: client_main_def list.case) (simp add: r)
qed

theorem client_put_redirected_witness:
  "let c = three [Elect 1, Elect 1, Elect 1, Beat 1, Beat 1, Beat 1, Down 3]; (c', status, out) = client_main cluster_net [''9102'', ''PUT k v''] c
   in out = ''response: NOT_LEADER 9101'' @ [NL] @ ''redirecting to 9101'' @ [NL] @ ''response: OK'' @ [NL]
     \<and> majority [1, 2, 3] {p \<in> {1, 2, 3}. has_entry 0 (proposed c 1 ''k'' ''v'') (cl_nodes c' p)}"
proof -
  define c where "c = three [Elect 1, Elect 1, Elect 1, Beat 1, Beat 1, Beat 1, Down 3]"
  have ok: "snd (ProposePut 1 ''k'' ''v'' c)" "rn_role (cl_nodes c 1) = Leader" "rn_role (cl_nodes c 2) = Follower"
    "rn_leader (cl_nodes c 2) = Some 1" unfolding c_def by code_simp+
  have log: "rn_log (cl_nodes c 1) = []" "rn_log (cl_nodes c 2) = []" "rn_log (cl_nodes c 3) = []" unfolding c_def by code_simp+
  have peers: "rn_peers (cl_nodes c 1) = removeAll 1 [1, 2, 3]" unfolding c_def by code_simp
  have fit: "logs_fit [1, 2, 3] c" by (simp add: logs_fit_def log)
  obtain c' where p: "ProposePut 1 ''k'' ''v'' c = (c', True)" using ok(1) by (metis prod.collapse)
  have names: "show_int (port_for_node 2) = ''9102''" "show_int (port_for_node 1) = ''9101''"
    by (simp_all add: show_int_def port_for_node_def show_nat.simps digit_char_def char_of_def bit_Suc_0_iff)
  from client_put_redirected [OF _ _ _ ok(4,2) peers fit _ _ _ _ p] ok(3)
  show ?thesis unfolding c_def [symmetric] by (simp add: names log is_space_def)
qed

text \<open>
  The life of the stand-alone server changes no stored value, whatever it is sent: after any sequence of
  connections the store holds what it held when it was opened.
\<close>

theorem standalone_server_never_writes:
  assumes "server_main srt args net conns fs = Inr (greeting, (st, resps))"
    and "kv_open srt kv_init fs ''/tmp/kv_server.wal'' = (kv, fs1, True)"
  shows "kv_get (fst (fst st)) = kv_get kv"
proof -
  have "kv_get (fst (fst (fst (accept_loop (server_command None) conns ((kv, fs1), cluster_start []))))) = kv_get kv"
    by (rule accept_loop_keep [where P = "\<lambda>st. kv_get (fst (fst st)) = kv_get kv"])
      (use standalone_server_read_only in \<open>auto simp: fun_eq_iff\<close>)
  then show ?thesis using assms by (auto simp: server_main_def split: listen_result.splits)
qed

theorem standalone_server_never_writes_witness:
  "\<exists>g st resps. server_main (sort_key ver_timestamp) [] Listening [None, Some [''PUT a'', '' 1'' @ [NL]]] fs_empty = Inr (g, (st, resps))
     \<and> kv_get (fst (fst st)) ''a'' = None"
proof -
  let ?srt = "sort_key ver_timestamp" and ?w = "''/tmp/kv_server.wal''"
  let ?conns = "[None, Some [''PUT a'', '' 1'' @ [NL]]]"
  have f: "fresh_disk fs_empty ?w" by (rule fresh_disk_wal) simp_all
  from open_fresh [OF f, of ?srt] obtain kv fs1 where o: "kv_open ?srt kv_init fs_empty ?w = (kv, fs1, True)" "kv_map kv = []"
    by (auto simp: kv_init_def)
  obtain st resps where r: "accept_loop (server_command None) ?conns ((kv, fs1), cluster_start []) = (st, resps)" by fastforce
  have "server_main ?srt [] Listening ?conns fs_empty
      = Inr (''kv_server listening on port '' @ show_int 9000 @ [NL], st, resps)" by (simp only: server_main_def o r Let_def prod.case list.case listen_result.case not_True_eq_False if_False)
  moreover have "kv_get (fst (fst st)) ''a'' = None"
    unfolding standalone_server_never_writes [OF calculation o(1)] by (simp add: kv_get_def o(2))
  ultimately show ?thesis by blast
qed

text \<open>
  The client shows at most 4095 bytes of an answer: of a longer value only the beginning is printed, without a
  newline and without any sign that something is missing.
\<close>

theorem client_cuts_long_values:
  assumes "net (port mod 65536) (''GET '' @ k @ [NL]) s = (s', Reply (''VALUE '' @ v @ [NL]))"
    and "4089 \<le> length v" "CHR 0x00 \<notin> set v"
  shows "send_command net port (''GET '' @ k) s = (s', ''VALUE '' @ take 4089 v)"
proof -
  have t: "take 4095 (''VALUE '' @ v @ [NL]) = ''VALUE '' @ take 4089 v" using assms(2) by simp
  have "takeWhile (\<lambda>c. c \<noteq> CHR 0x00) (''VALUE '' @ take 4089 v) = ''VALUE '' @ take 4089 v"
    using assms(3) by (auto simp: takeWhile_eq_all_conv dest: in_set_takeD)
  then show ?thesis using assms(1) by (simp only: send_command_def Let_def append_assoc prod.case net_result.case t) simp
qed

end
