(* ===== verification/Mvcc_Demo.thy ===== *)
theory Mvcc_Demo
  imports Session Kv_Recovery
begin

text \<open>
  The demonstration of multi-version reads, \<^verbatim>\<open>src/mvcc_demo.cpp\<close>: a process that writes two versions of a key, deletes it, writes
  some more, reads the key at three timestamps, and reads it again after a restart.  The theorem says what it prints,
  for every schedule of the flush thread.  \<open>calm\<close> describes the store of such a small process: all its versions are in
  the active table, and no flush has started.
\<close>

section \<open>The program\<close>

definition session_del :: "string \<Rightarrow> session \<Rightarrow> session \<times> bool" where
  "session_del k st = (let (s, sched) = flush_thread st; (s', ok) = kvs_del s k in ((s', sched), ok))"

definition session_get_at ::
  "(version list \<Rightarrow> version list) \<Rightarrow> string \<Rightarrow> u64 \<Rightarrow> session \<Rightarrow> session \<times> string option" where
  "session_get_at srt k t st =
     (let ((kv, fs), sched) = flush_thread st; (kv', fs', r) = kv_get_at srt kv fs k t in (((kv', fs'), sched), r))"

definition print_value :: "string \<Rightarrow> string option \<Rightarrow> string" where
  "print_value label val = label @ '': '' @ (case val of Some v \<Rightarrow> v | None \<Rightarrow> ''<deleted/not found>'') @ [NL]"

definition mvcc_wal :: string where
  "mvcc_wal = ''/tmp/veristore_mvcc_test.wal''"

text \<open>One round of the loop: two keys of 100 bytes, a pause, a read that picks up finished flushes.\<close>

definition mvcc_batch :: "(version list \<Rightarrow> version list) \<Rightarrow> nat \<Rightarrow> session \<Rightarrow> session" where
  "mvcc_batch srt batch st =
     fst (session_get_at srt ''name'' 3
       (session_puts [(''large-'' @ show_nat (batch * 2), replicate 100 (char_of (97 + batch))),
                      (''large-'' @ show_nat (batch * 2 + 1), replicate 100 (char_of (97 + batch)))] st))"

definition mvcc_reads :: "(version list \<Rightarrow> version list) \<Rightarrow> string \<Rightarrow> session \<Rightarrow> session \<times> string" where
  "mvcc_reads srt label st =
     (let (st1, v1) = session_get_at srt ''name'' 1 st;
          (st2, v2) = session_get_at srt ''name'' 2 st1;
          (st3, v3) = session_get_at srt ''name'' 3 st2;
          (s, sched) = flush_thread st3
      in ((s, sched), print_value (label @ '' at ts=1'') v1 @ print_value (label @ '' at ts=2'') v2
            @ print_value (label @ '' at ts=3'') v3 @ print_value (label @ '' latest'') (kvs_get s ''name'')))"

definition mvcc_demo ::
  "(version list \<Rightarrow> version list) \<Rightarrow> nat list \<Rightarrow> nat list \<Rightarrow> fsys \<Rightarrow> fsys \<times> nat \<times> string" where
  "mvcc_demo srt sched sched' fs =
     (let (kv, fs1, opened) = kv_open srt kv_init (fs_remove fs mvcc_wal) mvcc_wal
      in if \<not> opened then (snd (kv_destroy (kv, fs1)), 1, ''Failed to open store'' @ [NL])
         else let st0 = ((set_group_commit_every 1 kv, fs1), sched);
                  (st1, _) = session_del ''name'' (session_puts [(''name'', ''version-1''), (''name'', ''version-2'')] st0);
                  st2 = foldl (\<lambda>st batch. mvcc_batch srt batch st) st1 [0..<4];
                  (st3, _) = session_get_at srt ''name'' 3 st2;
                  (st4, before) = mvcc_reads srt ''Before restart'' st3;
                  ((s5, _), flushed) = session_flush st4
              in if \<not> flushed then (snd (kv_destroy s5), 1, before @ ''Failed to flush WAL'' @ [NL])
                 else let (kv', fs2, recovered) = kv_open srt kv_init (snd (kv_destroy s5)) mvcc_wal;
                          out = before @ [NL] @ ''Restarting...'' @ [NL] @ [NL]
                      in if \<not> recovered then (snd (kv_destroy (kv', fs2)), 1, out @ ''Failed to recover store'' @ [NL])
                         else let ((s6, _), after) = mvcc_reads srt ''After restart'' ((kv', fs2), sched')
                              in (fs_remove (snd (kv_destroy s6)) mvcc_wal, 0, out @ after))"

section \<open>A store with one table in memory\<close>

text \<open>No table on disk or on its way there; room for \<open>n\<close> more writes and \<open>b\<close> bytes in the active table.\<close>

definition settled :: "(version list \<Rightarrow> version list) \<Rightarrow> string \<Rightarrow> history \<Rightarrow> kvs \<Rightarrow> bool" where
  "settled srt wpath H s \<longleftrightarrow> kv_run srt wpath H (fst s) (snd s) \<and> in_work (kv_worker (fst s)) = []
     \<and> fw_completions (kv_worker (fst s)) = [] \<and> kv_paths (fst s) = [] \<and> kv_next_id (fst s) = 0
     \<and> unat (kv_seq (fst s)) + 1 < 2 ^ 64"

definition calm :: "(version list \<Rightarrow> version list) \<Rightarrow> string \<Rightarrow> history \<Rightarrow> nat \<Rightarrow> nat \<Rightarrow> kvs \<Rightarrow> bool" where
  "calm srt wpath H n b s \<longleftrightarrow> settled srt wpath H s
     \<and> kv_seq (fst s) = word_of_nat (length H) \<and> length H + n + 1 < 2 ^ 32
     \<and> unat (approximate_size_bytes (kv_memtable (fst s))) + b < unat kMemTableFlushThresholdBytes"

lemma idle_step:
  "in_work fw = [] \<Longrightarrow> \<exists>pc. worker_step fw fs = (fw\<lparr>fw_pc := pc\<rparr>, fs) \<and> in_work (fw\<lparr>fw_pc := pc\<rparr>) = []"
  by (cases "fw_pc fw") (auto simp: in_work_def worker_step_def intro: exI [of _ "fw_pc fw"])

lemma idle_steps:
  assumes "in_work (kv_worker kv) = []"
  shows "\<exists>pc. thread_steps n kv fs = (kv\<lparr>kv_worker := (kv_worker kv)\<lparr>fw_pc := pc\<rparr>\<rparr>, fs) \<and> in_work ((kv_worker kv)\<lparr>fw_pc := pc\<rparr>) = []"
  using assms
proof (induction n arbitrary: kv)
  case 0
  then show ?case by (intro exI [of _ "fw_pc (kv_worker kv)"]) simp
next
  case (Suc n)
  obtain pc where pc: "worker_step (kv_worker kv) fs = ((kv_worker kv)\<lparr>fw_pc := pc\<rparr>, fs)" "in_work ((kv_worker kv)\<lparr>fw_pc := pc\<rparr>) = []"
    using idle_step [OF Suc.prems] by blast
  from Suc.IH [of "kv\<lparr>kv_worker := (kv_worker kv)\<lparr>fw_pc := pc\<rparr>\<rparr>"] pc show ?case by simp
qed

lemma settled_thread:
  assumes "settled srt wpath H (fst st)"
  shows "settled srt wpath H (fst (flush_thread st)) \<and> kv_memtable (fst (fst (flush_thread st))) = kv_memtable (fst (fst st))
    \<and> kv_seq (fst (fst (flush_thread st))) = kv_seq (fst (fst st))"
proof -
  obtain kv fs sched where st: "st = ((kv, fs), sched)" by (metis prod.exhaust)
  show ?thesis
  proof (cases sched)
    case Nil
    then show ?thesis using assms by (simp add: flush_thread_def st)
  next
    case (Cons m ms)
    obtain pc where t: "thread_steps m kv fs = (kv\<lparr>kv_worker := (kv_worker kv)\<lparr>fw_pc := pc\<rparr>\<rparr>, fs)"
      "in_work ((kv_worker kv)\<lparr>fw_pc := pc\<rparr>) = []"
      using idle_steps [of kv m fs] assms by (auto simp: settled_def st)
    have "kv_run srt wpath H kv fs" using assms by (simp add: settled_def st)
    from thread_steps_run [OF this t(1)] t show ?thesis using assms Cons by (simp add: settled_def st flush_thread_def)
  qed
qed

lemma settled_get_at:
  assumes "std_sort srt" "settled srt wpath H (fst st)"
  shows "snd (session_get_at srt k t st) = value_at H k t" "settled srt wpath H (fst (fst (session_get_at srt k t st)))"
    "kv_memtable (fst (fst (fst (session_get_at srt k t st)))) = kv_memtable (fst (fst st)) \<and> kv_seq (fst (fst (fst (session_get_at srt k t st)))) = kv_seq (fst (fst st))"
proof -
  obtain kv fs sched where f: "flush_thread st = ((kv, fs), sched)" by (metis prod.exhaust)
  have c: "settled srt wpath H (kv, fs)" "kv_memtable kv = kv_memtable (fst (fst st)) \<and> kv_seq kv = kv_seq (fst (fst st))"
    using settled_thread [OF assms(2)] by (simp_all add: f)
  then have r: "kv_run srt wpath H kv fs" and idle: "in_work (kv_worker kv) = []" by (simp_all add: settled_def)
  have lim: "kv_limits kv" using c(1) by (simp add: settled_def kv_limits_def)
  have "drain_completed_flushes srt kv fs = (kv, fs)"
    using c(1) by (simp add: drain_completed_flushes_def drain_loop_none settled_def)
  then have g: "kv_get_at srt kv fs k t = (kv, fs, snd (snd (kv_get_at srt kv fs k t)))"
    by (simp add: kv_get_at_def Let_def)
  have st: "session_get_at srt k t st = (((kv, fs), sched), snd (snd (kv_get_at srt kv fs k t)))"
    by (subst session_get_at_def) (simp add: f, subst g, simp)
  show "snd (session_get_at srt k t st) = value_at H k t" using get_at_idle [OF assms(1) r lim idle] by (simp add: st)
  show "settled srt wpath H (fst (fst (session_get_at srt k t st)))"
    "kv_memtable (fst (fst (fst (session_get_at srt k t st)))) = kv_memtable (fst (fst st)) \<and> kv_seq (fst (fst (fst (session_get_at srt k t st)))) = kv_seq (fst (fst st))" using c by (simp_all add: st)
qed

lemma tail_without_flush:
  assumes "approximate_size_bytes (kv_memtable kv) < kMemTableFlushThresholdBytes" "write_tail kv fs q = (kv', fs', ok)"
  shows "\<exists>w. kv' = kv\<lparr>kv_wal := w\<rparr>"
  using assms by (auto simp: write_tail_def maybe_flush_memtable_def split: if_splits prod.splits intro: exI [of _ "kv_wal kv"])

text \<open>The table after a write of \<open>c\<close> bytes.\<close>

lemma table_grows:
  assumes "unat sz + (b + c) < unat kMemTableFlushThresholdBytes" "sz' = sz + word_of_nat c"
  shows "sz' < kMemTableFlushThresholdBytes" "unat sz' + b < unat kMemTableFlushThresholdBytes"
proof -
  have c: "unat (word_of_nat c :: u64) = c" and t: "unat sz + c < 2 ^ 64"
    using assms(1) by (simp_all add: unat_of_nat kMemTableFlushThresholdBytes_def)
  then have "unat sz' = unat sz + c" unfolding assms(2) using unat_add_lem [of sz "word_of_nat c"] by simp
  then show "sz' < kMemTableFlushThresholdBytes" "unat sz' + b < unat kMemTableFlushThresholdBytes"
    using assms(1) by (simp_all add: word_less_nat_alt)
qed

lemma calm_limits:
  assumes "calm srt wpath H (Suc n) b s"
  shows "kv_limits (fst s) \<and> kv_seq (fst s) + 1 = word_of_nat (length H + 1) \<and> unat (kv_seq (fst s) + 1) + 1 < 2 ^ 64"
proof -
  have q: "kv_seq (fst s) + 1 = word_of_nat (length H + 1)" and l: "length H + n + 2 < 2 ^ 32" using assms by (simp_all add: calm_def)
  have "unat (word_of_nat (length H + 1) :: u64) = length H + 1" using l by (simp only: unat_of_nat) simp
  then have "unat (kv_seq (fst s) + 1) + 1 < 2 ^ 64" unfolding q using l by simp
  moreover have "kv_limits (fst s)" using assms unfolding calm_def settled_def kv_limits_def by auto
  ultimately show ?thesis using q by blast
qed

lemma calm_put:
  assumes "std_sort srt" "calm srt wpath H (Suc n) (b + (length k + length v + 56)) s" "write_ok (k, v)"
  shows "calm srt wpath (H @ [(k, \<lparr>ver_timestamp = word_of_nat (length H + 1), ver_value = Some v\<rparr>)]) n b (kvs_put s k v)"
proof -
  let ?kv = "fst s" and ?q = "kv_seq (fst s) + 1"
  let ?kv1 = "?kv\<lparr>kv_seq := ?q,
            kv_wal := (kv_wal ?kv)\<lparr>wal_buffer := wal_buffer (kv_wal ?kv) @ [wal_encode (version_record (k, \<lparr>ver_timestamp = ?q, ver_value = Some v\<rparr>))]\<rparr>,
            kv_map := AList.update k v (kv_map ?kv), kv_memtable := memtable_put k ?q v (kv_memtable ?kv)\<rparr>"
  have r: "kv_run srt wpath H ?kv (snd s)" using assms(2) by (simp add: calm_def settled_def)
  note lim = calm_limits [OF assms(2)]
  obtain kv' fs' ok where t: "write_tail ?kv1 (snd s) ?q = (kv', fs', ok)" by (metis prod_cases3)
  have p: "kvs_put s k v = (kv', fs')"
    using run_ok(1) [OF assms(1) r] kv_put_tail [of ?kv "snd s" k v] t by (simp add: kvs_put_def kvs_ok_def Let_def)
  note size = table_grows [of "approximate_size_bytes (kv_memtable ?kv)" b "length k + length v + 56" "approximate_size_bytes (kv_memtable ?kv1)"]
  have s: "approximate_size_bytes (kv_memtable ?kv1) < kMemTableFlushThresholdBytes"
    "unat (approximate_size_bytes (kv_memtable ?kv1)) + b < unat kMemTableFlushThresholdBytes"
    using size assms(2) by (simp_all add: calm_def approximate_size_bytes_def memtable_put_def sizeof_Timestamp_def sizeof_Version_def add.assoc)
  obtain w where w: "kv' = ?kv1\<lparr>kv_wal := w\<rparr>" using tail_without_flush [OF s(1) t] by blast
  have "kv_run srt wpath (H @ [(k, \<lparr>ver_timestamp = ?q, ver_value = Some v\<rparr>)]) kv' fs'"
    by (rule kv_run.Put [OF r conjunct1 [OF lim]]) (use assms(3) p in \<open>auto simp: write_ok_def kvs_put_def\<close>)
  then show ?thesis using assms(2) s(2) lim by (simp add: calm_def settled_def p w ac_simps)
qed

lemma calm_del:
  assumes "std_sort srt" "calm srt wpath H (Suc n) (b + (length k + 56)) s" "latest H k \<noteq> None" "length k < 2 ^ 32"
  shows "calm srt wpath (H @ [(k, \<lparr>ver_timestamp = word_of_nat (length H + 1), ver_value = None\<rparr>)]) n b (fst (kvs_del s k))"
proof -
  let ?kv = "fst s" and ?q = "kv_seq (fst s) + 1"
  let ?kv1 = "?kv\<lparr>kv_seq := ?q,
            kv_wal := (kv_wal ?kv)\<lparr>wal_buffer := wal_buffer (kv_wal ?kv) @ [wal_encode (version_record (k, \<lparr>ver_timestamp = ?q, ver_value = None\<rparr>))]\<rparr>,
            kv_memtable := memtable_del k ?q (kv_memtable ?kv), kv_map := AList.delete k (kv_map ?kv)\<rparr>"
  have r: "kv_run srt wpath H ?kv (snd s)" using assms(2) by (simp add: calm_def settled_def)
  note lim = calm_limits [OF assms(2)]
  have g: "kv_get ?kv k \<noteq> None" using run_ok(2) [OF assms(1) r] assms(3) by (simp add: kvs_get_def fun_eq_iff)
  then obtain x where x: "map_of (kv_map ?kv) k = Some x" by (auto simp: kv_get_def)
  obtain kv' fs' ok where t: "write_tail ?kv1 (snd s) ?q = (kv', fs', ok)" by (metis prod_cases3)
  have d: "kv_del ?kv (snd s) k = (kv', fs', ok)"
    using run_ok(1) [OF assms(1) r] kv_del_tail [OF _ _ x, of "snd s"] t by (simp add: kvs_ok_def Let_def)
  note size = table_grows [of "approximate_size_bytes (kv_memtable ?kv)" b "length k + 56" "approximate_size_bytes (kv_memtable ?kv1)"]
  have s: "approximate_size_bytes (kv_memtable ?kv1) < kMemTableFlushThresholdBytes"
    "unat (approximate_size_bytes (kv_memtable ?kv1)) + b < unat kMemTableFlushThresholdBytes"
    using size assms(2) by (simp_all add: calm_def approximate_size_bytes_def memtable_del_def sizeof_Timestamp_def sizeof_Version_def add.assoc)
  obtain w where w: "kv' = ?kv1\<lparr>kv_wal := w\<rparr>" using tail_without_flush [OF s(1) t] by blast
  have "kv_run srt wpath (H @ [(k, \<lparr>ver_timestamp = ?q, ver_value = None\<rparr>)]) kv' fs'"
    by (rule kv_run.Del [OF r conjunct1 [OF lim] assms(4) g d])
  then show ?thesis using assms(2) s(2) lim by (simp add: calm_def settled_def kvs_del_def d w ac_simps)
qed

text \<open>The same through the calls of a process.\<close>

lemma calm_thread: "calm srt wpath H n b (fst st) \<Longrightarrow> calm srt wpath H n b (fst (flush_thread st))"
  using settled_thread [of srt wpath H st] by (simp add: calm_def)

lemma calm_session_put:
  assumes "std_sort srt" "calm srt wpath H (Suc n) (b + (length k + length v + 56)) (fst st)" "write_ok (k, v)"
  shows "calm srt wpath (H @ [(k, \<lparr>ver_timestamp = word_of_nat (length H + 1), ver_value = Some v\<rparr>)]) n b (fst (session_put k v st))"
  using calm_put [OF assms(1) calm_thread [OF assms(2)] assms(3)] by (simp add: session_put_def case_prod_beta Let_def)

lemma calm_session_del:
  assumes "std_sort srt" "calm srt wpath H (Suc n) (b + (length k + 56)) (fst st)" "latest H k \<noteq> None" "length k < 2 ^ 32"
  shows "calm srt wpath (H @ [(k, \<lparr>ver_timestamp = word_of_nat (length H + 1), ver_value = None\<rparr>)]) n b (fst (fst (session_del k st)))"
  using calm_del [OF assms(1) calm_thread [OF assms(2)] assms(3,4)] by (simp add: session_del_def case_prod_beta Let_def)

lemma calm_less: "\<lbrakk>calm srt wpath H n b s; n' \<le> n; b' \<le> b\<rbrakk> \<Longrightarrow> calm srt wpath H n' b' s"
  by (auto simp: calm_def settled_def)

lemma calm_batch:
  assumes "std_sort srt" "calm srt wpath H (n + 2) (b + 400) (fst st)" "batch < 4"
  shows "\<exists>H'. calm srt wpath H' n b (fst (mvcc_batch srt batch st)) \<and> hist_of H' ''name'' = hist_of H ''name''"
proof -
  define k1 k2 v where d: "k1 = ''large-'' @ show_nat (batch * 2)" "k2 = ''large-'' @ show_nat (batch * 2 + 1)"
    "v = replicate 100 (char_of (97 + batch) :: char)"
  have "batch = 0 \<or> batch = 1 \<or> batch = 2 \<or> batch = 3" using assms(3) by auto
  then have w: "length k1 = 7" "length k2 = 7" "write_ok (k1, v)" "write_ok (k2, v)" "k1 \<noteq> ''name''" "k2 \<noteq> ''name''"
    unfolding d by (elim disjE; hypsubst;
      simp add: show_nat.simps digit_char_def char_of_def bit_Suc_0_iff write_ok_def key_ok_def value_ok_def is_space_def)+
  have v: "length v = 100" by (simp add: d)
  let ?st1 = "session_put k1 v st"
  let ?H1 = "H @ [(k1, \<lparr>ver_timestamp = word_of_nat (length H + 1), ver_value = Some v\<rparr>)]"
  let ?H2 = "?H1 @ [(k2, \<lparr>ver_timestamp = word_of_nat (length ?H1 + 1), ver_value = Some v\<rparr>)]"
  have "calm srt wpath H (Suc (Suc n)) ((b + (length k2 + length v + 56)) + (length k1 + length v + 56)) (fst st)"
    by (rule calm_less [OF assms(2)]) (simp_all add: w(1,2) v)
  from calm_session_put [OF assms(1) calm_session_put [OF assms(1) this w(3)] w(4)]
  have c: "calm srt wpath ?H2 n b (fst (session_put k2 v ?st1))" .
  have "mvcc_batch srt batch st = fst (session_get_at srt ''name'' 3 (session_put k2 v ?st1))"
    by (simp add: mvcc_batch_def session_puts_def d)
  then have "calm srt wpath ?H2 n b (fst (mvcc_batch srt batch st))"
    using c settled_get_at [OF assms(1), of wpath ?H2 "session_put k2 v ?st1" "''name''" 3] by (simp add: calm_def)
  moreover have "hist_of ?H2 ''name'' = hist_of H ''name''" using w(5,6) by (simp add: hist_of_def)
  ultimately show ?thesis by blast
qed

lemma calm_batches:
  assumes "std_sort srt" "\<forall>i \<in> set is. i < 4"
  shows "calm srt wpath H (n + 2 * length is) (b + 400 * length is) (fst st) \<Longrightarrow>
    \<exists>H'. calm srt wpath H' n b (fst (foldl (\<lambda>st batch. mvcc_batch srt batch st) st is)) \<and> hist_of H' ''name'' = hist_of H ''name''"
  using assms(2)
proof (induction "is" arbitrary: st H)
  case Nil
  then show ?case by auto
next
  case (Cons i "is")
  have "calm srt wpath H ((n + 2 * length is) + 2) ((b + 400 * length is) + 400) (fst st)"
    by (rule calm_less [OF Cons.prems(1)]) simp_all
  from calm_batch [OF assms(1) this, of i] Cons.prems(2)
  obtain H1 where H1: "calm srt wpath H1 (n + 2 * length is) (b + 400 * length is) (fst (mvcc_batch srt i st))"
    "hist_of H1 ''name'' = hist_of H ''name''" by auto
  from Cons.IH [OF H1(1)] Cons.prems(2) H1(2) show ?case by auto
qed

text \<open>The four lines of \<^verbatim>\<open>print_value\<close>.\<close>

lemma mvcc_reads_text:
  assumes "std_sort srt" "settled srt wpath H (fst st)"
  shows "snd (mvcc_reads srt label st) = print_value (label @ '' at ts=1'') (value_at H ''name'' 1)
      @ print_value (label @ '' at ts=2'') (value_at H ''name'' 2) @ print_value (label @ '' at ts=3'') (value_at H ''name'' 3)
      @ print_value (label @ '' latest'') (latest H ''name'')" "settled srt wpath H (fst (fst (mvcc_reads srt label st)))"
proof -
  let ?get = "\<lambda>t. session_get_at srt ''name'' t"
  let ?st1 = "fst (?get 1 st)"
  let ?st2 = "fst (?get 2 ?st1)"
  let ?st3 = "fst (?get 3 ?st2)"
  note s1 = settled_get_at(1,2) [OF assms, of "''name''" 1]
  note s2 = settled_get_at(1,2) [OF assms(1) s1(2), of "''name''" 2]
  note s3 = settled_get_at(1,2) [OF assms(1) s2(2), of "''name''" 3]
  have s4: "settled srt wpath H (fst (flush_thread ?st3))" using settled_thread [OF s3(2)] by blast
  then have "kv_run srt wpath H (fst (fst (flush_thread ?st3))) (snd (fst (flush_thread ?st3)))" by (simp add: settled_def)
  then have "kvs_get (fst (flush_thread ?st3)) = latest H" by (rule run_ok(2) [OF assms(1)])
  then show "snd (mvcc_reads srt label st) = print_value (label @ '' at ts=1'') (value_at H ''name'' 1)
      @ print_value (label @ '' at ts=2'') (value_at H ''name'' 2) @ print_value (label @ '' at ts=3'') (value_at H ''name'' 3)
      @ print_value (label @ '' latest'') (latest H ''name'')" "settled srt wpath H (fst (fst (mvcc_reads srt label st)))"
    using s1(1) s2(1) s3(1) s4 by (simp_all add: mvcc_reads_def case_prod_beta Let_def)
qed

lemma last_seq_le: "hist_ok H q \<Longrightarrow> last_seq H \<le> q"
proof -
  have "m \<le> q \<Longrightarrow> \<forall>op \<in> set H. ver_timestamp (snd op) \<le> q \<Longrightarrow> fold (\<lambda>r m. max m (wr_seq r)) (map version_record H) m \<le> q" for m
    by (induction H arbitrary: m) (auto simp: version_record_def)
  from this [of 0] show "hist_ok H q \<Longrightarrow> last_seq H \<le> q" by (fastforce simp: hist_ok_def last_seq_def)
qed

lemma settled_flush:
  assumes "std_sort srt" "settled srt wpath H (fst st)"
  shows "settled srt wpath H (fst (fst (session_flush st))) \<and> snd (session_flush st)
    \<and> wal_buffer (kv_wal (fst (fst (fst (session_flush st))))) = []"
proof -
  obtain kv fs sched where f: "flush_thread st = ((kv, fs), sched)" by (metis prod.exhaust)
  have c: "settled srt wpath H (kv, fs)" using settled_thread [OF assms(2)] by (simp add: f)
  then have r: "kv_run srt wpath H kv fs" by (simp add: settled_def)
  obtain w fs' ok where w: "wal_flush (kv_wal kv) fs = (w, fs', ok)" by (metis prod_cases3)
  obtain tabs fl F B where i: "kv_inv H tabs fl kv fs" "log_inv wpath F B kv fs" using kv_run_inv [OF assms(1) r] by blast
  have k: "kv_flush_wal kv fs = (kv\<lparr>kv_wal := w\<rparr>, fs', ok)" by (simp add: kv_flush_wal_def w)
  from wal_flush_inv [OF i w] have "ok" "wal_buffer w = []" by (auto simp: log_inv_def)
  then show ?thesis using kv_run.Flush_wal [OF r k] c by (simp add: session_flush_def f kvs_flush_def k settled_def)
qed

lemma opened_without_tables:
  assumes "fs_sound fs" "log_inv wpath F B kv fs" "load_sstables fs manifest_file = []" "kv_open srt kv_init fs wpath = (kv', fs', ok)"
  shows "ok \<and> kv_paths kv' = [] \<and> kv_next_id kv' = 0 \<and> kv_worker kv' = worker_start worker_init \<and> kv_seq kv' = last_seq F"
proof -
  have l: "fs_files fs snapshot_file = None" "fs_content fs wpath = concat (map (wal_encode \<circ> version_record) F)"
    "\<forall>op\<in>set F. wal_ok (version_record op)" using assms(2) by (auto simp: log_inv_def)
  obtain w fs2 kv4 kv5 b where o: "maybe_compact_sstables srt kv4 fs2 = (kv5, fs', b)" ok
    "kv4 = (fold restore F (kv_init\<lparr>kv_wal := wal_init\<lparr>wal_path := wpath, wal_open := True,
         wal_pos := length (fs_content fs wpath)\<rparr>\<rparr>))\<lparr>kv_wal := w, kv_seq := last_seq F, kv_opened := True,
         kv_manifest := manifest_file, kv_paths := load_sstables fs manifest_file,
         kv_next_id := max_sstable_id (load_sstables fs manifest_file)\<rparr>"
    "kv' = kv5\<lparr>kv_worker := worker_start (kv_worker kv5), kv_next_id := word_of_nat (length (kv_paths kv5))\<rparr>"
    using open_recovers [OF assms(1) load_no_snapshot [OF l(1)] l(2,3) assms(4)] by blast
  have "kv5 = kv4" using o(1,3) assms(3) by (simp add: maybe_compact_sstables_def kCompactionTrigger_def)
  then show ?thesis using o(2-4) assms(3) by (simp add: kv_init_def)
qed

text \<open>The next process on the files of a settled store.\<close>

lemma settled_restart:
  assumes "std_sort srt" "settled srt wpath H (kv, fs)" "wal_buffer (kv_wal kv) = []"
    and "kv_open srt kv_init (snd (kv_destroy (kv, fs))) wpath = (kv', fs', ok)"
  shows "ok \<and> settled srt wpath H (kv', fs')"
proof -
  have r: "kv_run srt wpath H kv fs" and idle: "in_work (kv_worker kv) = []" using assms(2) by (simp_all add: settled_def)
  obtain m where m: "snd (kv_destroy (kv, fs)) = snd (thread_steps m kv fs)" using kv_destroy_steps by blast
  then have "snd (kv_destroy (kv, fs)) = fs" using idle_steps [OF idle, of m fs] by auto
  with assms(4) have o: "kv_open srt kv_init fs wpath = (kv', fs', ok)" by simp
  obtain tabs fl F B where i: "kv_inv H tabs fl kv fs" "log_inv wpath F B kv fs" "F @ B = H" "length B = length (wal_buffer (kv_wal kv))"
    "hist_ok F (kv_seq kv)"
    by (rule log_of_run [OF assms(1) r])
  then have F: "F = H" "B = []" using assms(3) by auto
  have none: "load_sstables fs manifest_file = []"
    using i(1) assms(2) by (auto simp: kv_inv_def flight_inv_def settled_def)
  have kv': "ok" "kv_paths kv' = []" "kv_next_id kv' = 0" "kv_worker kv' = worker_start worker_init" "kv_seq kv' = last_seq H"
    using opened_without_tables [OF kv_inv_sound [OF i(1)] i(2) none o] F(1) by auto
  have ids: "unat (max_sstable_id (load_sstables fs manifest_file)) + length (load_sstables fs manifest_file) + 2 < 2 ^ 64"
    by (simp add: none max_sstable_id_def)
  have "kv_run srt wpath H kv' fs'"
    using kv_run.Restart [OF r disjI1 [OF assms(3)] ids o] kv'(2) assms(3) by simp
  moreover have "unat (last_seq H) + 1 < 2 ^ 64" using last_seq_le [OF i(5)] F(1) assms(2) by (auto simp: settled_def word_le_nat_alt)
  ultimately show ?thesis using kv' assms(2) by (simp add: settled_def worker_start_def worker_init_def in_work_def)
qed

section \<open>What it prints\<close>

definition mvcc_lines :: "string \<Rightarrow> string" where
  "mvcc_lines label = label @ '' at ts=1: version-1'' @ [NL] @ label @ '' at ts=2: version-2'' @ [NL]
     @ label @ '' at ts=3: <deleted/not found>'' @ [NL] @ label @ '' latest: <deleted/not found>'' @ [NL]"

lemma mvcc_lines_read:
  assumes "std_sort srt" "settled srt wpath H (fst st)"
    and "hist_of H ''name'' = [\<lparr>ver_timestamp = 1, ver_value = Some ''version-1''\<rparr>, \<lparr>ver_timestamp = 2, ver_value = Some ''version-2''\<rparr>,
      \<lparr>ver_timestamp = 3, ver_value = None\<rparr>]"
  shows "snd (mvcc_reads srt label st) = mvcc_lines label"
  using mvcc_reads_text(1) [OF assms(1,2), of label] assms(3)
  by (simp add: mvcc_lines_def print_value_def value_at_def latest_def visible_def value_of_def word_le_nat_alt)

text \<open>The writes of the program before its first read.\<close>

definition mvcc_history :: history where
  "mvcc_history = [(''name'', \<lparr>ver_timestamp = 1, ver_value = Some ''version-1''\<rparr>), (''name'', \<lparr>ver_timestamp = 2, ver_value = Some ''version-2''\<rparr>),
     (''name'', \<lparr>ver_timestamp = 3, ver_value = None\<rparr>)]"

lemma mvcc_written:
  assumes "std_sort srt" "calm srt wpath [] 20 5000 (fst st)"
  shows "calm srt wpath mvcc_history 10 4000 (fst (fst (session_del ''name'' (session_puts [(''name'', ''version-1''), (''name'', ''version-2'')] st))))"
proof -
  let ?v = "\<lambda>t x. \<lparr>ver_timestamp = t, ver_value = x\<rparr>"
  define st1 where "st1 = session_puts [(''name'', ''version-1''), (''name'', ''version-2'')] st"
  have ok: "write_ok (''name'', ''version-1'')" "write_ok (''name'', ''version-2'')"
    by (simp_all add: write_ok_def key_ok_def value_ok_def is_space_def)
  have c1: "calm srt wpath [(''name'', ?v 1 (Some ''version-1''))] 15 4500 (fst (session_put ''name'' ''version-1'' st))"
    using calm_session_put [OF assms(1) calm_less [OF assms(2)] ok(1), of 15 4500] by simp
  have c2: "calm srt wpath [(''name'', ?v 1 (Some ''version-1'')), (''name'', ?v 2 (Some ''version-2''))] 12 4200 (fst st1)"
    using calm_session_put [OF assms(1) calm_less [OF c1] ok(2), of 12 4200] by (simp add: st1_def session_puts_def)
  show ?thesis unfolding st1_def [symmetric] mvcc_history_def
    using calm_session_del [OF assms(1) calm_less [OF c2], of 10 4000 "''name''"] by (simp add: latest_def hist_of_def)
qed

text \<open>
  C32. The versions of a key survive a restart: on a disk without files of the store the demonstration prints both
  versions of the key and the deletion, at the timestamps at which they were written, and prints the same after the
  restart, for every schedule of the flush thread.
\<close>

theorem mvcc_demo_output:
  assumes "std_sort srt" "fresh_disk (fs_remove fs mvcc_wal) mvcc_wal"
  shows "snd (mvcc_demo srt sched sched' fs) =
    (0, mvcc_lines ''Before restart'' @ [NL] @ ''Restarting...'' @ [NL] @ [NL] @ mvcc_lines ''After restart'')"
proof -
  obtain kv fs1 where o: "kv_open srt kv_init (fs_remove fs mvcc_wal) mvcc_wal = (kv, fs1, True)"
    "kv = kv_init\<lparr>kv_wal := wal_init\<lparr>wal_open := True, wal_path := mvcc_wal\<rparr>, kv_opened := True,
        kv_manifest := manifest_file, kv_worker := worker_start worker_init\<rparr>"
    using open_fresh [OF assms(2), of srt] by blast
  let ?st0 = "((set_group_commit_every 1 kv, fs1), sched)"
  have "kv_run srt mvcc_wal [] (set_group_commit_every 1 kv) fs1"
    using kv_run.Group [OF kv_run.Open [OF assms(2) o(1)], of 1] by simp
  then have c0: "calm srt mvcc_wal [] 20 5000 (fst ?st0)"
    by (simp add: calm_def settled_def o(2) set_group_commit_every_def kv_init_def memtable_init_def approximate_size_bytes_def
        worker_start_def worker_init_def in_work_def kMemTableFlushThresholdBytes_def)
  define st1 where "st1 = session_puts [(''name'', ''version-1''), (''name'', ''version-2'')] ?st0"
  have c3: "calm srt mvcc_wal mvcc_history 10 4000 (fst (fst (session_del ''name'' st1)))"
    unfolding st1_def by (rule mvcc_written [OF assms(1) c0])
  define st2 where "st2 = foldl (\<lambda>st batch. mvcc_batch srt batch st) (fst (session_del ''name'' st1)) [0..<4]"
  have "calm srt mvcc_wal mvcc_history (2 + 2 * length [0..<4]) (400 + 400 * length [0..<4]) (fst (fst (session_del ''name'' st1)))"
    by (rule calm_less [OF c3]) simp_all
  from calm_batches [OF assms(1) _ this] obtain H where H: "calm srt mvcc_wal H 2 400 (fst st2)" "hist_of H ''name'' = hist_of mvcc_history ''name''"
    by (auto simp: st2_def)
  define st3 where "st3 = fst (session_get_at srt ''name'' 3 st2)"
  have s3: "settled srt mvcc_wal H (fst st3)" using settled_get_at(2) [OF assms(1)] H(1) by (simp add: st3_def calm_def)
  have h: "hist_of H ''name'' = [\<lparr>ver_timestamp = 1, ver_value = Some ''version-1''\<rparr>, \<lparr>ver_timestamp = 2, ver_value = Some ''version-2''\<rparr>,
      \<lparr>ver_timestamp = 3, ver_value = None\<rparr>]" using H(2) by (simp add: hist_of_def mvcc_history_def)
  define st4 where "st4 = fst (mvcc_reads srt ''Before restart'' st3)"
  have before: "mvcc_reads srt ''Before restart'' st3 = (st4, mvcc_lines ''Before restart'')"
    using mvcc_lines_read [OF assms(1) s3 h] by (simp add: st4_def prod_eq_iff)
  have "settled srt mvcc_wal H (fst st4)" using mvcc_reads_text(2) [OF assms(1) s3] by (simp add: st4_def)
  note fl = settled_flush [OF assms(1) this]
  obtain kv5 fs5 sc5 where f: "session_flush st4 = (((kv5, fs5), sc5), True)" using fl by (metis prod.collapse)
  obtain kv' fs2 ok' where o2: "kv_open srt kv_init (snd (kv_destroy (kv5, fs5))) mvcc_wal = (kv', fs2, ok')" by (metis prod_cases3)
  have r: "ok'" "settled srt mvcc_wal H (kv', fs2)" using settled_restart [OF assms(1) _ _ o2] fl f by auto
  have after: "snd (mvcc_reads srt ''After restart'' ((kv', fs2), sched')) = mvcc_lines ''After restart''"
    using mvcc_lines_read [OF assms(1) _ h, of mvcc_wal "((kv', fs2), sched')"] r(2) by simp
  have "fst (session_get_at srt ''name'' 3 (foldl (\<lambda>st batch. mvcc_batch srt batch st) (fst (session_del ''name'' st1)) [0..<4])) = st3"
    by (simp add: st3_def st2_def)
  then show ?thesis
    using after by (simp add: mvcc_demo_def o(1) st1_def [symmetric] case_prod_beta Let_def before f o2 r(1) del: upt_rec_numeral)
qed

theorem mvcc_demo_output_witness:
  "snd (mvcc_demo (sort_key ver_timestamp) [1, 5] [] fs_empty) =
    (0, mvcc_lines ''Before restart'' @ [NL] @ ''Restarting...'' @ [NL] @ [NL] @ mvcc_lines ''After restart'')"
proof (rule mvcc_demo_output [OF stable_sort.std_sort_axioms])
  have "fs_remove fs_empty mvcc_wal = fs_empty" by (simp add: fs_remove_def fs_empty_def)
  then show "fresh_disk (fs_remove fs_empty mvcc_wal) mvcc_wal" using fresh_disk_wal [of mvcc_wal] by (simp add: mvcc_wal_def)
qed

end
