(* ===== verification/Object_Session.thy ===== *)
theory Object_Session
  imports Mvcc_Demo Object_Recovery
begin

text \<open>
  A process that uses the object store while the flush thread runs.  The first part holds on every disk: what an
  operation of the object store does to the current values, whether or not the log reaches the disk.  The second is
  about a short process on a disk that works: its log, its active table, and what the next process finds.
\<close>

section \<open>The call\<close>

text \<open>One call of the object store; the thread makes its steps in front of it.\<close>

definition session_call :: "(kvs \<Rightarrow> kvs \<times> 'a) \<Rightarrow> session \<Rightarrow> session \<times> 'a" where
  "session_call f st = (let (s, sched) = flush_thread st; (s', r) = f s in ((s', sched), r))"

section \<open>Calls on any disk\<close>

text \<open>Whatever is in the files, an opened store is one the laws of the object store apply to.\<close>

lemma load_lines_distinct:
  "\<lbrakk>load_lines ls kv = (kv', b); distinct (map fst (kv_map kv))\<rbrakk> \<Longrightarrow> distinct (map fst (kv_map kv'))"
proof (induction ls arbitrary: kv)
  case (Cons l ls)
  then show ?case by (auto split: if_splits option.splits simp: restore_effect)
qed simp

lemma fold_restore_distinct: "distinct (map fst (kv_map kv)) \<Longrightarrow> distinct (map fst (kv_map (fold restore ops kv)))"
proof (induction ops arbitrary: kv)
  case (Cons op ops)
  then show ?case by (cases op) (simp add: restore_effect)
qed simp

lemma kv_init_closed: "\<not> kv_opened kv_init"
  by (simp add: kv_init_def)

lemma opened_kvs_ok:
  assumes "kv_open srt kv_init fs wpath = (kv, fs', True)"
  shows "kvs_ok (kv, fs')"
proof -
  obtain kv1 b1 where l: "load_from_file kv_init fs snapshot_file = (kv1, b1)" by fastforce
  obtain w fs1 b2 where w: "wal_open_file (kv_wal kv1) fs wpath = (w, fs1, b2)" by (metis prod_cases3)
  obtain w' kv2 m b3 where r: "replay_into (restore \<circ> record_version) w fs1 (kv1\<lparr>kv_wal := w\<rparr>) = (w', kv2, m, b3)"
    by (metis prod_cases4)
  have "distinct (map fst (kv_map kv1))"
    using l by (auto simp: load_from_file_def kv_init_def split: option.splits dest!: load_lines_distinct)
  moreover have "\<exists>rs. kv2 = fold (restore \<circ> record_version) rs (kv1\<lparr>kv_wal := w\<rparr>)"
    using r replay_loop_decode [of "restore \<circ> record_version" "fs_content fs1 (wal_path w)" "kv1\<lparr>kv_wal := w\<rparr>" 0 0]
    by (auto simp: replay_into_def Let_def split: if_splits prod.splits intro: exI [of _ "[]"])
  then obtain ops where "kv2 = fold restore ops (kv1\<lparr>kv_wal := w\<rparr>)" by (metis fold_map)
  ultimately have d: "distinct (map fst (kv_map kv2))" using fold_restore_distinct [of "kv1\<lparr>kv_wal := w\<rparr>" ops] by simp
  have "kv_map kv = kv_map kv2"
    using assms l w r kv_init_closed by (auto simp: kv_open_def Let_def split: if_splits prod.splits dest!: maybe_compact_fields)
  with d session_opened [OF assms] show ?thesis by (simp add: kvs_ok_def session_ok_def)
qed

lemma thread_keeps_map:
  obtains fw where "fst (fst (flush_thread st)) = (fst (fst st))\<lparr>kv_worker := fw\<rparr>"
proof -
  obtain kv fs sched where st: "st = ((kv, fs), sched)" by (metis prod.exhaust)
  show ?thesis
  proof (cases sched)
    case Nil
    then show ?thesis using that [of "kv_worker kv"] by (simp add: flush_thread_def st)
  next
    case (Cons n ns)
    obtain fw where "fst (thread_steps n kv fs) = kv\<lparr>kv_worker := fw\<rparr>" using thread_steps_only by blast
    then show ?thesis using that [of fw] Cons by (simp add: flush_thread_def st)
  qed
qed

lemma thread_get: "kvs_get (fst (flush_thread st)) = kvs_get (fst st)"
proof -
  obtain fw where "fst (fst (flush_thread st)) = (fst (fst st))\<lparr>kv_worker := fw\<rparr>" using thread_keeps_map .
  then show ?thesis by (simp add: kvs_get_def kv_get_def fun_eq_iff)
qed

lemma session_call_ok:
  assumes "session_call f st = (st', r)" "kvs_ok (fst st)"
  obtains s where "kvs_ok s" "kvs_get s = kvs_get (fst st)" "f s = (fst st', r)"
proof -
  obtain fw where fw: "fst (fst (flush_thread st)) = (fst (fst st))\<lparr>kv_worker := fw\<rparr>" using thread_keeps_map .
  have "kvs_ok (fst (flush_thread st))" using assms(2) by (simp add: kvs_ok_def fw)
  moreover have "f (fst (flush_thread st)) = (fst st', r)"
    using assms(1) by (auto simp: session_call_def Let_def split: prod.splits)
  ultimately show ?thesis using that thread_get by blast
qed

lemma session_read:
  assumes "session_call (\<lambda>s. (s, g s)) st = (st', r)" "kvs_ok (fst st)"
  shows "kvs_ok (fst st') \<and> kvs_get (fst st') = kvs_get (fst st) \<and> r = g (fst st')"
  by (rule session_call_ok [OF assms]) auto

lemma session_get:
  assumes "session_call (\<lambda>s. (s, GetObject s b k)) st = (st', r)" "kvs_ok (fst st)"
  shows "kvs_ok (fst st') \<and> kvs_get (fst st') = kvs_get (fst st) \<and> r = GetObject (fst st) b k"
  using session_read [OF assms] GetObject_cong [of "fst st'" "fst st" b k] by simp

lemma CreateBucket_effect:
  assumes "CreateBucket now_ms s b = (s', created)" "kvs_ok s" "b \<noteq> []"
  shows "created \<and> kvs_ok s' \<and> BucketExists s' b"
  using assms by (auto simp: CreateBucket_def BucketExists_def kvs.put_ok kvs.get_put split: if_splits)

lemma PutObject_effect:
  assumes "PutObject cs hash id_ms now_ms s req = (s', r)" "kvs_ok s" "BucketExists s (pr_bucket req)" "pr_key req \<noteq> []"
  shows "kvs_ok s' \<and> kvs_get s' = kvs_get (do_writes (put_writes cs hash id_ms now_ms req) s)
    \<and> r \<in> {put_failed ''failed to flush WAL'', let m = put_metadata cs hash id_ms now_ms req
          in \<lparr>po_ok = True, po_error = [], po_id = om_id m, po_size = om_size m, po_chunk_count = om_chunk_count m, po_etag = om_etag m\<rparr>}"
proof -
  let ?s = "do_writes (put_writes cs hash id_ms now_ms req) s"
  have ok: "kvs_ok ?s" using assms(2) by (rule do_writes_ok)
  from PutObject_run [OF assms(3,4), of cs hash id_ms now_ms] assms(1) kvs.flush_ok [OF ok] kvs.get_flush [OF ok]
  show ?thesis by (auto simp: Let_def split: prod.splits if_splits)
qed

lemma DeleteObject_effect:
  assumes "DeleteObject now_ms s b k = (s', r)" "kvs_ok s" "GetObject s b k = stored m data"
  shows "kvs_ok s' \<and> GetObject s' b k = get_failed ''object is deleted'' metadata_default
    \<and> r \<in> {\<lparr>do_ok = False, do_error = ''failed to flush WAL''\<rparr>, \<lparr>do_ok = True, do_error = []\<rparr>}"
proof -
  obtain raw where raw: "kvs_get s (ObjectMetaKey b k) = Some raw" "deserialize_metadata raw = Some m"
    using assms(3) by (auto simp: GetObject_def stored_def get_failed_def split: option.splits if_splits sum.splits)
  let ?m = "m\<lparr>om_state := ObjDeleted, om_updated := now_ms\<rparr>"
  let ?s = "fst (kvs_del (kvs_put s (ObjectMetaKey b k) (serialize_metadata ?m)) (BucketIndexKey b k))"
  have ok: "kvs_ok ?s" using assms(2) by (intro kvs.del_ok kvs.put_ok)
  have s': "s' = fst (kvs_flush ?s)" using assms(1) raw by (auto simp: DeleteObject_def Let_def split: if_splits prod.splits)
  have get: "kvs_get s' = (kvs_get s)(ObjectMetaKey b k \<mapsto> serialize_metadata ?m, BucketIndexKey b k := None)"
    unfolding s' using assms(2) by (simp add: kvs.get_flush kvs.get_del kvs.get_put kvs.put_ok kvs.del_ok)
  have "no_tabs ?m" using deserialize_no_tabs [OF raw(2)] by (simp add: no_tabs_def)
  then have "GetObject s' b k = get_failed ''object is deleted'' metadata_default"
    by (simp add: GetObject_def get deserialize_serialize)
  moreover have "r \<in> {\<lparr>do_ok = False, do_error = ''failed to flush WAL''\<rparr>, \<lparr>do_ok = True, do_error = []\<rparr>}"
    using assms(1) raw by (auto simp: DeleteObject_def Let_def split: if_splits prod.splits)
  ultimately show ?thesis using kvs.flush_ok [OF ok] by (simp add: s')
qed

text \<open>The same through the calls of a process.\<close>

lemma session_create:
  assumes "session_call (\<lambda>s. CreateBucket now_ms s b) st = (st', created)" "kvs_ok (fst st)" "b \<noteq> []"
  shows "created \<and> kvs_ok (fst st') \<and> BucketExists (fst st') b"
  by (rule session_call_ok [OF assms(1,2)]) (rule CreateBucket_effect [OF _ _ assms(3)])

lemma session_upload:
  assumes "session_call (\<lambda>s. PutObject cs hash id_ms now_ms s req) st = (st', r)" "kvs_ok (fst st)"
    and "BucketExists (fst st) (pr_bucket req)" "pr_key req \<noteq> []"
    and "chunks_fit cs (pr_data req)" "TAB \<notin> set (pr_bucket req @ pr_key req @ pr_content_type req)"
  shows "kvs_ok (fst st') \<and> GetObject (fst st') (pr_bucket req) (pr_key req) = stored (put_metadata cs hash id_ms now_ms req) (pr_data req)
    \<and> r \<in> {put_failed ''failed to flush WAL'', let m = put_metadata cs hash id_ms now_ms req
          in \<lparr>po_ok = True, po_error = [], po_id = om_id m, po_size = om_size m, po_chunk_count = om_chunk_count m, po_etag = om_etag m\<rparr>}"
proof (rule session_call_ok [OF assms(1,2)])
  fix s
  assume s: "kvs_ok s" "kvs_get s = kvs_get (fst st)" "PutObject cs hash id_ms now_ms s req = (fst st', r)"
  have "BucketExists s (pr_bucket req)" using assms(3) s(2) by (simp add: BucketExists_def)
  from PutObject_effect [OF s(3,1) this assms(4)] upload_read [OF s(1) assms(5,6), of "fst st'"] show ?thesis by simp
qed

lemma session_delete:
  assumes "session_call (\<lambda>s. DeleteObject now_ms s b k) st = (st', r)" "kvs_ok (fst st)" "GetObject (fst st) b k = stored m data"
  shows "kvs_ok (fst st') \<and> GetObject (fst st') b k = get_failed ''object is deleted'' metadata_default
    \<and> r \<in> {\<lparr>do_ok = False, do_error = ''failed to flush WAL''\<rparr>, \<lparr>do_ok = True, do_error = []\<rparr>}"
proof (rule session_call_ok [OF assms(1,2)])
  fix s
  assume s: "kvs_ok s" "kvs_get s = kvs_get (fst st)" "DeleteObject now_ms s b k = (fst st', r)"
  show ?thesis using DeleteObject_effect [OF s(3,1)] GetObject_cong [OF s(2)] assms(3) by simp
qed

section \<open>Small stores\<close>

text \<open>
  The store of a short process: nothing on its way to a table, \<open>b\<close> more bytes fit into the active one, and file and
  buffer of the log together hold the current values.  Unlike in \<^const>\<open>calm\<close>, values may start with blanks, as the
  pieces an object is cut into do.
\<close>

definition small_store :: "string \<Rightarrow> nat \<Rightarrow> kvs \<Rightarrow> bool" where
  "small_store wpath b s \<longleftrightarrow> kvs_ok s \<and> fs_sound (snd s) \<and> in_work (kv_worker (fst s)) = []
     \<and> unat (approximate_size_bytes (kv_memtable (fst s))) + b < unat kMemTableFlushThresholdBytes
     \<and> (\<exists>F B. log_inv wpath F B (fst s) (snd s) \<and> latest (F @ B) = kvs_get s)"

lemma small_store_less: "\<lbrakk>small_store wpath b s; b' \<le> b\<rbrakk> \<Longrightarrow> small_store wpath b' s"
  by (auto simp: small_store_def)

lemma small_tail:
  assumes "log_inv wpath F B kv fs" "fs_sound fs" "approximate_size_bytes (kv_memtable kv) < kMemTableFlushThresholdBytes"
    and "write_tail kv fs q = (kv', fs', ok)"
  shows "ok \<and> fs_sound fs' \<and> (\<exists>w F' B'. kv' = kv\<lparr>kv_wal := w\<rparr> \<and> F' @ B' = F @ B \<and> log_inv wpath F' B' kv' fs')"
proof (cases "q mod word_of_int (kv_group kv) = 0")
  case True
  obtain w f b where w: "wal_flush (kv_wal kv) fs = (w, f, b)" by (metis prod_cases3)
  with True assms(3,4) have "kv' = kv\<lparr>kv_wal := w\<rparr>" "fs' = f" "ok = b" by (auto simp: write_tail_def maybe_flush_memtable_def)
  with wal_flush_log [OF assms(1,2) w] show ?thesis by (metis append_Nil2)
next
  case False
  with assms(3,4) have "kv' = kv" "fs' = fs" ok by (auto simp: write_tail_def maybe_flush_memtable_def)
  with assms(1,2) show ?thesis by (intro conjI exI [of _ "kv_wal kv"] exI [of _ F] exI [of _ B]) auto
qed

text \<open>One more version of a key in log, map and active table.\<close>

lemma small_write:
  assumes "small_store wpath (b + (length k + c + 56)) s" "length k + length (case_option [] id x) \<le> length k + c"
    and kv1: "kv1 = (fst s)\<lparr>kv_seq := kv_seq (fst s) + 1,
            kv_wal := (kv_wal (fst s))\<lparr>wal_buffer := wal_buffer (kv_wal (fst s))
              @ [wal_encode (version_record (k, \<lparr>ver_timestamp = kv_seq (fst s) + 1, ver_value = x\<rparr>))]\<rparr>,
            kv_map := m, kv_memtable := t\<rparr>"
    and "map_of m = (map_of (kv_map (fst s)))(k := x)" "distinct (map fst m)"
    and "approximate_size_bytes t = approximate_size_bytes (kv_memtable (fst s)) + word_of_nat (length k + c + 56)"
    and "write_tail kv1 (snd s) q = (kv', fs', ok)"
  shows "ok \<and> small_store wpath b (kv', fs')"
proof -
  let ?op = "(k, \<lparr>ver_timestamp = kv_seq (fst s) + 1, ver_value = x\<rparr>)"
  obtain F B where log: "log_inv wpath F B (fst s) (snd s)" "latest (F @ B) = kvs_get s" and sound: "fs_sound (snd s)"
    using assms(1) by (auto simp: small_store_def)
  have size: "approximate_size_bytes t < kMemTableFlushThresholdBytes"
    "unat (approximate_size_bytes t) + b < unat kMemTableFlushThresholdBytes"
    using table_grows [OF _ assms(6), of b] assms(1) by (simp_all add: small_store_def)
  have "length k < 2 ^ 32" "length (case_option [] id x) < 2 ^ 32"
    using assms(1,2) by (simp_all add: small_store_def kMemTableFlushThresholdBytes_def)
  then have "wal_ok (version_record ?op)" by (cases x) (simp_all add: wal_ok_def version_record_def)
  then have "log_inv wpath F (B @ [?op]) kv1 (snd s)" using log(1) by (auto simp: log_inv_def kv1)
  from small_tail [OF this sound _ assms(7)] size(1) obtain w F' B' where t: ok "fs_sound fs'" "kv' = kv1\<lparr>kv_wal := w\<rparr>"
    "F' @ B' = F @ B @ [?op]" "log_inv wpath F' B' kv' fs'"
    by (auto simp: kv1)
  have "latest (F' @ B') = kvs_get (kv', fs')"
    using latest_snoc [of "F @ B" k] log(2) assms(4) by (simp add: t(3,4) kv1 kvs_get_def kv_get_def fun_eq_iff)
  then have "\<exists>F B. log_inv wpath F B kv' fs' \<and> latest (F @ B) = kvs_get (kv', fs')" using t(5) by blast
  moreover have "wal_open (kv_wal kv')" using t(5) by (simp add: log_inv_def)
  ultimately show ?thesis using t(1,2) size(2) assms(1,5) by (simp add: small_store_def kvs_ok_def t(3) kv1)
qed

lemma small_put:
  assumes "small_store wpath (b + (length k + length v + 56)) s"
  shows "small_store wpath b (kvs_put s k v)"
proof -
  let ?kv = "fst s" and ?q = "kv_seq (fst s) + 1"
  let ?kv1 = "?kv\<lparr>kv_seq := ?q,
            kv_wal := (kv_wal ?kv)\<lparr>wal_buffer := wal_buffer (kv_wal ?kv) @ [wal_encode (version_record (k, \<lparr>ver_timestamp = ?q, ver_value = Some v\<rparr>))]\<rparr>,
            kv_map := AList.update k v (kv_map ?kv), kv_memtable := memtable_put k ?q v (kv_memtable ?kv)\<rparr>"
  have ok: "kvs_ok s" using assms by (simp add: small_store_def)
  obtain kv' fs' b' where t: "write_tail ?kv1 (snd s) ?q = (kv', fs', b')" by (metis prod_cases3)
  have "kvs_put s k v = (kv', fs')"
    using ok kv_put_tail [of ?kv "snd s" k v] t by (simp add: kvs_put_def kvs_ok_def Let_def)
  moreover have "small_store wpath b (kv', fs')"
    using ok by (intro conjunct2 [OF small_write [OF assms _ refl _ _ _ t]])
      (simp_all add: update_conv' distinct_update kvs_ok_def approximate_size_bytes_def memtable_put_def sizeof_Timestamp_def sizeof_Version_def)
  ultimately show ?thesis by simp
qed

lemma small_del:
  assumes "small_store wpath (b + (length k + 56)) s" "kvs_get s k \<noteq> None"
  shows "snd (kvs_del s k) \<and> small_store wpath b (fst (kvs_del s k))"
proof -
  let ?kv = "fst s" and ?q = "kv_seq (fst s) + 1"
  let ?kv1 = "?kv\<lparr>kv_seq := ?q,
            kv_wal := (kv_wal ?kv)\<lparr>wal_buffer := wal_buffer (kv_wal ?kv) @ [wal_encode (version_record (k, \<lparr>ver_timestamp = ?q, ver_value = None\<rparr>))]\<rparr>,
            kv_memtable := memtable_del k ?q (kv_memtable ?kv), kv_map := AList.delete k (kv_map ?kv)\<rparr>"
  have ok: "kvs_ok s" using assms by (simp add: small_store_def)
  obtain y where y: "map_of (kv_map ?kv) k = Some y" using assms(2) by (auto simp: kvs_get_def kv_get_def)
  obtain kv' fs' b' where t: "write_tail ?kv1 (snd s) ?q = (kv', fs', b')" by (metis prod_cases3)
  have "kvs_del s k = ((kv', fs'), b')"
    using ok kv_del_tail [OF _ _ y, of "snd s"] t by (simp add: kvs_del_def kvs_ok_def Let_def)
  moreover have "b' \<and> small_store wpath b (kv', fs')"
    using ok assms(1) by (intro small_write [where c = 0 and m = "AList.delete k (kv_map ?kv)" and t = "memtable_del k ?q (kv_memtable ?kv)", OF _ _ _ _ _ _ t] kv_store.equality)
      (simp_all add: delete_conv' distinct_delete kvs_ok_def approximate_size_bytes_def memtable_del_def sizeof_Timestamp_def sizeof_Version_def)
  ultimately show ?thesis by simp
qed

lemma small_flush:
  assumes "small_store wpath b s"
  shows "snd (kvs_flush s) \<and> small_store wpath b (fst (kvs_flush s)) \<and> wal_buffer (kv_wal (fst (fst (kvs_flush s)))) = []"
proof -
  obtain F B where log: "log_inv wpath F B (fst s) (snd s)" "latest (F @ B) = kvs_get s" and sound: "fs_sound (snd s)"
    using assms by (auto simp: small_store_def)
  obtain w fs' ok where w: "wal_flush (kv_wal (fst s)) (snd s) = (w, fs', ok)" by (metis prod_cases3)
  have k: "kvs_flush s = (((fst s)\<lparr>kv_wal := w\<rparr>, fs'), ok)" by (simp add: kvs_flush_def kv_flush_wal_def w)
  have ok: "kvs_ok s" using assms by (simp add: small_store_def)
  have "kvs_ok (fst (kvs_flush s))" "kvs_get (fst (kvs_flush s)) = kvs_get s" using kvs.flush_ok [OF ok] kvs.get_flush [OF ok] by auto
  moreover have f: ok "fs_sound fs'" "log_inv wpath (F @ B) [] ((fst s)\<lparr>kv_wal := w\<rparr>) fs'"
    using wal_flush_log [OF log(1) sound w] by auto
  moreover have "latest ((F @ B) @ []) = kvs_get (fst (kvs_flush s))" using log(2) kvs.get_flush [OF ok] by simp
  then have "\<exists>F' B'. log_inv wpath F' B' ((fst s)\<lparr>kv_wal := w\<rparr>) fs' \<and> latest (F' @ B') = kvs_get ((fst s)\<lparr>kv_wal := w\<rparr>, fs')"
    using f(3) unfolding k fst_conv by blast
  ultimately show ?thesis using assms by (simp add: k small_store_def log_inv_def)
qed

lemma small_thread:
  assumes "small_store wpath b (fst st)"
  shows "small_store wpath b (fst (flush_thread st))"
proof -
  obtain kv fs sched where st: "st = ((kv, fs), sched)" by (metis prod.exhaust)
  have idle: "in_work (kv_worker kv) = []" using assms by (simp add: small_store_def st)
  show ?thesis
  proof (cases sched)
    case Nil
    then show ?thesis using assms by (simp add: flush_thread_def st)
  next
    case (Cons n ns)
    obtain pc where "thread_steps n kv fs = (kv\<lparr>kv_worker := (kv_worker kv)\<lparr>fw_pc := pc\<rparr>\<rparr>, fs)"
      "in_work ((kv_worker kv)\<lparr>fw_pc := pc\<rparr>) = []"
      using idle_steps [OF idle] by blast
    then show ?thesis
      using assms Cons by (simp add: flush_thread_def st small_store_def kvs_ok_def log_inv_def kvs_get_def kv_get_def fun_eq_iff)
  qed
qed

text \<open>The first process on a disk, and the next one on the files it leaves.\<close>

lemma small_open:
  assumes "fresh_disk fs wpath" "kv_open srt kv_init fs wpath = (kv, fs', ok)"
  shows "ok \<and> small_store wpath 4000000 (kv, fs') \<and> kvs_get (kv, fs') = Map.empty"
proof -
  obtain f where o: "kv_open srt kv_init fs wpath = (kv_init\<lparr>kv_wal := wal_init\<lparr>wal_open := True, wal_path := wpath\<rparr>, kv_opened := True,
        kv_manifest := manifest_file, kv_worker := worker_start worker_init\<rparr>, f, True)"
    "fs_sound f" "fs_content f wpath = []" "fs_files f snapshot_file = None"
    using open_fresh [OF assms(1), of srt] by blast
  then have kv: "kv = kv_init\<lparr>kv_wal := wal_init\<lparr>wal_open := True, wal_path := wpath\<rparr>, kv_opened := True,
        kv_manifest := manifest_file, kv_worker := worker_start worker_init\<rparr>" "fs' = f" ok
    using assms(2) by simp_all
  have get: "kvs_get (kv, fs') = Map.empty" by (simp add: kvs_get_def kv_get_def kv kv_init_def fun_eq_iff)
  have "log_inv wpath [] [] kv fs'" using o assms(1) by (simp add: log_inv_def kv wal_init_def fresh_disk_def)
  moreover have "latest ([] @ []) = kvs_get (kv, fs')" by (simp add: get latest_def hist_of_def fun_eq_iff)
  ultimately have "\<exists>F B. log_inv wpath F B kv fs' \<and> latest (F @ B) = kvs_get (kv, fs')" by blast
  then show ?thesis using get o(2)
    by (simp add: small_store_def kvs_ok_def kv kv_init_def wal_init_def worker_start_def worker_init_def in_work_def
        memtable_init_def approximate_size_bytes_def kMemTableFlushThresholdBytes_def)
qed

lemma small_reopen:
  assumes "small_store wpath b s" "wal_buffer (kv_wal (fst s)) = []"
    and "kv_open srt kv_init (snd (kv_destroy s)) wpath = (kv', fs', ok)"
  shows "ok \<and> kvs_get (kv', fs') = kvs_get s"
proof -
  obtain kv fs where s: "s = (kv, fs)" by fastforce
  obtain m where "snd (kv_destroy s) = snd (thread_steps m kv fs)" using kv_destroy_steps s by metis
  moreover have "in_work (kv_worker kv) = []" using assms(1) by (simp add: small_store_def s)
  ultimately have d: "snd (kv_destroy s) = fs" using idle_steps by (metis snd_conv)
  obtain F B where log: "log_inv wpath F B kv fs" "latest (F @ B) = kvs_get s" and sound: "fs_sound fs"
    using assms(1) by (auto simp: small_store_def s)
  have F: "B = []" "fs_files fs snapshot_file = None" "fs_content fs wpath = concat (map (wal_encode \<circ> version_record) F)"
    "\<forall>op\<in>set F. wal_ok (version_record op)"
    using log(1) assms(2) by (auto simp: log_inv_def s)
  obtain w fs2 kv4 kv5 b' where o: "maybe_compact_sstables srt kv4 fs2 = (kv5, fs', b')" ok
    "kv4 = (fold restore F (kv_init\<lparr>kv_wal := wal_init\<lparr>wal_path := wpath, wal_open := True,
         wal_pos := length (fs_content fs wpath)\<rparr>\<rparr>))\<lparr>kv_wal := w, kv_seq := last_seq F, kv_opened := True,
         kv_manifest := manifest_file, kv_paths := load_sstables fs manifest_file,
         kv_next_id := max_sstable_id (load_sstables fs manifest_file)\<rparr>"
    "kv' = kv5\<lparr>kv_worker := worker_start (kv_worker kv5), kv_next_id := word_of_nat (length (kv_paths kv5))\<rparr>"
    using open_recovers [OF sound load_no_snapshot [OF F(2)] F(3,4)] assms(3) unfolding d by blast
  have "kv_map kv' = kv_map kv4" using maybe_compact_fields [OF o(1)] by (auto simp: o(4))
  then have "map_of (kv_map kv') = latest F" using fold_restore_map [of _ F] by (simp add: o(3) kv_init_def)
  then show ?thesis using o(2) log(2) F(1) by (simp add: kvs_get_def kv_get_def fun_eq_iff)
qed

section \<open>The size of an upload\<close>

definition write_cost :: "(string \<times> string) list \<Rightarrow> nat" where
  "write_cost ws = sum_list (map (\<lambda>(k, v). length k + length v + 56) ws)"

lemma small_writes: "small_store wpath (b + write_cost ws) s \<Longrightarrow> small_store wpath b (do_writes ws s)"
proof (induction ws arbitrary: s)
  case (Cons w ws)
  obtain k v where w: "w = (k, v)" by fastforce
  have "small_store wpath (b + write_cost ws) (kvs_put s k v)"
    using Cons.prems by (intro small_put) (simp add: write_cost_def w ac_simps)
  from Cons.IH [OF this] show ?case by (simp add: do_writes_def w)
qed (simp add: write_cost_def)

lemma upload_cost:
  assumes "length (pr_bucket req) + length (pr_key req) \<le> l" "length (pr_content_type req) \<le> 20"
  shows "write_cost (put_writes cs hash id_ms now_ms req)
    \<le> unat (chunk_count_of cs (pr_data req)) * (l + unat cs + 120) + 5 * l + 500"
proof -
  let ?m = "put_metadata cs hash id_ms now_ms req"
  have id: "length (om_id ?m) \<le> l + 22"
    using assms(1) length_show_word(1) [of id_ms] by (simp add: put_metadata_def make_object_id_def)
  have "length (ChunkKey (om_id ?m) i) + length (chunk_at cs (pr_data req) j) + 56 \<le> l + unat cs + 120" for i j
    using id length_show_word(2) [of i] by (simp add: ChunkKey_def chunk_at_take)
  then have "write_cost (chunk_writes cs (om_id ?m) (pr_data req)) \<le> unat (chunk_count_of cs (pr_data req)) * (l + unat cs + 120)"
    unfolding write_cost_def chunk_writes_def using sum_list_bound [of "[0..<unat (chunk_count_of cs (pr_data req))]" _ "l + unat cs + 120"]
    by (simp add: o_def)
  moreover have "length (serialize_metadata ?m) \<le> 2 * l + 250"
    using assms id length_show_word(1) [of "om_size ?m"] length_show_word(2) [of "om_chunk_count ?m"]
      length_show_word(2) [of "om_chunk_size ?m"] length_show_word(1) [of "om_created ?m"] length_show_word(1) [of "om_updated ?m"]
      length_show_word(3) [of "om_state ?m"] length_show_word(4) [of "hash (pr_data req)"]
    by (simp add: serialize_metadata_def) (simp add: put_metadata_def compute_etag_def)
  ultimately show ?thesis
    using assms id by (simp add: put_writes_def object_writes_def write_cost_def ObjectMetaKey_def BucketIndexKey_def)
qed

section \<open>Object operations on a small store\<close>

lemma session_call_small:
  assumes "session_call f st = (st', r)" "small_store wpath b (fst st)"
  obtains s where "small_store wpath b s" "kvs_get s = kvs_get (fst st)" "f s = (fst st', r)"
proof -
  have "f (fst (flush_thread st)) = (fst st', r)"
    using assms(1) by (auto simp: session_call_def Let_def split: prod.splits)
  then show ?thesis using that small_thread [OF assms(2)] thread_get by blast
qed

lemma small_CreateBucket:
  assumes "CreateBucket now_ms s b = (s', created)" "small_store wpath (n + 200) s" "b \<noteq> []" "length b \<le> 20"
  shows "created \<and> small_store wpath n s' \<and> BucketExists s' b"
proof -
  have ok: "kvs_ok s" using assms(2) by (simp add: small_store_def)
  let ?v = "serialize_bucket_meta \<lparr>bm_name = b, bm_created = now_ms\<rparr>"
  have "length (BucketMetaKey b) + length ?v + 56 \<le> 200"
    using assms(4) length_show_word(1) [of now_ms] by (simp add: BucketMetaKey_def serialize_bucket_meta_def)
  then have "small_store wpath n (kvs_put s (BucketMetaKey b) ?v)" "small_store wpath n s"
    using assms(2) by (auto intro!: small_put elim!: small_store_less)
  moreover have "s' = s \<or> s' = kvs_put s (BucketMetaKey b) ?v" using assms(1) by (auto simp: CreateBucket_def split: if_splits)
  ultimately show ?thesis using CreateBucket_effect [OF assms(1) ok assms(3)] by auto
qed

lemma small_started:
  assumes "fresh_disk fs wpath" "kv_open srt kv_init fs wpath = (kv, fs1, ok)" "n \<le> 3000000"
    and "session_call (\<lambda>s. CreateBucket now_ms s b) ((kv, fs1), sched) = (st, created)" "b \<noteq> []" "length b \<le> 20"
  shows "ok \<and> created \<and> small_store wpath n (fst st) \<and> (\<exists>raw. kvs_get (fst st) = [BucketMetaKey b \<mapsto> raw])"
proof -
  have o: ok "small_store wpath (n + 200) (fst ((kv, fs1), sched))" "kvs_get (fst ((kv, fs1), sched)) = Map.empty"
    using small_open [OF assms(1,2)] small_store_less [of wpath 4000000 "(kv, fs1)" "n + 200"] assms(3) by simp_all
  obtain s0 where s0: "small_store wpath (n + 200) s0" "kvs_get s0 = Map.empty" "CreateBucket now_ms s0 b = (fst st, created)"
    using session_call_small [OF assms(4) o(2)] o(3) by metis
  obtain raw where "fst st = kvs_put s0 (BucketMetaKey b) raw" using s0(2,3) assms(5) by (auto simp: CreateBucket_def dest: sym)
  moreover have "kvs_ok s0" using s0(1) by (simp add: small_store_def)
  ultimately have "kvs_get (fst st) = [BucketMetaKey b \<mapsto> raw]" using s0(2) by (simp add: kvs.get_put)
  with o(1) small_CreateBucket [OF s0(3,1) assms(5,6)] show ?thesis by blast
qed

lemma small_PutObject:
  assumes "PutObject cs hash id_ms now_ms s req = (s', r)" "BucketExists s (pr_bucket req)" "pr_key req \<noteq> []"
    and "small_store wpath (n + write_cost (put_writes cs hash id_ms now_ms req)) s"
  shows "small_store wpath n s' \<and> wal_buffer (kv_wal (fst s')) = []
    \<and> kvs_get s' = kvs_get (do_writes (put_writes cs hash id_ms now_ms req) s)
    \<and> (let m = put_metadata cs hash id_ms now_ms req
       in r = \<lparr>po_ok = True, po_error = [], po_id = om_id m, po_size = om_size m, po_chunk_count = om_chunk_count m, po_etag = om_etag m\<rparr>)"
proof -
  let ?s = "do_writes (put_writes cs hash id_ms now_ms req) s"
  have ok: "kvs_ok ?s" using assms(4) by (simp add: small_store_def do_writes_ok)
  from PutObject_run [OF assms(2,3), of cs hash id_ms now_ms] assms(1) small_flush [OF small_writes [OF assms(4)]] kvs.get_flush [OF ok]
  show ?thesis by (auto simp: Let_def split: prod.splits)
qed

text \<open>Collecting chunks counts exactly the deleted ones.\<close>

lemma gc_count:
  "\<lbrakk>small_store wpath (b + sum_list (map (\<lambda>k. length k + 56) ks)) s; distinct ks; \<forall>k \<in> set ks. kvs_get s k \<noteq> None\<rbrakk> \<Longrightarrow>
    snd (foldl (gc_chunk ids) (s, n) ks) = n + length (filter (garbage (set ids)) ks)"
proof (induction ks arbitrary: s n)
  case (Cons x ks)
  show ?case
  proof (cases "garbage (set ids) x")
    case False
    then have "gc_chunk ids (s, n) x = (s, n)" by (auto simp: gc_chunk_def garbage_def split: option.splits)
    moreover have "small_store wpath (b + sum_list (map (\<lambda>k. length k + 56) ks)) s" by (rule small_store_less [OF Cons.prems(1)]) simp
    ultimately show ?thesis using False Cons.IH [of s n] Cons.prems by simp
  next
    case True
    obtain s1 ok where d: "kvs_del s x = (s1, ok)" by fastforce
    have "kvs_ok s" using Cons.prems(1) by (simp add: small_store_def)
    then have get: "kvs_get s1 = (kvs_get s)(x := None)" using kvs.get_del [of s x] d by simp
    have "small_store wpath (b + sum_list (map (\<lambda>k. length k + 56) ks) + (length x + 56)) s"
      using Cons.prems(1) by (simp add: ac_simps)
    from small_del [OF this] Cons.prems(3) d
    have del: ok "small_store wpath (b + sum_list (map (\<lambda>k. length k + 56) ks)) s1" by auto
    have "gc_chunk ids (s, n) x = (s1, n + 1)" using True d del(1) by (auto simp: gc_chunk_def garbage_def split: option.splits)
    moreover have "\<forall>k \<in> set ks. kvs_get s1 k \<noteq> None" using Cons.prems(2,3) by (auto simp: get)
    ultimately show ?thesis using True Cons.IH [OF del(2)] Cons.prems(2) by simp
  qed
qed simp

end
