(* ===== verification/Object_Demos.thy ===== *)
theory Object_Demos
  imports Object_Session Benchmarks
begin

text \<open>
  The demonstration programs for the object store: \<^verbatim>\<open>src/object_store_demo.cpp\<close>, the pair \<^verbatim>\<open>src/object_store_write_demo.cpp\<close>
  and \<^verbatim>\<open>src/object_store_recover_demo.cpp\<close>, \<^verbatim>\<open>src/object_store_list_demo.cpp\<close> and \<^verbatim>\<open>src/object_store_gc_demo.cpp\<close>.  A program
  maps the disk to the disk, the exit status and the printed text; \<open>hash\<close> is \<^verbatim>\<open>std::hash\<close>, \<open>clock\<close> gives the successive
  readings of the clock in milliseconds, and \<open>sched\<close> says how many steps the flush thread makes before each call of
  the object store.  Nothing the programs call throws, so their handlers for exceptions are left out.
\<close>

section \<open>Programs\<close>

definition demo_chunk_size :: u32 where
  "demo_chunk_size = object_store_chunk_size 8"

definition put_report :: "put_object_result \<Rightarrow> string" where
  "put_report r = ''  object_id   = '' @ po_id r @ [NL] @ ''  size_bytes  = '' @ show_nat (unat (po_size r)) @ [NL]
     @ ''  chunk_count = '' @ show_nat (unat (po_chunk_count r)) @ [NL] @ ''  etag        = '' @ po_etag r @ [NL]"

definition get_report :: "get_object_result \<Rightarrow> string" where
  "get_report r = (let m = go_metadata r
     in ''  bucket       = '' @ om_bucket m @ [NL] @ ''  key          = '' @ om_key m @ [NL]
        @ ''  object_id    = '' @ om_id m @ [NL] @ ''  size_bytes   = '' @ show_nat (unat (om_size m)) @ [NL]
        @ ''  chunk_count  = '' @ show_nat (unat (om_chunk_count m)) @ [NL] @ ''  content_type = '' @ om_content_type m @ [NL]
        @ ''  etag         = '' @ om_etag m @ [NL] @ ''  data         = '' @ go_data r @ [NL])"

definition demo_request :: "string \<Rightarrow> string \<Rightarrow> put_object_request" where
  "demo_request key data = \<lparr>pr_bucket = ''photos'', pr_key = key, pr_data = data, pr_content_type = ''text/plain''\<rparr>"

definition hello_key :: string where
  "hello_key = ''trip/hello.txt''"

definition hello_request :: put_object_request where
  "hello_request = demo_request hello_key ''Hello from MiniS3 built on KVStore!''"

definition object_store_demo ::
  "(version list \<Rightarrow> version list) \<Rightarrow> (string \<Rightarrow> u64) \<Rightarrow> (nat \<Rightarrow> u64) \<Rightarrow> nat list \<Rightarrow> fsys \<Rightarrow> fsys \<times> nat \<times> string" where
  "object_store_demo srt hash clock sched fs =
     (let (kv, fs1, opened) = kv_open srt kv_init fs ''/tmp/kv.wal''
      in if \<not> opened then (snd (kv_destroy (kv, fs1)), 1, ''Failed to open KVStore WAL'' @ [NL])
         else let out0 = ''=== Mini Object Store Demo ==='' @ [NL];
                  (st1, created) = session_call (\<lambda>s. CreateBucket (clock 0) s ''photos'') ((kv, fs1), sched)
              in if \<not> created then (snd (kv_destroy (fst st1)), 1, out0 @ ''CreateBucket failed'' @ [NL])
                 else let out1 = out0 @ ''Created bucket: '' @ ''photos'' @ [NL];
                          (st2, put_res) = session_call (\<lambda>s. PutObject demo_chunk_size hash (clock 1) (clock 2) s hello_request) st1
                      in if \<not> po_ok put_res
                         then (snd (kv_destroy (fst st2)), 1, out1 @ ''PutObject failed: '' @ po_error put_res @ [NL])
                         else let out2 = out1 @ ''PutObject OK'' @ [NL] @ put_report put_res;
                                  (st3, get_res) = session_call (\<lambda>s. (s, GetObject s ''photos'' hello_key)) st2
                              in if \<not> go_found get_res
                                 then (snd (kv_destroy (fst st3)), 1, out2 @ ''GetObject failed: '' @ go_error get_res @ [NL])
                                 else let out3 = out2 @ [NL] @ ''GetObject OK'' @ [NL] @ get_report get_res;
                                          (st4, del_res) = session_call (\<lambda>s. DeleteObject (clock 3) s ''photos'' hello_key) st3
                                      in if \<not> do_ok del_res
                                         then (snd (kv_destroy (fst st4)), 1, out3 @ ''DeleteObject failed: '' @ do_error del_res @ [NL])
                                         else let out4 = out3 @ [NL] @ ''DeleteObject OK'' @ [NL];
                                                  (st5, again) = session_call (\<lambda>s. (s, GetObject s ''photos'' hello_key)) st4
                                              in if go_found again
                                                 then (snd (kv_destroy (fst st5)), 1,
                                                   out4 @ ''Expected object to be deleted, but it was still found'' @ [NL])
                                                 else (snd (kv_destroy (fst st5)), 0,
                                                   out4 @ ''Get after delete correctly failed: '' @ go_error again @ [NL]
                                                   @ [NL] @ ''=== Demo completed successfully ==='' @ [NL]))"

text \<open>Two processes: one uploads, the next reads what the first left.\<close>

definition object_demo_wal :: string where
  "object_demo_wal = ''/tmp/kv_object_demo.wal''"

definition recovery_key :: string where
  "recovery_key = ''trip/recovery.txt''"

definition recovery_request :: put_object_request where
  "recovery_request = demo_request recovery_key ''Recovered object data after restart!''"

definition object_store_write_demo ::
  "(version list \<Rightarrow> version list) \<Rightarrow> (string \<Rightarrow> u64) \<Rightarrow> (nat \<Rightarrow> u64) \<Rightarrow> nat list \<Rightarrow> fsys \<Rightarrow> fsys \<times> nat \<times> string" where
  "object_store_write_demo srt hash clock sched fs =
     (let (kv, fs1, opened) = kv_open srt kv_init fs object_demo_wal
      in if \<not> opened then (snd (kv_destroy (kv, fs1)), 1, ''Failed to open KVStore WAL'' @ [NL])
         else let (st1, created) = session_call (\<lambda>s. CreateBucket (clock 0) s ''photos'') ((kv, fs1), sched)
              in if \<not> created then (snd (kv_destroy (fst st1)), 1, ''CreateBucket failed'' @ [NL])
                 else let (st2, put_res) = session_call (\<lambda>s. PutObject demo_chunk_size hash (clock 1) (clock 2) s recovery_request) st1
                      in if \<not> po_ok put_res
                         then (snd (kv_destroy (fst st2)), 1, ''PutObject failed: '' @ po_error put_res @ [NL])
                         else (snd (kv_destroy (fst st2)), 0, ''Write phase complete'' @ [NL] @ put_report put_res
                           @ ''Safe to terminate and restart recovery demo.'' @ [NL]))"

definition object_store_recover_demo ::
  "(version list \<Rightarrow> version list) \<Rightarrow> nat list \<Rightarrow> fsys \<Rightarrow> fsys \<times> nat \<times> string" where
  "object_store_recover_demo srt sched fs =
     (let (kv, fs1, opened) = kv_open srt kv_init fs object_demo_wal
      in if \<not> opened then (snd (kv_destroy (kv, fs1)), 1, ''Failed to open KVStore WAL'' @ [NL])
         else let (st1, get_res) = session_call (\<lambda>s. (s, GetObject s ''photos'' recovery_key)) ((kv, fs1), sched)
              in if \<not> go_found get_res
                 then (snd (kv_destroy (fst st1)), 1, ''Recovery failed: '' @ go_error get_res @ [NL])
                 else (snd (kv_destroy (fst st1)), 0, ''Recovery phase successful'' @ [NL] @ get_report get_res))"

definition list_demo_wal :: string where
  "list_demo_wal = ''/tmp/kv_list_demo.wal''"

definition list_line :: "object_list_entry \<Rightarrow> string" where
  "list_line obj = oe_key obj @ '' size='' @ show_nat (unat (oe_size obj)) @ [NL]"

definition object_store_list_demo ::
  "(version list \<Rightarrow> version list) \<Rightarrow> (string \<Rightarrow> u64) \<Rightarrow> (nat \<Rightarrow> u64) \<Rightarrow> nat list \<Rightarrow> fsys \<Rightarrow> fsys \<times> nat \<times> string" where
  "object_store_list_demo srt hash clock sched fs =
     (let (kv, fs1, opened) = kv_open srt kv_init fs list_demo_wal
      in if \<not> opened then (snd (kv_destroy (kv, fs1)), 1, ''Failed to open store'' @ [NL])
         else let put = (\<lambda>i key data. \<lambda>s. PutObject demo_chunk_size hash (clock i) (clock (i + 1)) s (demo_request key data));
                  (st1, _) = session_call (\<lambda>s. CreateBucket (clock 0) s ''photos'') ((kv, fs1), sched);
                  (st2, _) = session_call (put 1 ''trip/a.txt'' ''aaa'') st1;
                  (st3, _) = session_call (put 3 ''trip/b.txt'' ''bbb'') st2;
                  (st4, _) = session_call (put 5 ''notes/c.txt'' ''ccc'') st3;
                  (st5, res) = session_call (\<lambda>s. (s, ListObjects s ''photos'' ''trip/'')) st4
              in (snd (kv_destroy (fst st5)), 0,
                  concat (map list_line (lo_objects res))))"

definition gc_demo_wal :: string where
  "gc_demo_wal = ''/tmp/kv_gc_demo.wal''"

definition object_store_gc_demo ::
  "(version list \<Rightarrow> version list) \<Rightarrow> (string \<Rightarrow> u64) \<Rightarrow> (nat \<Rightarrow> u64) \<Rightarrow> nat list \<Rightarrow> fsys \<Rightarrow> fsys \<times> nat \<times> string" where
  "object_store_gc_demo srt hash clock sched fs =
     (let (kv, fs1, opened) = kv_open srt kv_init fs gc_demo_wal
      in if \<not> opened then (snd (kv_destroy (kv, fs1)), 1, ''Failed to open KVStore'' @ [NL])
         else let put = (\<lambda>i data. \<lambda>s. PutObject demo_chunk_size hash (clock i) (clock (i + 1)) s (demo_request ''trip/a.txt'' data));
                  (st1, _) = session_call (\<lambda>s. CreateBucket (clock 0) s ''photos'') ((kv, fs1), sched);
                  (st2, _) = session_call (put 1 ''old-data'') st1;
                  (st3, _) = session_call (put 3 ''new-data'') st2;
                  (st4, get_res) = session_call (\<lambda>s. (s, GetObject s ''photos'' ''trip/a.txt'')) st3;
                  (st5, deleted) = session_call GarbageCollectChunks st4
              in (snd (kv_destroy (fst st5)), 0,
                  (if go_found get_res then ''Current object data: '' @ go_data get_res @ [NL] else [])
                  @ ''GC deleted chunks: '' @ show_nat deleted @ [NL]))"

section \<open>Upload, download, deletion\<close>

lemma demo_chunk_size_8 [simp]: "demo_chunk_size = 8"
  by (simp add: demo_chunk_size_def object_store_chunk_size_def)

lemma demo_request_fields [simp]:
  "pr_bucket (demo_request k d) = ''photos''" "pr_key (demo_request k d) = k" "pr_data (demo_request k d) = d"
  "pr_content_type (demo_request k d) = ''text/plain''"
  by (simp_all add: demo_request_def)

text \<open>What the program prints before its upload, and between upload and deletion.\<close>

definition hello_started :: string where
  "hello_started = ''=== Mini Object Store Demo ==='' @ [NL] @ ''Created bucket: photos'' @ [NL]"

definition hello_shown :: "string \<Rightarrow> string \<Rightarrow> string" where
  "hello_shown oid etag = hello_started @ ''PutObject OK'' @ [NL]
     @ ''  object_id   = '' @ oid @ [NL] @ ''  size_bytes  = 35'' @ [NL] @ ''  chunk_count = 5'' @ [NL]
     @ ''  etag        = '' @ etag @ [NL] @ [NL] @ ''GetObject OK'' @ [NL]
     @ ''  bucket       = photos'' @ [NL] @ ''  key          = trip/hello.txt'' @ [NL] @ ''  object_id    = '' @ oid @ [NL]
     @ ''  size_bytes   = 35'' @ [NL] @ ''  chunk_count  = 5'' @ [NL] @ ''  content_type = text/plain'' @ [NL]
     @ ''  etag         = '' @ etag @ [NL] @ ''  data         = Hello from MiniS3 built on KVStore!'' @ [NL]"

lemma hello_request_ok:
  "chunks_fit 8 (pr_data hello_request)" "TAB \<notin> set (pr_bucket hello_request @ pr_key hello_request @ pr_content_type hello_request)"
  "pr_bucket hello_request = ''photos''" "pr_key hello_request = hello_key" "hello_key \<noteq> []"
  by (simp_all add: hello_request_def chunks_fit_def hello_key_def)

lemma hello_metadata:
  "put_metadata 8 hash id_ms now_ms hello_request =
     \<lparr>om_id = make_object_id ''photos'' hello_key id_ms, om_bucket = ''photos'', om_key = hello_key, om_size = 35, om_chunk_count = 5,
      om_chunk_size = 8, om_content_type = ''text/plain'', om_etag = compute_etag hash (pr_data hello_request), om_created = now_ms,
      om_updated = now_ms, om_state = ObjCommitted\<rparr>"
  by (simp add: put_metadata_def hello_request_def chunk_count_of_def)

lemma hello_reports:
  "hello_shown (make_object_id ''photos'' hello_key id_ms) (compute_etag hash (pr_data hello_request)) =
    (let m = put_metadata 8 hash id_ms now_ms hello_request
     in hello_started @ ''PutObject OK'' @ [NL]
        @ put_report \<lparr>po_ok = True, po_error = [], po_id = om_id m, po_size = om_size m, po_chunk_count = om_chunk_count m, po_etag = om_etag m\<rparr>
        @ [NL] @ ''GetObject OK'' @ [NL] @ get_report (stored m (pr_data hello_request)))"
proof -
  have "show_nat 35 = ''35''" "show_nat 5 = ''5''" by (simp_all add: show_nat.simps digit_char_def char_of_def bit_Suc_0_iff)
  then show ?thesis
    unfolding hello_metadata by (simp add: hello_shown_def put_report_def get_report_def stored_def Let_def) (simp add: hello_key_def hello_request_def)
qed

text \<open>
  C34. The demonstration of the object store on every disk and for every schedule of the flush thread: it uploads, reads back
  the same bytes, deletes, and then finds the object deleted; the only other ends are a log that cannot be opened
  and a failed flush of the log, during the upload or during the deletion.
\<close>

theorem object_store_demo_output:
  "snd (object_store_demo srt hash clock sched fs) \<in>
     (let shown = hello_shown (make_object_id ''photos'' hello_key (clock 1)) (compute_etag hash (pr_data hello_request))
      in {(1, ''Failed to open KVStore WAL'' @ [NL]),
          (1, hello_started @ ''PutObject failed: failed to flush WAL'' @ [NL]),
          (1, shown @ ''DeleteObject failed: failed to flush WAL'' @ [NL]),
          (0, shown @ [NL] @ ''DeleteObject OK'' @ [NL] @ ''Get after delete correctly failed: object is deleted'' @ [NL]
              @ [NL] @ ''=== Demo completed successfully ==='' @ [NL])})"
proof -
  obtain kv fs1 ok where o: "kv_open srt kv_init fs ''/tmp/kv.wal'' = (kv, fs1, ok)" by (metis prod_cases3)
  show ?thesis
  proof (cases ok)
    case False
    then show ?thesis by (simp add: object_store_demo_def o Let_def)
  next
    case True
    obtain st1 created where c1: "session_call (\<lambda>s. CreateBucket (clock 0) s ''photos'') ((kv, fs1), sched) = (st1, created)" by fastforce
    obtain st2 r2 where c2: "session_call (\<lambda>s. PutObject 8 hash (clock 1) (clock 2) s hello_request) st1 = (st2, r2)" by fastforce
    obtain st3 r3 where c3: "session_call (\<lambda>s. (s, GetObject s ''photos'' hello_key)) st2 = (st3, r3)" by fastforce
    obtain st4 r4 where c4: "session_call (\<lambda>s. DeleteObject (clock 3) s ''photos'' hello_key) st3 = (st4, r4)" by fastforce
    obtain st5 r5 where c5: "session_call (\<lambda>s. (s, GetObject s ''photos'' hello_key)) st4 = (st5, r5)" by fastforce
    let ?m = "put_metadata 8 hash (clock 1) (clock 2) hello_request"
    have "kvs_ok (fst ((kv, fs1), sched))" using opened_kvs_ok o True by auto
    with session_create [OF c1] have 1: "created" "kvs_ok (fst st1)" "BucketExists (fst st1) (pr_bucket hello_request)"
      by (simp_all add: hello_request_ok)
    have 2: "kvs_ok (fst st2)" "GetObject (fst st2) ''photos'' hello_key = stored ?m (pr_data hello_request)"
      "r2 \<in> {put_failed ''failed to flush WAL'', \<lparr>po_ok = True, po_error = [], po_id = om_id ?m, po_size = om_size ?m,
         po_chunk_count = om_chunk_count ?m, po_etag = om_etag ?m\<rparr>}"
      using session_upload [OF c2 1(2,3) _ hello_request_ok(1,2)] by (simp_all add: hello_request_ok Let_def)
    have 3: "kvs_ok (fst st3)" "kvs_get (fst st3) = kvs_get (fst st2)" "r3 = stored ?m (pr_data hello_request)"
      using session_get [OF c3 2(1)] 2(2) by simp_all
    have 4: "kvs_ok (fst st4)" "GetObject (fst st4) ''photos'' hello_key = get_failed ''object is deleted'' metadata_default"
      "r4 \<in> {\<lparr>do_ok = False, do_error = ''failed to flush WAL''\<rparr>, \<lparr>do_ok = True, do_error = []\<rparr>}"
      using session_delete [OF c4 3(1)] GetObject_cong [OF 3(2)] 2(2) by simp_all
    have 5: "r5 = get_failed ''object is deleted'' metadata_default"
      using session_get [OF c5 4(1)] 4(2) by simp
    have found: "go_found r3" "\<not> go_found r5" by (simp_all add: 3(3) 5 stored_def get_failed_def)
    let ?shown = "hello_shown (make_object_id ''photos'' hello_key (clock 1)) (compute_etag hash (pr_data hello_request))"
    have shown: "?shown = hello_started @ ''PutObject OK'' @ [NL] @ put_report r2 @ [NL] @ ''GetObject OK'' @ [NL] @ get_report r3" if "po_ok r2"
    proof -
      have r2: "r2 = \<lparr>po_ok = True, po_error = [], po_id = om_id ?m, po_size = om_size ?m,
         po_chunk_count = om_chunk_count ?m, po_etag = om_etag ?m\<rparr>"
        using that 2(3) by (auto simp: put_failed_def)
      show ?thesis unfolding r2 3(3) hello_reports [where now_ms = "clock 2"] Let_def ..
    qed
    have "snd (object_store_demo srt hash clock sched fs) =
        (if \<not> po_ok r2 then (1, hello_started @ ''PutObject failed: '' @ po_error r2 @ [NL])
         else if \<not> do_ok r4 then (1, ?shown @ ''DeleteObject failed: '' @ do_error r4 @ [NL])
         else (0, ?shown @ [NL] @ ''DeleteObject OK'' @ [NL] @ ''Get after delete correctly failed: '' @ go_error r5 @ [NL]
              @ [NL] @ ''=== Demo completed successfully ==='' @ [NL]))"
      using 1(1) found shown by (simp add: object_store_demo_def o True c1 c2 c3 c4 c5 hello_started_def del: One_nat_def)
    then show ?thesis using 2(3) 4(3) 5 by (elim insertE emptyE) (simp_all add: put_failed_def get_failed_def Let_def)
  qed
qed

section \<open>Write and recover\<close>

definition recovered_text :: "string \<Rightarrow> string \<Rightarrow> string" where
  "recovered_text oid etag = ''Recovery phase successful'' @ [NL]
     @ ''  bucket       = photos'' @ [NL] @ ''  key          = trip/recovery.txt'' @ [NL] @ ''  object_id    = '' @ oid @ [NL]
     @ ''  size_bytes   = 36'' @ [NL] @ ''  chunk_count  = 5'' @ [NL] @ ''  content_type = text/plain'' @ [NL]
     @ ''  etag         = '' @ etag @ [NL] @ ''  data         = Recovered object data after restart!'' @ [NL]"

lemma recovery_request_ok:
  "chunks_fit 8 (pr_data recovery_request)" "TAB \<notin> set (pr_bucket recovery_request @ pr_key recovery_request @ pr_content_type recovery_request)"
  "pr_bucket recovery_request = ''photos''" "pr_key recovery_request = recovery_key" "recovery_key \<noteq> []"
  by (simp_all add: recovery_request_def chunks_fit_def recovery_key_def)

lemma recovery_report:
  "''Recovery phase successful'' @ [NL] @ get_report (stored (put_metadata 8 hash id_ms now_ms recovery_request) (pr_data recovery_request)) =
     recovered_text (make_object_id ''photos'' recovery_key id_ms) (compute_etag hash (pr_data recovery_request))"
proof -
  have m: "put_metadata 8 hash id_ms now_ms recovery_request =
     \<lparr>om_id = make_object_id ''photos'' recovery_key id_ms, om_bucket = ''photos'', om_key = recovery_key, om_size = 36, om_chunk_count = 5,
      om_chunk_size = 8, om_content_type = ''text/plain'', om_etag = compute_etag hash (pr_data recovery_request), om_created = now_ms,
      om_updated = now_ms, om_state = ObjCommitted\<rparr>"
    by (simp add: put_metadata_def recovery_request_def chunk_count_of_def)
  have "show_nat 36 = ''36''" "show_nat 5 = ''5''" by (simp_all add: show_nat.simps digit_char_def char_of_def bit_Suc_0_iff)
  then show ?thesis unfolding m by (simp add: recovered_text_def get_report_def stored_def Let_def) (simp add: recovery_key_def recovery_request_def)
qed

lemma recovery_cost: "write_cost (put_writes 8 hash id_ms now_ms recovery_request) \<le> 2000"
  using upload_cost [of recovery_request 25 8 hash id_ms now_ms]
  by (simp add: recovery_request_def recovery_key_def chunk_count_of_def)

text \<open>
  C33. An upload survives the end of its process: on a disk without files of the store the write demonstration succeeds, and the
  recovery demonstration, started on the files it leaves, prints the uploaded bytes and metadata, for every schedule
  of the flush threads.
\<close>

theorem object_demos_recover:
  assumes "fresh_disk fs object_demo_wal"
  shows "fst (snd (object_store_write_demo srt hash clock sched fs)) = 0
    \<and> snd (object_store_recover_demo srt sched' (fst (object_store_write_demo srt hash clock sched fs)))
      = (0, recovered_text (make_object_id ''photos'' recovery_key (clock 1)) (compute_etag hash (pr_data recovery_request)))"
proof -
  obtain kv fs1 ok where o: "kv_open srt kv_init fs object_demo_wal = (kv, fs1, ok)" by (metis prod_cases3)
  obtain st1 created where c1: "session_call (\<lambda>s. CreateBucket (clock 0) s ''photos'') ((kv, fs1), sched) = (st1, created)" by fastforce
  obtain st2 r2 where c2: "session_call (\<lambda>s. PutObject 8 hash (clock 1) (clock 2) s recovery_request) st1 = (st2, r2)" by fastforce
  let ?m = "put_metadata 8 hash (clock 1) (clock 2) recovery_request"
  have 1: ok created "small_store object_demo_wal 2000 (fst st1)" "BucketExists (fst st1) ''photos''"
    using small_started [OF assms o _ c1, of 2000] by (auto simp: BucketExists_def)
  obtain s1 where s1: "small_store object_demo_wal 2000 s1" "kvs_get s1 = kvs_get (fst st1)"
    "PutObject 8 hash (clock 1) (clock 2) s1 recovery_request = (fst st2, r2)"
    using session_call_small [OF c2 1(3)] by metis
  have "BucketExists s1 (pr_bucket recovery_request)" using 1(4) s1(2) by (simp add: BucketExists_def recovery_request_ok)
  moreover have "small_store object_demo_wal (0 + write_cost (put_writes 8 hash (clock 1) (clock 2) recovery_request)) s1"
    using recovery_cost by (intro small_store_less [OF s1(1)]) simp
  ultimately have 2: "small_store object_demo_wal 0 (fst st2)" "wal_buffer (kv_wal (fst (fst st2))) = []" "po_ok r2"
    "kvs_get (fst st2) = kvs_get (do_writes (put_writes 8 hash (clock 1) (clock 2) recovery_request) s1)"
    using small_PutObject [OF s1(3), of object_demo_wal 0] by (simp_all add: recovery_request_ok Let_def)
  have wd: "object_store_write_demo srt hash clock sched fs = (snd (kv_destroy (fst st2)), 0, ''Write phase complete'' @ [NL] @ put_report r2
      @ ''Safe to terminate and restart recovery demo.'' @ [NL])"
    using 1(1,2) 2(3) by (simp add: object_store_write_demo_def o c1 c2 del: One_nat_def)
  obtain kv' fs2 ok' where o': "kv_open srt kv_init (snd (kv_destroy (fst st2))) object_demo_wal = (kv', fs2, ok')" by (metis prod_cases3)
  have 3: ok' "kvs_get (kv', fs2) = kvs_get (fst st2)" using small_reopen [OF 2(1,2) o'] by auto
  have ok3: "kvs_ok (fst ((kv', fs2), sched'))" using opened_kvs_ok o' 3(1) by auto
  obtain st4 r4 where c4: "session_call (\<lambda>s. (s, GetObject s ''photos'' recovery_key)) ((kv', fs2), sched') = (st4, r4)" by fastforce
  have "kvs_ok s1" using s1(1) by (simp add: small_store_def)
  from upload_read [OF this recovery_request_ok(1,2)] 2(4) 3(2) recovery_request_ok(3,4)
  have "GetObject (kv', fs2) ''photos'' recovery_key = stored ?m (pr_data recovery_request)" by metis
  then have r4: "r4 = stored ?m (pr_data recovery_request)" using session_get [OF c4 ok3] by simp
  have "snd (object_store_recover_demo srt sched' (snd (kv_destroy (fst st2)))) = (0, ''Recovery phase successful'' @ [NL] @ get_report r4)"
    using 3(1) r4 by (simp add: object_store_recover_demo_def o' c4 stored_def)
  then show ?thesis unfolding wd fst_conv snd_conv r4 recovery_report by simp
qed

theorem object_demos_recover_witness:
  "snd (object_store_recover_demo (sort_key ver_timestamp) [2] (fst (object_store_write_demo (sort_key ver_timestamp) (\<lambda>_. 7) (\<lambda>_. 1) [1, 0, 3] fs_empty)))
     = (0, recovered_text (make_object_id ''photos'' recovery_key 1) (compute_etag (\<lambda>_. 7) (pr_data recovery_request)))"
  using object_demos_recover [of fs_empty, OF fresh_disk_wal] by (simp add: object_demo_wal_def)

section \<open>Objects of one chunk\<close>

lemma one_chunk_writes:
  assumes "0 < length d" "length d \<le> 8"
  shows "put_writes 8 hash id_ms now_ms (demo_request k d) =
    (let m = put_metadata 8 hash id_ms now_ms (demo_request k d)
     in [(ChunkKey (om_id m) 0, d), (ObjectMetaKey ''photos'' k, serialize_metadata m), (BucketIndexKey ''photos'' k, om_id m)])"
proof -
  have "(length d + 8 - 1) div 8 = 1" using assms by presburger
  then have "chunk_count_of 8 d = 1" by (simp add: chunk_count_of_def)
  then show ?thesis using assms by (simp add: put_writes_def object_writes_def chunk_writes_def chunk_at_take Let_def)
qed

lemma one_chunk_view:
  assumes "kvs_ok s" "0 < length d" "length d \<le> 8"
  shows "kvs_get (do_writes (put_writes 8 hash id_ms now_ms (demo_request k d)) s) =
    (let m = put_metadata 8 hash id_ms now_ms (demo_request k d)
     in (kvs_get s)(ChunkKey (om_id m) 0 \<mapsto> d, ObjectMetaKey ''photos'' k \<mapsto> serialize_metadata m, BucketIndexKey ''photos'' k \<mapsto> om_id m))"
  using assms by (simp add: one_chunk_writes Let_def do_writes_def kvs.get_put kvs.put_ok)

lemma one_chunk_put:
  assumes "session_call (\<lambda>s. PutObject 8 hash id_ms now_ms s (demo_request k d)) st = (st', r)" "kvs_ok (fst st)"
    and "kvs_get (fst st) (BucketMetaKey ''photos'') \<noteq> None" "k \<noteq> []" "0 < length d" "length d \<le> 8"
  shows "kvs_ok (fst st') \<and> kvs_get (fst st') =
    (let m = put_metadata 8 hash id_ms now_ms (demo_request k d)
     in (kvs_get (fst st))(ChunkKey (om_id m) 0 \<mapsto> d, ObjectMetaKey ''photos'' k \<mapsto> serialize_metadata m, BucketIndexKey ''photos'' k \<mapsto> om_id m))"
proof -
  obtain s where s: "kvs_ok s" "kvs_get s = kvs_get (fst st)" "PutObject 8 hash id_ms now_ms s (demo_request k d) = (fst st', r)"
    using session_call_ok [OF assms(1,2)] by metis
  have "BucketExists s (pr_bucket (demo_request k d))" "pr_key (demo_request k d) \<noteq> []" using assms(3,4) s(2) by (simp_all add: BucketExists_def)
  from PutObject_effect [OF s(3,1) this] one_chunk_view [OF s(1) assms(5,6)] s(2) show ?thesis by simp
qed

lemma demo_metadata_read:
  assumes "TAB \<notin> set k"
  shows "deserialize_metadata (serialize_metadata (put_metadata 8 hash id_ms now_ms (demo_request k d))) = Some (put_metadata 8 hash id_ms now_ms (demo_request k d))"
  using assms by (intro deserialize_serialize put_metadata_no_tabs) simp

section \<open>Listing\<close>

lemma photo_keys: "ObjectMetaKey ''photos'' k = ObjectMetaKey ''photos'' k' \<longleftrightarrow> k = k'" "BucketIndexKey ''photos'' k = BucketIndexKey ''photos'' k' \<longleftrightarrow> k = k'"
  by (simp_all add: ObjectMetaKey_def BucketIndexKey_def)

lemma list_line_uploaded:
  assumes "kvs_get s (ObjectMetaKey ''photos'' k) = Some (serialize_metadata (put_metadata 8 hash id_ms now_ms (demo_request k d)))"
    and "length d = 3" "TAB \<notin> set k"
  shows "concat (map list_line (list_entry s ''photos'' (BucketIndexKey ''photos'' k))) = k @ '' size=3'' @ [NL]"
proof -
  have "om_size (put_metadata 8 hash id_ms now_ms (demo_request k d)) = 3" "show_nat 3 = ''3''"
    using assms(2) by (simp_all add: put_metadata_def show_nat.simps digit_char_def char_of_def bit_Suc_0_iff)
  then show ?thesis by (simp add: list_entry_index assms(1) demo_metadata_read [OF assms(3)] list_line_def ObjCommitted_def ObjDeleted_def)
qed

text \<open>A bucket with two objects under the prefix.\<close>

lemma list_two:
  assumes "kvs_ok s" "BucketExists s b" "k1 \<noteq> k2" "\<forall>k. has_prefix p k \<and> kvs_get s (BucketIndexKey b k) \<noteq> None \<longleftrightarrow> k \<in> {k1, k2}"
  shows "lo_objects (ListObjects s b p) \<in>
    {list_entry s b (BucketIndexKey b k1) @ list_entry s b (BucketIndexKey b k2), list_entry s b (BucketIndexKey b k2) @ list_entry s b (BucketIndexKey b k1)}"
proof -
  have "set (kvs_keys s (BucketIndexKey b p)) = BucketIndexKey b ` {k. has_prefix p k \<and> kvs_get s (BucketIndexKey b k) \<noteq> None}"
    unfolding kvs.set_keys [OF assms(1)] by (auto simp: has_prefix_iff BucketIndexKey_def image_iff)
  also have "{k. has_prefix p k \<and> kvs_get s (BucketIndexKey b k) \<noteq> None} = {k1, k2}" using assms(4) by blast
  finally have "set (kvs_keys s (BucketIndexKey b p)) = {BucketIndexKey b k1, BucketIndexKey b k2}" by simp
  then have "kvs_keys s (BucketIndexKey b p) \<in> {[BucketIndexKey b k1, BucketIndexKey b k2], [BucketIndexKey b k2, BucketIndexKey b k1]}"
    using two_keys [OF distinct_kvs_keys [OF assms(1)]] assms(3) by (simp add: BucketIndexKey_def)
  then show ?thesis using assms(2) by (auto simp: ListObjects_def BucketExists_def)
qed

text \<open>
  Listing with a prefix: when there are no snapshot file and no log yet and the store can be opened, the demonstration
  lists the two objects under \<^verbatim>\<open>trip/\<close> with their sizes, in some order, and not the third one, on every disk and for
  every schedule of the flush thread.
\<close>

theorem list_demo_output:
  assumes "kv_open srt kv_init fs list_demo_wal = (kv, fs1, True)" "fs_files fs snapshot_file = None" "fs_files fs list_demo_wal = None"
  shows "snd (object_store_list_demo srt hash clock sched fs) \<in>
    {(0, ''trip/a.txt size=3'' @ [NL] @ ''trip/b.txt size=3'' @ [NL]), (0, ''trip/b.txt size=3'' @ [NL] @ ''trip/a.txt size=3'' @ [NL])}"
proof -
  define ka kb kc where keys: "ka = ''trip/a.txt''" "kb = ''trip/b.txt''" "kc = ''notes/c.txt''"
  define put where "put = (\<lambda>i key data s. PutObject 8 hash (clock i) (clock (i + 1)) s (demo_request key data))"
  obtain st1 created where c1: "session_call (\<lambda>s. CreateBucket (clock 0) s ''photos'') ((kv, fs1), sched) = (st1, created)" by fastforce
  obtain st2 r2 where c2: "session_call (put 1 ka ''aaa'') st1 = (st2, r2)" by fastforce
  obtain st3 r3 where c3: "session_call (put 3 kb ''bbb'') st2 = (st3, r3)" by fastforce
  obtain st4 r4 where c4: "session_call (put 5 kc ''ccc'') st3 = (st4, r4)" by fastforce
  obtain st5 r5 where c5: "session_call (\<lambda>s. (s, ListObjects s ''photos'' ''trip/'')) st4 = (st5, r5)" by fastforce
  let ?m = "\<lambda>i k d. put_metadata 8 hash (clock i) (clock (i + 1)) (demo_request k d)"
  let ?b = "BucketMetaKey ''photos''"
  have 0: "kvs_ok (fst ((kv, fs1), sched))" "kvs_get (fst ((kv, fs1), sched)) = Map.empty"
    using opened_kvs_ok [OF assms(1)] open_without_log [OF assms] by (simp_all add: kvs_get_def fun_eq_iff)
  obtain s0 where s0: "kvs_ok s0" "kvs_get s0 = Map.empty" "CreateBucket (clock 0) s0 ''photos'' = (fst st1, created)"
    using session_call_ok [OF c1 0(1)] 0(2) by metis
  obtain raw where "fst st1 = kvs_put s0 ?b raw" using s0(2,3) by (auto simp: CreateBucket_def dest: sym)
  then have 1: "kvs_ok (fst st1)" "kvs_get (fst st1) = [?b \<mapsto> raw]"
    using s0(1,2) by (simp_all add: kvs.put_ok kvs.get_put)
  have 2: "kvs_ok (fst st2)" "kvs_get (fst st2) ?b = Some raw"
    "kvs_get (fst st2) = (kvs_get (fst st1))(ChunkKey (om_id (?m 1 ka ''aaa'')) 0 \<mapsto> ''aaa'', ObjectMetaKey ''photos'' ka \<mapsto> serialize_metadata (?m 1 ka ''aaa''),
       BucketIndexKey ''photos'' ka \<mapsto> om_id (?m 1 ka ''aaa''))"
    using one_chunk_put [OF c2 [unfolded put_def] 1(1)] 1(2) by (simp_all add: Let_def keys(1))
  have 3: "kvs_ok (fst st3)" "kvs_get (fst st3) ?b = Some raw"
    "kvs_get (fst st3) = (kvs_get (fst st2))(ChunkKey (om_id (?m 3 kb ''bbb'')) 0 \<mapsto> ''bbb'', ObjectMetaKey ''photos'' kb \<mapsto> serialize_metadata (?m 3 kb ''bbb''),
       BucketIndexKey ''photos'' kb \<mapsto> om_id (?m 3 kb ''bbb''))"
    using one_chunk_put [OF c3 [unfolded put_def] 2(1)] 2(2) by (simp_all add: Let_def keys(2))
  have 4: "kvs_ok (fst st4)" "kvs_get (fst st4) ?b = Some raw"
    "kvs_get (fst st4) = (kvs_get (fst st3))(ChunkKey (om_id (?m 5 kc ''ccc'')) 0 \<mapsto> ''ccc'', ObjectMetaKey ''photos'' kc \<mapsto> serialize_metadata (?m 5 kc ''ccc''),
       BucketIndexKey ''photos'' kc \<mapsto> om_id (?m 5 kc ''ccc''))"
    using one_chunk_put [OF c4 [unfolded put_def] 3(1)] 3(2) by (simp_all add: Let_def keys(3))
  define s5 where "s5 = fst st5"
  then have s5: "kvs_ok s5" "kvs_get s5 = kvs_get (fst st4)" "r5 = ListObjects s5 ''photos'' ''trip/''"
    using session_read [OF c5 4(1)] by simp_all
  note get = s5(2) 4(3) 3(3) 2(3) 1(2)
  have a: "concat (map list_line (list_entry s5 ''photos'' (BucketIndexKey ''photos'' ka))) = ka @ '' size=3'' @ [NL]"
    by (rule list_line_uploaded [of _ _ hash "clock 1" "clock (1 + 1)" "''aaa''"]) (simp_all add: get photo_keys keys)
  have b: "concat (map list_line (list_entry s5 ''photos'' (BucketIndexKey ''photos'' kb))) = kb @ '' size=3'' @ [NL]"
    by (rule list_line_uploaded [of _ _ hash "clock 3" "clock (3 + 1)" "''bbb''"]) (simp_all add: get photo_keys keys)
  have "kvs_get s5 (BucketIndexKey ''photos'' k) \<noteq> None \<longleftrightarrow> k \<in> {ka, kb, kc}" for k
    unfolding get by (auto simp: photo_keys split: if_splits)
  moreover have "has_prefix ''trip/'' ka" "has_prefix ''trip/'' kb" "\<not> has_prefix ''trip/'' kc" "ka \<noteq> kb" by (simp_all add: keys)
  moreover have "BucketExists s5 ''photos''" using 4(2) s5(2) by (simp add: BucketExists_def)
  ultimately have "lo_objects r5 \<in> {list_entry s5 ''photos'' (BucketIndexKey ''photos'' ka) @ list_entry s5 ''photos'' (BucketIndexKey ''photos'' kb),
      list_entry s5 ''photos'' (BucketIndexKey ''photos'' kb) @ list_entry s5 ''photos'' (BucketIndexKey ''photos'' ka)}"
    unfolding s5(3) by (intro list_two [OF s5(1)]) blast+
  then have "concat (map list_line (lo_objects r5)) \<in> {ka @ '' size=3'' @ [NL] @ kb @ '' size=3'' @ [NL], kb @ '' size=3'' @ [NL] @ ka @ '' size=3'' @ [NL]}"
    using a b by auto
  moreover have "snd (object_store_list_demo srt hash clock sched fs) = (0, concat (map list_line (lo_objects r5)))"
    using c2 c3 c4 by (simp add: object_store_list_demo_def assms(1) c1 c5 put_def keys Let_def)
  ultimately show ?thesis by (auto simp: keys)
qed

section \<open>Collection\<close>

lemma one_chunk_cost: "\<lbrakk>0 < length d; length d \<le> 8; length k \<le> 20\<rbrakk> \<Longrightarrow> write_cost (put_writes 8 hash id_ms now_ms (demo_request k d)) \<le> 1000"
proof -
  assume d: "0 < length d" "length d \<le> 8" "length k \<le> 20"
  have "(length d + 8 - 1) div 8 = 1" using d by presburger
  then show ?thesis using upload_cost [of "demo_request k d" 26 8 hash id_ms now_ms] d(3) by (simp add: chunk_count_of_def)
qed

lemma small_one_chunk:
  assumes "session_call (\<lambda>s. PutObject 8 hash id_ms now_ms s (demo_request k d)) st = (st', r)" "small_store wpath (n + 1000) (fst st)"
    and "kvs_get (fst st) (BucketMetaKey ''photos'') \<noteq> None" "k \<noteq> []" "length k \<le> 20" "0 < length d" "length d \<le> 8"
  shows "small_store wpath n (fst st') \<and> kvs_get (fst st') =
    (let m = put_metadata 8 hash id_ms now_ms (demo_request k d)
     in (kvs_get (fst st))(ChunkKey (om_id m) 0 \<mapsto> d, ObjectMetaKey ''photos'' k \<mapsto> serialize_metadata m, BucketIndexKey ''photos'' k \<mapsto> om_id m))"
proof -
  obtain s where s: "small_store wpath (n + 1000) s" "kvs_get s = kvs_get (fst st)" "PutObject 8 hash id_ms now_ms s (demo_request k d) = (fst st', r)"
    using session_call_small [OF assms(1,2)] by metis
  have "BucketExists s (pr_bucket (demo_request k d))" "pr_key (demo_request k d) \<noteq> []" using assms(3,4) s(2) by (simp_all add: BucketExists_def)
  moreover have "small_store wpath (n + write_cost (put_writes 8 hash id_ms now_ms (demo_request k d))) s"
    using one_chunk_cost [OF assms(6,7,5)] by (intro small_store_less [OF s(1)]) simp
  moreover have "kvs_ok s" using s(1) by (simp add: small_store_def)
  ultimately show ?thesis using small_PutObject [OF s(3)] one_chunk_view [OF _ assms(6,7)] s(2) by simp
qed

text \<open>The store after one object of one chunk was uploaded twice: the collection deletes the chunk of the first upload.\<close>

lemma gc_overwritten:
  assumes "small_store wpath 1000 s" "M1 = put_metadata 8 hash i1 n1 (demo_request k d1)" "M2 = put_metadata 8 hash i2 n2 (demo_request k d2)"
    and "TAB \<notin> set k" "length k \<le> 20"
    and get: "kvs_get s = [BucketMetaKey ''photos'' \<mapsto> raw, ChunkKey (om_id M1) 0 \<mapsto> d1, ObjectMetaKey ''photos'' k \<mapsto> serialize_metadata M1,
      BucketIndexKey ''photos'' k \<mapsto> om_id M1, ChunkKey (om_id M2) 0 \<mapsto> d2, ObjectMetaKey ''photos'' k \<mapsto> serialize_metadata M2,
      BucketIndexKey ''photos'' k \<mapsto> om_id M2]"
  shows "snd (GarbageCollectChunks s) = (if i1 = i2 then 0 else 1)"
proof -
  let ?c1 = "ChunkKey (om_id M1) 0" and ?c2 = "ChunkKey (om_id M2) 0" and ?ks = "kvs_keys s ''objchunk:''"
  have ok: "kvs_ok s" using assms(1) by (simp add: small_store_def)
  have ids: "om_id M1 = om_id M2 \<longleftrightarrow> i1 = i2" "om_id M1 \<noteq> []" "om_id M2 \<noteq> []"
    by (simp_all add: assms(2,3) put_metadata_def object_id_inject) (simp_all add: make_object_id_def)
  have view: "kvs_get s x \<noteq> None \<longleftrightarrow> x \<in> {BucketMetaKey ''photos'', ?c1, ?c2, ObjectMetaKey ''photos'' k, BucketIndexKey ''photos'' k}" for x
    unfolding get by auto
  have ks: "set ?ks = {?c1, ?c2}" unfolding kvs.set_keys [OF ok] view by (auto simp: chunk_prefix)
  have dist: "distinct ?ks" using ok by (rule distinct_kvs_keys)
  have "live_ids s = {om_id M2}"
  proof -
    have only: "x = ObjectMetaKey ''photos'' k \<and> r = serialize_metadata M2" if "has_prefix ''objmeta:'' x" "kvs_get s x = Some r" for x r
      using that view [of x] by (auto simp: chunk_prefix get)
    have m: "kvs_get s (ObjectMetaKey ''photos'' k) = Some (serialize_metadata M2)" by (simp add: get)
    have d: "deserialize_metadata (serialize_metadata M2) = Some M2" "om_state M2 = ObjCommitted"
      using demo_metadata_read [OF assms(4)] by (simp_all add: assms(3))
    have "om_id M2 \<in> live_ids s" unfolding live_ids_def using m d chunk_prefix(5) by blast
    moreover have "x = om_id M2" if "x \<in> live_ids s" for x
    proof -
      obtain y r m where "x = om_id m" "has_prefix ''objmeta:'' y" "kvs_get s y = Some r" "deserialize_metadata r = Some m"
        using \<open>x \<in> live_ids s\<close> unfolding live_ids_def by blast
      then show ?thesis using only d(1) by (metis option.inject)
    qed
    ultimately show ?thesis by blast
  qed
  then have reach: "set (reachable_ids s) = {om_id M2}" using set_reachable_ids [OF ok] by simp
  have g: "garbage {om_id M2} ?c1 \<longleftrightarrow> i1 \<noteq> i2" "\<not> garbage {om_id M2} ?c2" "?c1 = ?c2 \<longleftrightarrow> i1 = i2"
    using ids by (simp_all add: garbage_def chunk_object_id_ChunkKey)
  have "garbage (set (reachable_ids s)) x \<longleftrightarrow> x = ?c1 \<and> i1 \<noteq> i2" if "x \<in> set ?ks" for x
    using that g unfolding ks reach by blast
  then have "filter (garbage (set (reachable_ids s))) ?ks = filter (\<lambda>x. x = ?c1 \<and> i1 \<noteq> i2) ?ks" by (intro filter_cong) auto
  moreover have "length (filter (\<lambda>x. x = ?c1 \<and> i1 \<noteq> i2) ?ks) = (if i1 = i2 then 0 else 1)"
    using distinct_length_filter [OF dist, of "\<lambda>x. x = ?c1 \<and> i1 \<noteq> i2"] by (auto simp: ks)
  moreover have "snd (foldl (gc_chunk (reachable_ids s)) (s, 0) ?ks) = 0 + length (filter (garbage (set (reachable_ids s))) ?ks)"
  proof (rule gc_count [OF _ dist])
    have c: "length x + 56 \<le> 200" if "x \<in> {?c1, ?c2}" for x
      using that assms(5) length_show_word(1) [of i1] length_show_word(1) [of i2] length_show_word(2) [of 0]
      by (auto simp: ChunkKey_def assms(2,3) put_metadata_def make_object_id_def)
    have "sum_list (map (\<lambda>k. length k + 56) ?ks) \<le> length ?ks * 200" using c by (intro sum_list_bound) (simp add: ks)
    also have "length ?ks = card {?c1, ?c2}" using distinct_card [OF dist] ks by simp
    also have "\<dots> * 200 \<le> 2 * 200" by (intro mult_le_mono1) (simp add: card_insert_if)
    finally show "small_store wpath (0 + sum_list (map (\<lambda>k. length k + 56) ?ks)) s" by (intro small_store_less [OF assms(1)]) simp
    show "\<forall>k\<in>set ?ks. kvs_get s k \<noteq> None" unfolding ks view by simp
  qed
  ultimately show ?thesis by (simp add: GarbageCollectChunks_def Let_def case_prod_beta)
qed

text \<open>
  Collection after an overwrite: on a disk without files of the store the demonstration prints the data of the second upload, and
  one collected chunk, that of the first; none when both uploads were made in the same millisecond, because then they
  share the object id and the second has overwritten the chunk.
\<close>

theorem gc_demo_output:
  assumes "fresh_disk fs gc_demo_wal"
  shows "snd (object_store_gc_demo srt hash clock sched fs) =
    (0, ''Current object data: new-data'' @ [NL] @ ''GC deleted chunks: '' @ (if clock 1 = clock 3 then ''0'' else ''1'') @ [NL])"
proof -
  define ka where ka: "ka = ''trip/a.txt''"
  have k: "ka \<noteq> []" "length ka \<le> 20" "TAB \<notin> set ka" by (simp_all add: ka)
  define put where "put = (\<lambda>i data s. PutObject 8 hash (clock i) (clock (i + 1)) s (demo_request ka data))"
  obtain kv fs1 ok where o: "kv_open srt kv_init fs gc_demo_wal = (kv, fs1, ok)" by (metis prod_cases3)
  obtain st1 created where c1: "session_call (\<lambda>s. CreateBucket (clock 0) s ''photos'') ((kv, fs1), sched) = (st1, created)" by fastforce
  obtain st2 r2 where c2: "session_call (put 1 ''old-data'') st1 = (st2, r2)" by fastforce
  obtain st3 r3 where c3: "session_call (put 3 ''new-data'') st2 = (st3, r3)" by fastforce
  obtain st4 r4 where c4: "session_call (\<lambda>s. (s, GetObject s ''photos'' ka)) st3 = (st4, r4)" by fastforce
  obtain st5 n where c5: "session_call GarbageCollectChunks st4 = (st5, n)" by fastforce
  let ?m = "\<lambda>i d. put_metadata 8 hash (clock i) (clock (i + 1)) (demo_request ka d)"
  let ?b = "BucketMetaKey ''photos''"
  obtain raw where 1: ok created "small_store gc_demo_wal (1000 + 1000 + 1000) (fst st1)" "kvs_get (fst st1) = [?b \<mapsto> raw]"
    using small_started [OF assms o _ c1, of "1000 + 1000 + 1000"] by auto
  have 2: "small_store gc_demo_wal (1000 + 1000) (fst st2)"
    "kvs_get (fst st2) = [?b \<mapsto> raw, ChunkKey (om_id (?m 1 ''old-data'')) 0 \<mapsto> ''old-data'', ObjectMetaKey ''photos'' ka \<mapsto> serialize_metadata (?m 1 ''old-data''),
       BucketIndexKey ''photos'' ka \<mapsto> om_id (?m 1 ''old-data'')]"
    using small_one_chunk [OF c2 [unfolded put_def] 1(3) _ k(1,2)] 1(4) by (simp_all add: Let_def)
  have 3: "small_store gc_demo_wal 1000 (fst st3)"
    "kvs_get (fst st3) = (kvs_get (fst st2))(ChunkKey (om_id (?m 3 ''new-data'')) 0 \<mapsto> ''new-data'', ObjectMetaKey ''photos'' ka \<mapsto> serialize_metadata (?m 3 ''new-data''),
       BucketIndexKey ''photos'' ka \<mapsto> om_id (?m 3 ''new-data''))"
    using small_one_chunk [OF c3 [unfolded put_def] 2(1) _ k(1,2)] 2(2) by (simp_all add: Let_def)
  have ok3: "kvs_ok (fst st2)" "kvs_ok (fst st3)" using 2(1) 3(1) by (simp_all add: small_store_def)
  have 4: "small_store gc_demo_wal 1000 (fst st4)" "kvs_get (fst st4) = kvs_get (fst st3)"
    by (rule session_call_small [OF c4 3(1)], simp)+
  have "r4 = GetObject (fst st3) ''photos'' ka" using session_get [OF c4 ok3(2)] by simp
  also have "\<dots> = stored (?m 3 ''new-data'') ''new-data''"
    using upload_read [OF ok3(1), of 8 "demo_request ka ''new-data''" "fst st3" hash "clock 3" "clock (3 + 1)"] k(3) 3(2)
      one_chunk_view [OF ok3(1), of "''new-data''" hash "clock 3" "clock (3 + 1)" ka] by (simp add: chunks_fit_def Let_def)
  finally have r4: "go_found r4" "go_data r4 = ''new-data''" by (simp_all add: stored_def)
  obtain s4 where s4: "small_store gc_demo_wal 1000 s4" "kvs_get s4 = kvs_get (fst st4)" "GarbageCollectChunks s4 = (fst st5, n)"
    using session_call_small [OF c5 4(1)] by metis
  have "snd (GarbageCollectChunks s4) = (if clock 1 = clock 3 then 0 else 1)"
    by (rule gc_overwritten [OF s4(1) refl refl k(3,2)]) (simp only: s4(2) 4(2) 3(2) 2(2))
  then have n: "show_nat n = (if clock 1 = clock 3 then ''0'' else ''1'')"
    using s4(3) by (simp add: show_nat.simps digit_char_def char_of_def bit_Suc_0_iff)
  have "snd (object_store_gc_demo srt hash clock sched fs) = (0, ''Current object data: '' @ go_data r4 @ [NL] @ ''GC deleted chunks: '' @ show_nat n @ [NL])"
    using 1(1) r4(1) c2 c3 c4 by (simp add: object_store_gc_demo_def o c1 c5 put_def ka Let_def)
  then show ?thesis unfolding r4(2) n by simp
qed

theorem gc_demo_output_witness:
  "snd (object_store_gc_demo (sort_key ver_timestamp) (\<lambda>_. 7) of_nat [4, 0, 1] fs_empty) =
    (0, ''Current object data: new-data'' @ [NL] @ ''GC deleted chunks: 1'' @ [NL])"
  using gc_demo_output [of fs_empty "sort_key ver_timestamp" "\<lambda>_. 7" of_nat "[4, 0, 1]", OF fresh_disk_wal] by (simp add: gc_demo_wal_def)

end
