(* ===== verification/Raft_Demo.thy ===== *)
theory Raft_Demo
  imports Server
begin

text \<open>
  The demonstration \<^verbatim>\<open>src/raft_demo.cpp\<close>: a cluster of three nodes that elects a leader, replicates a write, loses the
  leader, elects another, replicates a second write, and gets the first node back as a new \<^verbatim>\<open>RaftNode\<close> over the old
  store.  What the threads of the nodes do while the program sleeps is an argument, a list of actions per pause; a
  proposal runs without interruption, and the roles a line shows are read at one instant.
\<close>

section \<open>Output\<close>

definition role_name :: "raft_role \<Rightarrow> string" where
  "role_name r = (case r of Follower \<Rightarrow> ''F'' | Candidate \<Rightarrow> ''C'' | Leader \<Rightarrow> ''L'')"

definition node_text :: "cluster \<Rightarrow> int \<Rightarrow> string" where
  "node_text c i = ''n'' @ show_int i @ ''('' @ role_name (rn_role (cl_nodes c i)) @ '',t=''
     @ show_nat (unat (rn_term (cl_nodes c i))) @ '')''"

definition cluster_line :: "cluster \<Rightarrow> string" where
  "cluster_line c = node_text c 1 @ '' '' @ node_text c 2 @ '' '' @ node_text c 3 @ [NL]"

definition stores_text :: "string \<Rightarrow> cluster \<Rightarrow> string" where
  "stores_text key c = concat (map (\<lambda>i. ''s'' @ show_int i @ ''.get('' @ key @ '')=''
     @ (case kv_get (replica c i) key of Some v \<Rightarrow> v | None \<Rightarrow> ''(nil)'') @ [NL]) [1, 2, 3])"

definition propose_text :: "string \<Rightarrow> bool \<Rightarrow> string" where
  "propose_text what ok = ''ProposePut('' @ what @ '') -> '' @ (if ok then ''true'' else ''false'') @ [NL]"

section \<open>The program\<close>

text \<open>A waiting loop: after every pause look for a leader among the nodes \<open>ids\<close>, and print a line.\<close>

fun await_leader :: "string \<Rightarrow> int list \<Rightarrow> raft_action list list \<Rightarrow> cluster \<Rightarrow> cluster \<times> int option \<times> string" where
  "await_leader pre ids [] c = (c, None, [])"
| "await_leader pre ids (pause # pauses) c =
     (let c1 = fold raft_act pause c; line = pre @ cluster_line c1
      in case find (\<lambda>i. rn_role (cl_nodes c1 i) = Leader) ids of
           Some l \<Rightarrow> (c1, Some l, line)
         | None \<Rightarrow> let (c2, l, out) = await_leader pre ids pauses c1 in (c2, l, line @ out))"

definition crash_node :: "int \<Rightarrow> cluster \<Rightarrow> cluster" where
  "crash_node i c = transport_unregister i (set_node i (raft_stop (cl_nodes c i)) c)"

text \<open>A new node takes the place of the old one; the store, and what was applied to it, stays.\<close>

definition restart_node :: "int list \<Rightarrow> int \<Rightarrow> cluster \<Rightarrow> cluster" where
  "restart_node I i c =
     transport_register i ((set_node i (raft_start (raft_new i (removeAll i I))) c)
       \<lparr>cl_elect := (cl_elect c)(i := EIdle), cl_beat := (cl_beat c)(i := BIdle), cl_calls := (cl_calls c)(i := [])\<rparr>)"

definition stop_nodes :: "cluster \<Rightarrow> cluster" where
  "stop_nodes c = fold (\<lambda>i c. set_node i (raft_stop (cl_nodes c i)) c) [1, 2, 3] c"

definition raft_demo ::
  "raft_action list list \<Rightarrow> raft_action list \<Rightarrow> raft_action list list \<Rightarrow> raft_action list \<Rightarrow> raft_action list \<Rightarrow> cluster \<times> nat \<times> string" where
  "raft_demo election pause1 reelection pause2 pause3 =
     (case await_leader [] [1, 2, 3] (take 40 election) (cluster_start [1, 2, 3]) of
        (c1, None, out1) \<Rightarrow> (stop_nodes c1, 1, out1 @ ''No leader elected'' @ [NL])
      | (c1, Some leader, out1) \<Rightarrow>
          let (c2, ok1) = ProposePut leader ''a'' ''100'' c1;
              c3 = fold raft_act pause1 c2;
              out2 = out1 @ ''Leader is node '' @ show_int leader @ [NL] @ propose_text ''a=100'' ok1 @ stores_text ''a'' c3
                     @ [NL] @ ''=== Simulating leader crash ==='' @ [NL]
          in case await_leader ''after crash: '' (removeAll leader [1, 2, 3]) (take 50 reelection) (crash_node leader c3) of
               (c4, None, out3) \<Rightarrow> (stop_nodes c4, 1, out2 @ out3 @ ''No new leader elected after crash'' @ [NL])
             | (c4, Some new_leader, out3) \<Rightarrow>
                 let (c5, ok2) = ProposePut new_leader ''b'' ''200'' c4;
                     c6 = fold raft_act pause2 c5;
                     c7 = fold raft_act pause3 (restart_node [1, 2, 3] leader c6)
                 in (stop_nodes c7, 0, out2 @ out3 @ ''New leader is node '' @ show_int new_leader @ [NL] @ propose_text ''b=200'' ok2
                      @ stores_text ''b'' c6 @ [NL] @ ''=== Restarting crashed node ==='' @ [NL]
                      @ ''after restart:'' @ [NL] @ stores_text ''b'' c7))"

section \<open>What it shows\<close>

text \<open>
  The new node starts with an empty log and applied index 0, so the leader sends it the whole log and it applies every
  command a second time to a store that has them already.  The values at the end are those of one pass.
\<close>

theorem reapply_keeps_values:
  "kv_get (fold sm_apply es (fold sm_apply es kv)) = kv_get (fold sm_apply es kv)"
  by (simp add: fun_eq_iff get_fold_sm_apply)

text \<open>
  A run of the demonstration as its author has it in mind: nodes 1 and 2 are the first and the second leader, the
  heartbeats during the pauses reach every node that is up.
\<close>

definition demo_elections :: "raft_action list list \<times> raft_action list list" where
  "demo_elections = ([[], [Elect 1, Elect 1, Elect 1]], [[Elect 2, Elect 2, Elect 2], [Elect 2, Elect 2]])"

definition demo_pauses :: "raft_action list list" where
  "demo_pauses = [replicate 15 (Beat 1) @ [Apply 1, Apply 2, Apply 3],
     replicate 15 (Beat 2) @ [Apply 2, Apply 2, Apply 3, Apply 3], replicate 15 (Beat 2) @ [Apply 1, Apply 1]]"

theorem raft_demo_story:
  "snd (raft_demo (fst demo_elections) (demo_pauses ! 0) (snd demo_elections) (demo_pauses ! 1) (demo_pauses ! 2)) = (0,
     ''n1(F,t=0) n2(F,t=0) n3(F,t=0)'' @ [NL] @ ''n1(L,t=1) n2(F,t=1) n3(F,t=0)'' @ [NL]
     @ ''Leader is node 1'' @ [NL] @ ''ProposePut(a=100) -> true'' @ [NL]
     @ ''s1.get(a)=100'' @ [NL] @ ''s2.get(a)=100'' @ [NL] @ ''s3.get(a)=100'' @ [NL]
     @ [NL] @ ''=== Simulating leader crash ==='' @ [NL]
     @ ''after crash: n1(L,t=1) n2(C,t=2) n3(F,t=1)'' @ [NL] @ ''after crash: n1(L,t=1) n2(L,t=2) n3(F,t=2)'' @ [NL]
     @ ''New leader is node 2'' @ [NL] @ ''ProposePut(b=200) -> true'' @ [NL]
     @ ''s1.get(b)=(nil)'' @ [NL] @ ''s2.get(b)=200'' @ [NL] @ ''s3.get(b)=200'' @ [NL]
     @ [NL] @ ''=== Restarting crashed node ==='' @ [NL] @ ''after restart:'' @ [NL]
     @ ''s1.get(b)=200'' @ [NL] @ ''s2.get(b)=200'' @ [NL] @ ''s3.get(b)=200'' @ [NL])"
  by code_simp

text \<open>
  The second write can fail although a majority is up: a proposal stops at the first majority, and when no heartbeat
  brings the third node up to date before the crash, the new leader's request does not fit its log.
\<close>

theorem raft_demo_second_write_fails:
  "let c = crash_node 1 (fst (ProposePut 1 ''a'' ''100'' (three [Elect 1, Elect 1, Elect 1])));
       c' = fold raft_act [Elect 2, Elect 2, Elect 2, Elect 2, Elect 2] c
   in rn_role (cl_nodes c' 2) = Leader \<and> \<not> snd (ProposePut 2 ''b'' ''200'' c')"
  by code_simp

text \<open>
  Restarting a node as the program does breaks the election: term and vote are not stored anywhere, so a node that
  voted in a term votes again after its restart, and there are two leaders in one term.
\<close>

theorem restart_two_leaders:
  "let c = fold raft_act [Elect 3, Elect 3, Elect 3, Elect 3, Elect 3] (restart_node [1, 2, 3] 2 (three [Elect 1, Elect 1, Elect 1]))
   in rn_role (cl_nodes c 1) = Leader \<and> rn_role (cl_nodes c 3) = Leader \<and> rn_term (cl_nodes c 1) = rn_term (cl_nodes c 3)"
  by code_simp

end
