(* ===== verification/Raft_Log.thy ===== *)
theory Raft_Log
  imports Raft_Replication
begin

text \<open>
  The logs of a cluster.  A proposal appends its entry in one critical section and builds its request from the end
  of the log in the next; when no other step comes between the two, the logs of all nodes match: where two of them
  have entries of the same term at the same position, they agree up to that position.  With a step in between they
  need not.
\<close>

section \<open>Runs in which a proposal builds its request at once\<close>

definition serial_call :: "int \<Rightarrow> op_type \<Rightarrow> string \<Rightarrow> string \<Rightarrow> cluster \<Rightarrow> cluster" where
  "serial_call i op key val c = call_step i (length (cl_calls c i)) (call_start i op key val c)"

inductive serial_reach :: "int list \<Rightarrow> cluster \<Rightarrow> bool" for I :: "int list" where
  Init: "cluster_init I c \<Longrightarrow> serial_reach I c"
| Step: "\<lbrakk>serial_reach I c; action_ok I c a; \<And>i op key val. a \<noteq> Call i op key val\<rbrakk> \<Longrightarrow> serial_reach I (raft_act a c)"
| Propose: "\<lbrakk>serial_reach I c; i \<in> set I; length (rn_log (cl_nodes c i)) + 2 < 2 ^ 64\<rbrakk>
    \<Longrightarrow> serial_reach I (serial_call i op key val c)"

lemma serial_reach_reach: "serial_reach I c \<Longrightarrow> raft_reach I c"
proof (induction rule: serial_reach.induct)
  case (Propose c i op key val)
  then have "raft_reach I (raft_act (Call i op key val) c)" by (intro raft_reach.Step) simp_all
  from raft_reach.Step [OF this, of "Call_step i (length (cl_calls c i))"] Propose.hyps(2) show ?case
    by (simp add: serial_call_def)
qed (auto intro: raft_reach.intros)

section \<open>The log of the leader of each term\<close>

text \<open>
  \<open>G t\<close> is the log of the leader of term \<open>t\<close>, as far as it has grown, and empty for a term without a leader.  A log
  is explained by \<open>G\<close> if each of its entries stands where the leader of its term has put it, behind the same entries.
\<close>

type_synonym leader_logs = "u64 \<Rightarrow> log_entry list"

definition explained :: "leader_logs \<Rightarrow> log_entry list \<Rightarrow> bool" where
  "explained G xs \<longleftrightarrow> (\<forall>k < length xs. k < length (G (le_term (xs ! k))) \<and> take (Suc k) xs = take (Suc k) (G (le_term (xs ! k))))"

definition extends :: "leader_logs \<Rightarrow> leader_logs \<Rightarrow> bool" where
  "extends G G' \<longleftrightarrow> (\<forall>t. prefix (G t) (G' t))"

lemma extends_refl [simp]: "extends G G" by (simp add: extends_def)

lemma extends_upd: "prefix (G t) xs \<Longrightarrow> extends G (G(t := xs))"
  by (simp add: extends_def)

lemma prefix_take: "\<lbrakk>prefix xs ys; k \<le> length xs\<rbrakk> \<Longrightarrow> take k ys = take k xs"
  by (auto simp: prefix_def)

lemma explained_mono: "\<lbrakk>explained G xs; extends G G'\<rbrakk> \<Longrightarrow> explained G' xs"
  unfolding explained_def extends_def
  by (metis Suc_leI less_le_trans prefix_length_le prefix_take)

lemma explained_Nil [simp]: "explained G []" by (simp add: explained_def)

lemma explained_length:
  assumes "explained G xs" "\<And>t. length (G t) + 1 < b" "1 < b"
  shows "length xs + 1 < b"
proof (cases "xs = []")
  case False
  then have "length xs - 1 < length (G (le_term (xs ! (length xs - 1))))" using assms(1) by (simp add: explained_def)
  with assms(2) [of "le_term (xs ! (length xs - 1))"] show ?thesis by linarith
qed (use assms(3) in simp)

lemma explained_take: "explained G xs \<Longrightarrow> explained G (take m xs)"
  unfolding explained_def by (simp add: min_def)

lemma explained_snoc:
  assumes "explained G xs" "G t = xs" "le_term e = t"
  shows "explained (G(t := xs @ [e])) (xs @ [e])"
proof -
  have "explained (G(t := xs @ [e])) xs" using assms(1,2) by (intro explained_mono [OF assms(1)] extends_upd) simp
  note old = this [unfolded explained_def, rule_format]
  show ?thesis
    unfolding explained_def
  proof (intro allI impI)
    fix k assume k: "k < length (xs @ [e])"
    let ?G = "G(t := xs @ [e])" and ?ys = "xs @ [e]"
    show "k < length (?G (le_term (?ys ! k))) \<and> take (Suc k) ?ys = take (Suc k) (?G (le_term (?ys ! k)))"
    proof (cases "k < length xs")
      case True
      then have "?ys ! k = xs ! k" "take (Suc k) ?ys = take (Suc k) xs" by (simp_all add: nth_append)
      with old [OF True] show ?thesis by (simp only:)
    next
      case False
      then show ?thesis using k assms(3) by (simp add: nth_append)
    qed
  qed
qed

text \<open>Logs that are explained match.\<close>

lemma explained_matching: "\<lbrakk>explained G xs; explained G ys\<rbrakk> \<Longrightarrow> log_matching xs ys"
  by (auto simp: explained_def log_matching_def)

text \<open>Two explained logs with an entry of the same term at a position agree up to it.\<close>

lemma explained_agree:
  "\<lbrakk>explained G xs; explained G ys; k < length xs; k < length ys; le_term (xs ! k) = le_term (ys ! k)\<rbrakk>
    \<Longrightarrow> take (Suc k) xs = take (Suc k) ys"
  by (auto simp: explained_def)

section \<open>Requests under way\<close>

fun beat_req :: "beat_pc \<Rightarrow> append_entries_req list" where
  "beat_req (BSend p req ps) = [req]"
| "beat_req _ = []"

fun call_req :: "call_pc \<Rightarrow> append_entries_req list" where
  "call_req (CAsk req acks ps) = [req]"
| "call_req (CGot req acks resp ps) = [req]"
| "call_req (CBeat hb ps) = [hb]"
| "call_req (CBeatGot hb resp ps) = [hb]"
| "call_req _ = []"

definition sent :: "cluster \<Rightarrow> append_entries_req set" where
  "sent c = (\<Union>i. set (beat_req (cl_beat c i)) \<union> \<Union> (set ` call_req ` set (cl_calls c i)))"

definition pending_request :: "cluster \<Rightarrow> bool" where
  "pending_request c \<longleftrightarrow> (\<exists>i e. CAppended e \<in> set (cl_calls c i))"

text \<open>The entries of a request are a piece of the log of the leader of its term.\<close>

definition request_ok :: "leader_logs \<Rightarrow> append_entries_req \<Rightarrow> bool" where
  "request_ok G req \<longleftrightarrow> (ae_entries req \<noteq> [] \<longrightarrow>
     (let l = G (ae_term req); k = unat (ae_prev_index req); m = length (ae_entries req)
      in k + m \<le> length l \<and> ae_entries req = take m (drop k l) \<and> ae_prev_term req = (if k = 0 then 0 else le_term (l ! (k - 1)))))"

lemma request_ok_mono: "\<lbrakk>request_ok G req; extends G G'\<rbrakk> \<Longrightarrow> request_ok G' req"
proof -
  assume r: "request_ok G req" and "extends G G'"
  then obtain zs where "G' (ae_term req) = G (ae_term req) @ zs" by (auto simp: extends_def prefix_def)
  with r show "request_ok G' req" by (auto simp: request_ok_def Let_def nth_append)
qed

lemma request_ok_empty: "ae_entries req = [] \<Longrightarrow> request_ok G req"
  by (simp add: request_ok_def)

text \<open>Requests that a leader builds from its log.\<close>

lemma built_request_ok:
  assumes "G (rn_term n) = rn_log n" "length (rn_log n) + 1 < 2 ^ 64"
  shows "request_ok G (BuildAppendEntries n p)"
proof -
  define nx where "nx = (case map_of (rn_next n) p of None \<Rightarrow> 1 | Some i \<Rightarrow> i)"
  show ?thesis
  proof (cases "1 \<le> nx \<and> nx \<le> word_of_nat (length (rn_log n))")
    case False
    then show ?thesis by (intro request_ok_empty) (auto simp: BuildAppendEntries_def nx_def Let_def)
  next
    case True
    define k where "k = unat nx"
    have len: "unat (word_of_nat (length (rn_log n)) :: u64) = length (rn_log n)" using assms(2) by (intro unat_small) simp
    have k: "1 \<le> k" "k \<le> length (rn_log n)" "nx = word_of_nat k"
      using True len by (auto simp: k_def word_le_nat_alt)
    have u: "unat (nx - 1) = k - 1" and w: "nx - 1 = word_of_nat (k - 1)"
      using word_pred [of k] k assms(2) unat_small [of "k - 1"] by simp_all
    have prev: "(if nx = 0 \<or> nx = 1 then 0 else nx - 1) = nx - 1" using k(1) by (auto simp: k_def)
    have "TermAt n (nx - 1) = (if k - 1 = 0 then 0 else le_term (rn_log n ! (k - 1 - 1)))"
      using TermAt_nth [of n "k - 1"] k assms(2) by (auto simp: w)
    then show ?thesis
      using True u k assms(1) prev
      by (auto simp: request_ok_def BuildAppendEntries_def nx_def [symmetric] Let_def)
  qed
qed

lemma proposed_request_ok:
  assumes "G (rn_term n) = rn_log n" "rn_log n = xs @ [e]" "length (rn_log n) + 1 < 2 ^ 64"
  shows "request_ok G (propose_request n e)"
proof -
  have w: "LastLogIndex n - 1 = word_of_nat (length xs)"
    using word_pred [of "length xs + 1"] assms(2,3) by (simp add: LastLogIndex_def)
  have u: "unat (word_of_nat (length xs) :: u64) = length xs" using assms(2,3) by (intro unat_small) simp
  have "TermAt n (word_of_nat (length xs)) = (if length xs = 0 then 0 else le_term (rn_log n ! (length xs - 1)))"
    using TermAt_nth [of n "length xs"] assms(2,3) by auto
  then show ?thesis using assms(1,2) by (simp add: request_ok_def propose_request_def w u Let_def)
qed

text \<open>A follower that accepts a request has a log explained by the same leaders.\<close>

lemma accepted_explained:
  assumes "explained G (rn_log n)" "\<And>t. explained G (G t)" "request_ok G req" "length (rn_log n) < 2 ^ 64"
    and "OnAppendEntries n req = (n', resp)"
  shows "explained G (rn_log n')"
proof (cases "aer_success resp \<and> ae_entries req \<noteq> []")
  case False
  with append_entries_effect [OF assms(4,5)] have "rn_log n' = rn_log n" by auto
  with assms(1) show ?thesis by simp
next
  case True
  let ?k = "unat (ae_prev_index req)" and ?l = "G (ae_term req)"
  have acc: "?k \<le> length (rn_log n)" "TermAt n (ae_prev_index req) = ae_prev_term req"
    "rn_log n' = take ?k (rn_log n) @ ae_entries req"
    using append_entries_effect [OF assms(4,5)] True by auto
  have req: "?k + length (ae_entries req) \<le> length ?l" "ae_entries req = take (length (ae_entries req)) (drop ?k ?l)"
    "ae_prev_term req = (if ?k = 0 then 0 else le_term (?l ! (?k - 1)))"
    using assms(3) True by (auto simp: request_ok_def Let_def)
  have "take ?k (rn_log n) = take ?k ?l"
  proof (cases "?k = 0")
    case False
    then have "le_term (rn_log n ! (?k - 1)) = le_term (?l ! (?k - 1))"
      using acc(2) req(3) TermAt_nth [of n ?k] acc(1) assms(4) by simp
    from explained_agree [OF assms(1) assms(2) _ _ this] False acc(1) req(1) show ?thesis by simp
  qed simp
  then have "rn_log n' = take (?k + length (ae_entries req)) ?l"
    using acc(3) req(2) by (simp add: take_add)
  then show ?thesis using explained_take [OF assms(2)] by simp
qed

section \<open>The invariant\<close>

text \<open>A term has had a leader: it won the votes of the term, and is past being its candidate.\<close>

definition led :: "int list \<Rightarrow> (int \<Rightarrow> u64 \<Rightarrow> int option) \<Rightarrow> (int \<Rightarrow> raft_node) \<Rightarrow> u64 \<Rightarrow> bool" where
  "led I V N t \<longleftrightarrow> (\<exists>i. majority I {p \<in> set I. V p t = Some i}
     \<and> (t < rn_term (N i) \<or> t = rn_term (N i) \<and> rn_role (N i) \<noteq> Candidate))"

definition logs_ok :: "int list \<Rightarrow> (int \<Rightarrow> u64 \<Rightarrow> int option) \<Rightarrow> leader_logs \<Rightarrow> cluster \<Rightarrow> bool" where
  "logs_ok I V G c \<longleftrightarrow> (\<forall>i. explained G (rn_log (cl_nodes c i)))
     \<and> (\<forall>t. explained G (G t) \<and> length (G t) + 1 < 2 ^ 64 \<and> (G t \<noteq> [] \<longrightarrow> led I V (cl_nodes c) t))
     \<and> (\<forall>i. rn_role (cl_nodes c i) = Leader \<longrightarrow> G (rn_term (cl_nodes c i)) = rn_log (cl_nodes c i))
     \<and> (\<forall>req \<in> sent c. request_ok G req) \<and> \<not> pending_request c"

text \<open>A node does not become a candidate of a term it has been in.\<close>

definition candidate_moves :: "raft_node \<Rightarrow> raft_node \<Rightarrow> bool" where
  "candidate_moves n n' \<longleftrightarrow> (rn_role n' = Candidate \<longrightarrow> rn_role n = Candidate \<and> rn_term n' = rn_term n \<or> rn_term n < rn_term n')"

lemma led_update:
  assumes "led I V N t" "votes_kept V V'" "node_grows (N p) n" "candidate_moves (N p) n"
  shows "led I V' (N(p := n)) t"
proof -
  obtain i where i: "majority I {q \<in> set I. V q t = Some i}" "t < rn_term (N i) \<or> t = rn_term (N i) \<and> rn_role (N i) \<noteq> Candidate"
    using assms(1) by (auto simp: led_def)
  have "majority I {q \<in> set I. V' q t = Some i}"
    using i(1) by (rule maj.more_votes) (use assms(2) in \<open>simp add: votes_kept_def\<close>)
  moreover have "t < rn_term ((N(p := n)) i) \<or> t = rn_term ((N(p := n)) i) \<and> rn_role ((N(p := n)) i) \<noteq> Candidate"
    using i(2) assms(3,4) by (auto simp: node_grows_def candidate_moves_def)
  ultimately show ?thesis unfolding led_def by blast
qed

text \<open>One node changes; the log of the leader of its term may grow if it is that leader.\<close>

lemma logs_ok_step:
  assumes ok: "logs_ok I V G c" and V': "votes_kept V V'" "elect_inv I V' c'" and ext: "extends G G'"
    and nodes: "cl_nodes c' = (cl_nodes c)(p := n)"
    and n: "node_grows (cl_nodes c p) n" "candidate_moves (cl_nodes c p) n" "explained G' (rn_log n)"
    and lead: "rn_role n = Leader \<Longrightarrow> G' (rn_term n) = rn_log n"
    and new: "\<And>t. G' t \<noteq> G t \<Longrightarrow> rn_role n = Leader \<and> t = rn_term n \<and> length (rn_log n) + 1 < 2 ^ 64"
    and req: "\<And>req. req \<in> sent c' \<Longrightarrow> req \<in> sent c \<or> request_ok G' req" and pend: "\<not> pending_request c'"
  shows "logs_ok I V' G' c'"
proof -
  have logs: "explained G' (rn_log (cl_nodes c' i))" for i
    using ok n(3) explained_mono [OF _ ext] by (auto simp: logs_ok_def nodes)
  have won: "majority I {q \<in> set I. V' q (rn_term (cl_nodes c' i)) = Some i}" if "rn_role (cl_nodes c' i) = Leader" for i
    using V'(2) that by (auto simp: elect_inv_def vote_inv_def)
  have "explained G' (G' t) \<and> length (G' t) + 1 < 2 ^ 64 \<and> (G' t \<noteq> [] \<longrightarrow> led I V' (cl_nodes c') t)" for t
  proof (cases "G' t = G t")
    case True
    then show ?thesis
      using ok explained_mono [OF _ ext, of "G t"] led_update [where N = "cl_nodes c" and p = p, OF _ V'(1) n(1,2), of I t] by (simp add: logs_ok_def nodes)
  next
    case False
    with new have t: "rn_role n = Leader" "t = rn_term n" "length (rn_log n) + 1 < 2 ^ 64" by auto
    then have "led I V' (cl_nodes c') t" using won [of p] unfolding led_def by (intro exI [of _ p]) (simp add: nodes)
    with t lead n(3) show ?thesis by simp
  qed
  moreover have "G' (rn_term (cl_nodes c' i)) = rn_log (cl_nodes c' i)" if l: "rn_role (cl_nodes c' i) = Leader" for i
  proof (cases "i = p")
    case False
    have "G' (rn_term (cl_nodes c i)) = G (rn_term (cl_nodes c i))"
    proof (rule ccontr)
      assume "G' (rn_term (cl_nodes c i)) \<noteq> G (rn_term (cl_nodes c i))"
      with new have "rn_role n = Leader" "rn_term (cl_nodes c i) = rn_term n" by blast+
      then have "i = p" using won [of p] won [OF l] False by (intro maj.one_winner) (auto simp: nodes)
      with False show False ..
    qed
    with ok l False show ?thesis by (simp add: logs_ok_def nodes)
  qed (use l lead in \<open>simp add: nodes\<close>)
  moreover have "request_ok G' r" if "r \<in> sent c'" for r
    using req [OF that] ok request_ok_mono [OF _ ext] by (auto simp: logs_ok_def)
  ultimately show ?thesis using logs pend by (simp add: logs_ok_def)
qed

lemma logs_ok_log:
  assumes "logs_ok I V G c" "votes_kept V V'" "elect_inv I V' c'"
    and "cl_nodes c' = (cl_nodes c)(p := n)" "node_grows (cl_nodes c p) n" "no_new_leader (cl_nodes c p) n"
    and "candidate_moves (cl_nodes c p) n" "rn_log n = rn_log (cl_nodes c p)"
    and "\<And>req. req \<in> sent c' \<Longrightarrow> req \<in> sent c \<or> request_ok G req" "\<not> pending_request c'"
  shows "logs_ok I V' G c'"
  by (rule logs_ok_step [OF assms(1-3) extends_refl assms(4,5,7) _ _ _ assms(9,10)])
    (use assms(1,6,8) in \<open>auto simp: logs_ok_def no_new_leader_def\<close>)

lemma logs_ok_same:
  assumes "logs_ok I V G c" "votes_kept V V'" "elect_inv I V' c'" "cl_nodes c' = cl_nodes c"
    and "\<And>req. req \<in> sent c' \<Longrightarrow> req \<in> sent c \<or> request_ok G req" "\<not> pending_request c'"
  shows "logs_ok I V' G c'"
  by (rule logs_ok_log [OF assms(1-3), of 0 "cl_nodes c 0"]) (use assms(4-6) in \<open>auto simp: candidate_moves_def\<close>)

lemma logs_ok_D:
  assumes "logs_ok I V G c"
  shows "explained G (rn_log (cl_nodes c i))" "explained G (G t)" "length (rn_log (cl_nodes c i)) + 1 < 2 ^ 64"
    "rn_role (cl_nodes c i) = Leader \<Longrightarrow> G (rn_term (cl_nodes c i)) = rn_log (cl_nodes c i)"
    "req \<in> sent c \<Longrightarrow> request_ok G req" "\<not> pending_request c" "G t \<noteq> [] \<Longrightarrow> led I V (cl_nodes c) t"
  using assms explained_length [of G _ "2 ^ 64"] by (auto simp: logs_ok_def)

section \<open>Steps\<close>

named_theorems log_kept \<open>sections that leave the log alone, and never make a candidate in the same term\<close>

lemma sections_log [log_kept]:
  "OnRequestVote n rv = (n', rvr) \<Longrightarrow> rn_log n' = rn_log n \<and> candidate_moves n n'"
  "propose_reply n aer acks = (n', r) \<Longrightarrow> rn_log n' = rn_log n \<and> candidate_moves n n'"
  "heartbeat_ack n aer = (n', b) \<Longrightarrow> rn_log n' = rn_log n \<and> candidate_moves n n'"
  "election_reply n t rvr votes = (n', votes', b) \<Longrightarrow> rn_log n' = rn_log n \<and> candidate_moves n n'"
  "apply_take n = (n', res) \<Longrightarrow> rn_log n' = rn_log n \<and> candidate_moves n n'"
  by (auto simp: OnRequestVote_def propose_reply_def heartbeat_ack_def apply_take_def election_reply_def BecomeFollower_def
      BecomeLeader_def candidate_moves_def Let_def split: if_splits)

lemma heartbeat_reply_log [log_kept]:
  "heartbeat_reply n p req resp = (n', b) \<Longrightarrow> rn_log n' = rn_log n \<and> candidate_moves n n'"
  by (auto simp: heartbeat_reply_def BecomeFollower_def candidate_moves_def Let_def split: if_splits option.splits)

lemma election_start_log [log_kept]:
  "\<lbrakk>election_start n = (n', r); rn_term n + 1 \<noteq> 0\<rbrakk> \<Longrightarrow> rn_log n' = rn_log n \<and> candidate_moves n n'"
  using less_Suc_term [of "rn_term n"]
  by (auto simp: election_start_def BecomeCandidate_def candidate_moves_def Let_def)

lemma append_roles:
  "OnAppendEntries n req = (n', resp) \<Longrightarrow> candidate_moves n n' \<and> (rn_role n' = Leader \<longrightarrow> n' = n)"
  by (auto simp: OnAppendEntries_def BecomeFollower_def candidate_moves_def Let_def split: if_splits)

lemma sent_cong: "\<lbrakk>cl_beat c' = cl_beat c; cl_calls c' = cl_calls c\<rbrakk> \<Longrightarrow> sent c' = sent c"
  by (simp add: sent_def)

lemma pending_cong: "cl_calls c' = cl_calls c \<Longrightarrow> pending_request c' = pending_request c"
  by (simp add: pending_request_def)

lemma sent_frame [simp]:
  "sent (set_node i n c) = sent c" "sent (c\<lparr>cl_elect := e\<rparr>) = sent c" "sent (c\<lparr>cl_applied := a\<rparr>) = sent c"
  "sent (c\<lparr>cl_up := u\<rparr>) = sent c" "sent ((set_node i n c)\<lparr>cl_beat := b\<rparr>) = sent (c\<lparr>cl_beat := b\<rparr>)"
  "pending_request (set_node i n c) = pending_request c" "pending_request (c\<lparr>cl_elect := e\<rparr>) = pending_request c"
  "pending_request (c\<lparr>cl_applied := a\<rparr>) = pending_request c" "pending_request (c\<lparr>cl_up := u\<rparr>) = pending_request c"
  "pending_request (c\<lparr>cl_beat := b\<rparr>) = pending_request c" "pending_request (c\<lparr>cl_nodes := N\<rparr>) = pending_request c"
  by (simp_all add: sent_def pending_request_def set_node_def)

lemma sent_beat: "req \<in> sent (c\<lparr>cl_beat := (cl_beat c)(i := b)\<rparr>) \<Longrightarrow> req \<in> sent c \<or> req \<in> set (beat_req b)"
  by (auto simp: sent_def split: if_splits)

lemma sent_call: "req \<in> sent (set_call i k pc c) \<Longrightarrow> req \<in> sent c \<or> req \<in> set (call_req pc)"
  by (auto simp: sent_def set_call_def split: if_splits dest!: set_update_subset_insert [THEN subsetD])

lemma pending_call: "\<lbrakk>pending_request (set_call i k pc c); \<And>e. pc \<noteq> CAppended e\<rbrakk> \<Longrightarrow> pending_request c"
  by (auto simp: pending_request_def set_call_def split: if_splits dest!: set_update_subset_insert [THEN subsetD])

lemma transport_append_parts:
  "transport_append c p req = (c1, resp) \<Longrightarrow> cl_beat c1 = cl_beat c \<and> cl_calls c1 = cl_calls c \<and> cl_elect c1 = cl_elect c
     \<and> (cl_nodes c1 = cl_nodes c \<or> (\<exists>n. OnAppendEntries (cl_nodes c p) req = (n, resp) \<and> cl_nodes c1 = (cl_nodes c)(p := n)))"
  by (auto simp: transport_append_def set_node_def split: if_splits prod.splits)

lemma logs_ok_transport:
  assumes ok: "logs_ok I V G c" and V': "votes_kept V V'" "elect_inv I V' c'" and tr: "transport_append c p req = (c1, resp)"
    and req: "request_ok G req" and c': "cl_nodes c' = cl_nodes c1"
    and sent: "\<And>req. req \<in> sent c' \<Longrightarrow> req \<in> sent c \<or> request_ok G req" "\<not> pending_request c'"
  shows "logs_ok I V' G c'"
proof (cases "cl_nodes c1 = cl_nodes c")
  case True
  with c' sent show ?thesis by (intro logs_ok_same [OF ok V']) auto
next
  case False
  then obtain n where n: "OnAppendEntries (cl_nodes c p) req = (n, resp)" "cl_nodes c' = (cl_nodes c)(p := n)"
    using transport_append_parts [OF tr] c' by auto
  have "explained G (rn_log n)"
    using logs_ok_D(3) [OF ok, of p] by (intro accepted_explained [OF logs_ok_D(1,2) [OF ok] req _ n(1)]) simp
  with append_roles [OF n(1)] append_change [OF n(1)] logs_ok_D(4) [OF ok] sent show ?thesis
    by (intro logs_ok_step [OF ok V' extends_refl n(2)]) auto
qed

lemma logs_ok_beat:
  assumes ok: "logs_ok I V G c" and V': "votes_kept V V'" "elect_inv I V' (beat_step i c)"
  shows "logs_ok I V' G (beat_step i c)"
proof (cases "cl_beat c i")
  case BIdle
  then show ?thesis
    using logs_ok_D(6) [OF ok]
    by (intro logs_ok_same [OF ok V']) (auto simp: beat_step_def dest!: sent_beat split: if_splits)
next
  case (BPeers ps)
  have "request_ok G (BuildAppendEntries (cl_nodes c i) p)" if "rn_role (cl_nodes c i) = Leader" for p
    using logs_ok_D(3,4) [OF ok] that by (intro built_request_ok) auto
  with BPeers show ?thesis
    using logs_ok_D(6) [OF ok]
    by (intro logs_ok_same [OF ok V']) (auto simp: beat_step_def dest!: sent_beat split: if_splits list.splits)
next
  case (BSend p req ps)
  obtain c1 resp where tr: "transport_append c p req = (c1, resp)" by fastforce
  note parts = transport_append_parts [OF tr]
  have step: "beat_step i c = c1\<lparr>cl_beat := (cl_beat c1)(i := BGot p req resp ps)\<rparr>" by (simp add: beat_step_def BSend tr)
  have "req \<in> sent c" using BSend by (auto simp: sent_def intro!: exI [of _ i])
  note r = logs_ok_D(5) [OF ok this]
  have c1: "sent c1 = sent c" "\<not> pending_request c1"
    using sent_cong [of c1 c] pending_cong [of c1 c] parts logs_ok_D(6) [OF ok] by simp_all
  show ?thesis
    unfolding step
  proof (rule logs_ok_transport [OF ok V'(1) V'(2) [unfolded step] tr r])
    show "x \<in> sent c \<or> request_ok G x" if "x \<in> sent (c1\<lparr>cl_beat := (cl_beat c1)(i := BGot p req resp ps)\<rparr>)" for x
      using sent_beat [OF that] c1(1) by simp
  qed (use c1(2) in simp_all)
next
  case (BGot p req resp ps)
  obtain n go_on where rep: "heartbeat_reply (cl_nodes c i) p req resp = (n, go_on)" by fastforce
  have step: "beat_step i c = (set_node i n c)\<lparr>cl_beat := (cl_beat c)(i := if go_on then BPeers ps else BIdle)\<rparr>"
    by (simp add: beat_step_def BGot rep)
  show ?thesis
    unfolding step
  proof (rule logs_ok_log [OF ok V'(1) V'(2) [unfolded step], of i n])
    show "x \<in> sent c \<or> request_ok G x"
      if "x \<in> sent ((set_node i n c)\<lparr>cl_beat := (cl_beat c)(i := if go_on then BPeers ps else BIdle)\<rparr>)" for x
      using sent_beat [OF that [unfolded sent_frame(5)]] by (simp split: if_splits)
  qed (use heartbeat_reply_change [OF rep] heartbeat_reply_log [OF rep] logs_ok_D(6) [OF ok] in \<open>simp_all add: set_node_def\<close>)
qed

text \<open>The client calls: a request under way is sent, or the call moves on.\<close>

lemma logs_ok_call_send:
  assumes ok: "logs_ok I V G c" and V': "votes_kept V V'" "elect_inv I V' (set_call i k pc c1)"
    and tr: "transport_append c p req = (c1, resp)" and req: "req \<in> sent c"
    and pc: "\<And>r. r \<in> set (call_req pc) \<Longrightarrow> r = req" "\<And>e. pc \<noteq> CAppended e"
  shows "logs_ok I V' G (set_call i k pc c1)"
proof -
  note parts = transport_append_parts [OF tr]
  have c1: "sent c1 = sent c" "\<not> pending_request c1"
    using sent_cong [of c1 c] pending_cong [of c1 c] parts logs_ok_D(6) [OF ok] by simp_all
  show ?thesis
  proof (rule logs_ok_transport [OF ok V' tr logs_ok_D(5) [OF ok req]])
    show "x \<in> sent c \<or> request_ok G x" if "x \<in> sent (set_call i k pc c1)" for x
      using sent_call [OF that] c1(1) pc(1) req by auto
    show "\<not> pending_request (set_call i k pc c1)" using pending_call [OF _ pc(2)] c1(2) by blast
  qed simp
qed

lemma logs_ok_call_node:
  assumes ok: "logs_ok I V G c" and V': "votes_kept V V'" "elect_inv I V' (set_call i k pc (set_node i n c))"
    and n: "node_grows (cl_nodes c i) n \<and> no_new_leader (cl_nodes c i) n" "rn_log n = rn_log (cl_nodes c i) \<and> candidate_moves (cl_nodes c i) n"
    and pc: "\<And>r. r \<in> set (call_req pc) \<Longrightarrow> r \<in> sent c \<or> request_ok G r" "\<And>e. pc \<noteq> CAppended e"
  shows "logs_ok I V' G (set_call i k pc (set_node i n c))"
proof (rule logs_ok_log [OF ok V', of i n])
  show "x \<in> sent c \<or> request_ok G x" if "x \<in> sent (set_call i k pc (set_node i n c))" for x
    using sent_call [OF that] pc(1) by auto
  show "\<not> pending_request (set_call i k pc (set_node i n c))"
    using pending_call [OF _ pc(2), of i k "set_node i n c"] logs_ok_D(6) [OF ok] by auto
qed (use n in \<open>simp_all add: set_node_def\<close>)

lemma logs_ok_call_same:
  assumes "logs_ok I V G c" "votes_kept V V'" "elect_inv I V' (set_call i k pc c)"
    and "\<And>r. r \<in> set (call_req pc) \<Longrightarrow> r \<in> sent c \<or> request_ok G r" "\<And>e. pc \<noteq> CAppended e"
  shows "logs_ok I V' G (set_call i k pc c)"
proof -
  have "set_node i (cl_nodes c i) c = c" by (simp add: set_node_def)
  then show ?thesis
    using logs_ok_call_node [of I V G c V' i k pc "cl_nodes c i"] assms by (simp add: candidate_moves_def)
qed

lemma sent_of_call: "\<lbrakk>k < length (cl_calls c i); r \<in> set (call_req (cl_calls c i ! k))\<rbrakk> \<Longrightarrow> r \<in> sent c"
  unfolding sent_def by (blast intro: nth_mem)

lemma logs_ok_call_step:
  assumes ok: "logs_ok I V G c" and V': "votes_kept V V'" "elect_inv I V' (call_step i k c)"
  shows "logs_ok I V' G (call_step i k c)"
proof (cases "k < length (cl_calls c i)")
  case False
  then have "call_step i k c = c" by (simp add: call_step_def)
  then show ?thesis using logs_ok_same [OF ok V'(1), of c] V'(2) logs_ok_D(6) [OF ok] by simp
next
  case True
  note s = sent_of_call [OF True]
  show ?thesis
  proof (cases "cl_calls c i ! k")
    case (CAppended e)
    then have False using logs_ok_D(6) [OF ok] True nth_mem [OF True] by (auto simp: pending_request_def)
    then show ?thesis ..
  next
    case (CAsk req acks ps)
    show ?thesis
    proof (cases ps)
      case Nil
      then have "call_step i k c = set_call i k (if acks < votes_needed (cl_nodes c i) then CDone False else CCommit) c"
        using True CAsk by (simp add: call_step_def)
      with V' show ?thesis by (simp only:) (rule logs_ok_call_same [OF ok], auto split: if_splits)
    next
      case (Cons p qs)
      obtain c1 resp where tr: "transport_append c p req = (c1, resp)" by fastforce
      have "call_step i k c = set_call i k (CGot req acks resp qs) c1" using True CAsk Cons tr by (simp add: call_step_def)
      with V' s CAsk show ?thesis by (simp only:) (rule logs_ok_call_send [OF ok _ _ tr], auto)
    qed
  next
    case (CGot req acks resp ps)
    obtain n r where rep: "propose_reply (cl_nodes c i) resp acks = (n, r)" by fastforce
    define pc where "pc = (case r of Inl b \<Rightarrow> CDone b | Inr (acks', stop) \<Rightarrow> CAsk req acks' (if stop then [] else ps))"
    have step: "call_step i k c = set_call i k pc (set_node i n c)" using True CGot rep by (simp add: call_step_def pc_def)
    have pc: "x \<in> set (call_req pc) \<Longrightarrow> x = req" "pc \<noteq> CAppended e" for x e by (auto simp: pc_def split: sum.splits)
    show ?thesis
      unfolding step using V'(2) s CGot pc
      by (intro logs_ok_call_node [OF ok V'(1) _ propose_reply_change [OF rep] sections_log(2) [OF rep]]) (auto simp: step)
  next
    case CCommit
    then have "call_step i k c = set_call i k (CBeat (propose_heartbeat (cl_nodes c i)) (rn_peers (cl_nodes c i))) c"
      using True by (simp add: call_step_def)
    with V' show ?thesis
      by (simp only:) (rule logs_ok_call_same [OF ok], auto intro!: request_ok_empty simp: propose_heartbeat_def)
  next
    case (CBeat hb ps)
    show ?thesis
    proof (cases ps)
      case Nil
      then have "call_step i k c = set_call i k (CDone True) c" using True CBeat by (simp add: call_step_def)
      with V' show ?thesis by (simp only:) (rule logs_ok_call_same [OF ok], auto)
    next
      case (Cons p qs)
      obtain c1 resp where tr: "transport_append c p hb = (c1, resp)" by fastforce
      have "call_step i k c = set_call i k (CBeatGot hb resp qs) c1" using True CBeat Cons tr by (simp add: call_step_def)
      with V' s CBeat show ?thesis by (simp only:) (rule logs_ok_call_send [OF ok _ _ tr], auto)
    qed
  next
    case (CBeatGot hb resp ps)
    obtain n go_on where rep: "heartbeat_ack (cl_nodes c i) resp = (n, go_on)" by fastforce
    have step: "call_step i k c = set_call i k (if go_on then CBeat hb ps else CDone True) (set_node i n c)"
      using True CBeatGot rep by (simp add: call_step_def)
    show ?thesis
      unfolding step using V'(2) s CBeatGot
      by (intro logs_ok_call_node [OF ok V'(1) _ heartbeat_ack_change [OF rep] sections_log(3) [OF rep]])
        (auto simp: step split: if_splits)
  next
    case (CDone b)
    then have "call_step i k c = c" using True by (simp add: call_step_def)
    then show ?thesis using logs_ok_same [OF ok V'(1), of c] V'(2) logs_ok_D(6) [OF ok] by simp
  qed
qed

text \<open>The election thread: a new leader of a term finds no entry of that term anywhere.\<close>

lemma new_leader_log:
  assumes ok: "logs_ok I V G c" and kept: "votes_kept V V'" and won: "majority I {q \<in> set I. V' q t = Some i}"
    and cand: "rn_role (cl_nodes c i) = Candidate" "rn_term (cl_nodes c i) = t"
  shows "G t = []"
proof (rule ccontr)
  assume "G t \<noteq> []"
  then obtain j where j: "majority I {p \<in> set I. V p t = Some j}"
    "t < rn_term (cl_nodes c j) \<or> t = rn_term (cl_nodes c j) \<and> rn_role (cl_nodes c j) \<noteq> Candidate"
    using logs_ok_D(7) [OF ok] by (auto simp: led_def)
  have "majority I {p \<in> set I. V' p t = Some j}"
    using j(1) by (rule maj.more_votes) (use kept in \<open>simp add: votes_kept_def\<close>)
  then have "j = i" using won by (rule maj.one_winner)
  with j(2) cand show False by simp
qed

lemma logs_ok_elect_got:
  assumes ok: "logs_ok I V G c" and rep: "election_reply (cl_nodes c i) t resp votes = (n, votes', go_on)"
    and c': "c' = (set_node i n c)\<lparr>cl_elect := e\<rparr>" and V': "votes_kept V V'" "elect_inv I V' c'"
  shows "\<exists>G'. logs_ok I V' G' c'"
proof (cases "no_new_leader (cl_nodes c i) n")
  case True
  then have "logs_ok I V' G c'"
    using logs_ok_D(6) [OF ok] election_reply_change [OF rep] sections_log(4) [OF rep]
    by (intro logs_ok_log [OF ok V', of i n]) (simp_all add: c' set_node_def sent_def)
  then show ?thesis by blast
next
  case False
  then have n: "n = BecomeLeader (cl_nodes c i)" "rn_role (cl_nodes c i) = Candidate"
    using rep by (auto simp: election_reply_def no_new_leader_def BecomeFollower_def Let_def split: if_splits)
  then have f: "rn_role n = Leader" "rn_term n = rn_term (cl_nodes c i)" "rn_log n = rn_log (cl_nodes c i)"
    by (simp_all add: BecomeLeader_def)
  have nodes: "cl_nodes c' = (cl_nodes c)(i := n)" by (simp add: c' set_node_def)
  have "vote_inv I V' ((cl_nodes c)(i := n))" using V'(2) by (simp add: elect_inv_def nodes)
  then have "majority I {q \<in> set I. V' q (rn_term n) = Some i}" using f(1) by (auto simp: vote_inv_def dest: spec [of _ i])
  then have none: "G (rn_term n) = []" using new_leader_log [OF ok V'(1)] n(2) f(2) by simp
  then have ext: "extends G (G(rn_term n := rn_log n))" by (intro extends_upd) simp
  have "logs_ok I V' (G(rn_term n := rn_log n)) c'"
  proof (rule logs_ok_step [OF ok V' ext nodes election_reply_change [OF rep]])
    show "explained (G(rn_term n := rn_log n)) (rn_log n)"
      using explained_mono [OF logs_ok_D(1) [OF ok] ext, of i] f(3) by simp
    show "rn_role n = Leader \<and> t' = rn_term n \<and> length (rn_log n) + 1 < 2 ^ 64" if "(G(rn_term n := rn_log n)) t' \<noteq> G t'" for t'
      using that f logs_ok_D(3) [OF ok, of i] by (auto split: if_splits)
  qed (use sections_log(4) [OF rep] logs_ok_D(6) [OF ok] in \<open>simp_all add: c' sent_def set_node_def\<close>)
  then show ?thesis by blast
qed

lemma logs_ok_elect:
  assumes ok: "logs_ok I V G c" and V': "votes_kept V V'" "elect_inv I V' (elect_step i c)"
    and t: "rn_term (cl_nodes c i) + 1 \<noteq> 0"
  shows "\<exists>G'. logs_ok I V' G' (elect_step i c)"
proof (cases "cl_elect c i")
  case EIdle
  show ?thesis
  proof (cases "rn_role (cl_nodes c i) = Leader")
    case True
    then have "elect_step i c = c" using EIdle by (simp add: elect_step_def)
    then show ?thesis using logs_ok_same [OF ok V'(1), of c] V'(2) logs_ok_D(6) [OF ok] by auto
  next
    case False
    obtain n r where st: "election_start (cl_nodes c i) = (n, r)" by fastforce
    have step: "elect_step i c = (set_node i n c)\<lparr>cl_elect := (cl_elect c)(i := EAsk r 1 (rn_peers n))\<rparr>"
      using EIdle False st by (simp add: elect_step_def)
    have "logs_ok I V' G (elect_step i c)"
      using election_start_change [OF st t] election_start_log [OF st t] logs_ok_D(6) [OF ok]
      by (intro logs_ok_log [OF ok V', of i n]) (simp_all add: step set_node_def sent_def)
    then show ?thesis by blast
  qed
next
  case (EAsk r votes ps)
  show ?thesis
  proof (cases ps)
    case Nil
    then have "logs_ok I V' G (elect_step i c)"
      using EAsk logs_ok_D(6) [OF ok] by (intro logs_ok_same [OF ok V']) (simp_all add: elect_step_def)
    then show ?thesis by blast
  next
    case (Cons p qs)
    obtain c1 resp where tr: "transport_vote c p r = (c1, resp)" by fastforce
    have step: "elect_step i c = c1\<lparr>cl_elect := (cl_elect c1)(i := EGot r votes resp qs)\<rparr>"
      using EAsk Cons tr by (simp add: elect_step_def)
    show ?thesis
    proof (cases "p \<in> set (cl_up c)")
      case True
      then obtain n where n: "OnRequestVote (cl_nodes c p) r = (n, resp)" "c1 = set_node p n c"
        using tr by (auto simp: transport_vote_def split: prod.splits)
      have "logs_ok I V' G (elect_step i c)"
        using vote_change [OF n(1)] sections_log(1) [OF n(1)] logs_ok_D(6) [OF ok]
        by (intro logs_ok_log [OF ok V', of p n]) (simp_all add: step n(2) set_node_def sent_def)
      then show ?thesis by blast
    next
      case False
      then have "c1 = c" using tr by (auto simp: transport_vote_def)
      then have "logs_ok I V' G (elect_step i c)"
        using logs_ok_D(6) [OF ok] by (intro logs_ok_same [OF ok V']) (simp_all add: step)
      then show ?thesis by blast
    qed
  qed
next
  case (EGot r votes resp ps)
  obtain n votes' go_on where rep: "election_reply (cl_nodes c i) (rv_term r) resp votes = (n, votes', go_on)"
    by (metis prod_cases3)
  have step: "elect_step i c = (set_node i n c)\<lparr>cl_elect := (cl_elect c)(i := if go_on then EAsk r votes' ps else EIdle)\<rparr>"
    using EGot rep by (simp add: elect_step_def)
  show ?thesis by (rule logs_ok_elect_got [OF ok rep step V'])
qed

text \<open>A proposal that builds its request at once.\<close>

lemma serial_call_effect:
  assumes "propose_append (cl_nodes c i) op key val = Some (n, e)"
  shows "cl_nodes (serial_call i op key val c) = (cl_nodes c)(i := n)"
    "cl_calls (serial_call i op key val c) = (cl_calls c)(i := cl_calls c i @ [CAsk (propose_request n e) 1 (rn_peers n)])"
    "cl_beat (serial_call i op key val c) = cl_beat c"
  using assms by (simp_all add: serial_call_def call_start_def call_step_def set_call_def set_node_def)

lemma logs_ok_serial:
  assumes ok: "logs_ok I V G c" and V': "votes_kept V V'" "elect_inv I V' (serial_call i op key val c)"
    and room: "length (rn_log (cl_nodes c i)) + 2 < 2 ^ 64"
  shows "\<exists>G'. logs_ok I V' G' (serial_call i op key val c)"
proof (cases "propose_append (cl_nodes c i) op key val")
  case None
  then have eq: "cl_nodes (serial_call i op key val c) = cl_nodes c" "cl_beat (serial_call i op key val c) = cl_beat c"
    "cl_calls (serial_call i op key val c) = (cl_calls c)(i := cl_calls c i @ [CDone False])"
    by (simp_all add: serial_call_def call_start_def call_step_def)
  have "logs_ok I V' G (serial_call i op key val c)"
    using eq logs_ok_D(6) [OF ok]
    by (intro logs_ok_same [OF ok V']) (auto simp: sent_def pending_request_def split: if_splits)
  then show ?thesis by blast
next
  case (Some ne)
  then obtain n e where pa: "propose_append (cl_nodes c i) op key val = Some (n, e)" by (cases ne) simp
  then have l: "rn_role (cl_nodes c i) = Leader" "rn_role n = Leader" "rn_term n = rn_term (cl_nodes c i)"
    "rn_log n = rn_log (cl_nodes c i) @ [e]" "le_term e = rn_term n"
    by (auto simp: propose_append_def IsLeader_def Let_def split: if_splits)
  let ?G = "G(rn_term n := rn_log n)"
  have G: "G (rn_term n) = rn_log (cl_nodes c i)" using logs_ok_D(4) [OF ok l(1)] l(3) by simp
  have ext: "extends G ?G" using G l(4) by (intro extends_upd) simp
  have req: "request_ok ?G (propose_request n e)"
    using room l(4) by (intro proposed_request_ok [where xs = "rn_log (cl_nodes c i)"]) simp_all
  note eff = serial_call_effect [OF pa]
  have "logs_ok I V' ?G (serial_call i op key val c)"
  proof (rule logs_ok_step [OF ok V' ext eff(1)])
    show "node_grows (cl_nodes c i) n" using propose_append_change [OF pa] by simp
    show "candidate_moves (cl_nodes c i) n" using l by (simp add: candidate_moves_def)
    show "explained ?G (rn_log n)" using explained_snoc [OF logs_ok_D(1) [OF ok] G l(5)] l(4) by simp
    show "rn_role n = Leader \<and> t = rn_term n \<and> length (rn_log n) + 1 < 2 ^ 64" if "?G t \<noteq> G t" for t
      using that l room by (auto split: if_splits)
    show "x \<in> sent c \<or> request_ok ?G x" if "x \<in> sent (serial_call i op key val c)" for x
      using that req by (auto simp: sent_def eff(2,3) split: if_splits)
    show "\<not> pending_request (serial_call i op key val c)"
      using logs_ok_D(6) [OF ok] by (auto simp: pending_request_def eff(2) split: if_splits)
  qed simp
  then show ?thesis by blast
qed

lemma serial_elect_next:
  assumes "elect_inv I V c"
  shows "elect_next I V (serial_call i op key val c)"
proof -
  obtain V1 where V1: "votes_kept V V1" "elect_inv I V1 (call_start i op key val c)"
    using elect_inv_quiet [OF assms quiet_call [of c i op key val]] by (auto simp: elect_next_def)
  obtain V2 where V2: "votes_kept V1 V2" "elect_inv I V2 (serial_call i op key val c)"
    using elect_inv_quiet [OF V1(2) quiet_call_step [of _ i "length (cl_calls c i)"]] by (auto simp: elect_next_def serial_call_def)
  from V1(1) V2(1) have "votes_kept V V2" by (simp add: votes_kept_def)
  with V2(2) show ?thesis unfolding elect_next_def by blast
qed

lemma serial_reach_logs: "serial_reach I c \<Longrightarrow> \<exists>V G. elect_inv I V c \<and> logs_ok I V G c"
proof (induction rule: serial_reach.induct)
  case (Init c)
  have "logs_ok I (\<lambda>_ _. None) (\<lambda>_. []) c"
    using Init by (auto simp: logs_ok_def cluster_init_def raft_new_def sent_def pending_request_def)
  with elect_inv_init [OF Init] show ?case by blast
next
  case (Step c a)
  then obtain V G where inv: "elect_inv I V c" "logs_ok I V G c" by blast
  have "distinct I" using raft_reach_distinct [OF serial_reach_reach [OF Step.hyps(1)]] .
  then obtain V' where V': "votes_kept V V'" "elect_inv I V' (raft_act a c)"
    using raft_act_inv [OF inv(1) _ Step.hyps(2)] by (auto simp: elect_next_def)
  have "\<exists>G'. logs_ok I V' G' (raft_act a c)"
  proof (cases a)
    case (Elect i)
    then show ?thesis using logs_ok_elect [OF inv(2) V'(1), of i] V'(2) Step.hyps(2) by simp
  next
    case (Beat i)
    then show ?thesis using logs_ok_beat [OF inv(2) V'(1), of i] V'(2) by auto
  next
    case (Call i op key val)
    then show ?thesis using Step.hyps(3) by simp
  next
    case (Call_step i k)
    then show ?thesis using logs_ok_call_step [OF inv(2) V'(1), of i k] V'(2) by auto
  next
    case (Apply i)
    obtain n r where tk: "apply_take (cl_nodes c i) = (n, r)" by fastforce
    have "logs_ok I V' G (apply_step i c)"
    proof (cases r)
      case (ApplyEntry e)
      then show ?thesis
        using V' Apply tk apply_take_change [OF tk] sections_log(5) [OF tk] logs_ok_D(6) [OF inv(2)]
        by (intro logs_ok_log [OF inv(2), of _ _ i n]) (simp_all add: apply_step_def set_node_def sent_def)
    qed (use V' Apply tk logs_ok_same [OF inv(2) V'(1), of c] logs_ok_D(6) [OF inv(2)] in \<open>simp_all add: apply_step_def\<close>)
    then show ?thesis using Apply by auto
  next
    case (Up i)
    then have "logs_ok I V' G (raft_act a c)"
      using logs_ok_D(6) [OF inv(2)] by (intro logs_ok_same [OF inv(2) V']) (simp_all add: transport_register_def)
    then show ?thesis by blast
  next
    case (Down i)
    then have "logs_ok I V' G (raft_act a c)"
      using logs_ok_D(6) [OF inv(2)] by (intro logs_ok_same [OF inv(2) V']) (simp_all add: transport_unregister_def)
    then show ?thesis by blast
  qed
  with V'(2) show ?case by blast
next
  case (Propose c i op key val)
  then obtain V G where inv: "elect_inv I V c" "logs_ok I V G c" by blast
  obtain V' where V': "votes_kept V V'" "elect_inv I V' (serial_call i op key val c)"
    using serial_elect_next [OF inv(1), of i op key val] by (auto simp: elect_next_def)
  with logs_ok_serial [OF inv(2) V' Propose.hyps(3)] show ?case by blast
qed

section \<open>Properties\<close>

text \<open>
  C4. Log matching: in runs in which nothing at all happens between the critical section of a proposal that appends the
  entry and the one that builds the request (\<^const>\<open>serial_reach\<close>), the logs of any two nodes agree up to
  every position at which they have entries of the same term, under every interleaving of everything else: votes,
  deliveries, replies, heartbeats, applying, nodes going up and down.  That the request is built before the
  next call starts would not be enough.
\<close>

theorem logs_match:
  assumes "serial_reach I c" and "k < length (rn_log (cl_nodes c i))" "k < length (rn_log (cl_nodes c j))"
    and "le_term (rn_log (cl_nodes c i) ! k) = le_term (rn_log (cl_nodes c j) ! k)"
  shows "take (Suc k) (rn_log (cl_nodes c i)) = take (Suc k) (rn_log (cl_nodes c j))"
proof -
  obtain V G where "logs_ok I V G c" using serial_reach_logs [OF assms(1)] by blast
  from explained_agree [OF logs_ok_D(1,1) [OF this] assms(2-4)] show ?thesis .
qed

text \<open>A serial schedule, executable.\<close>

fun serial_run :: "int list \<Rightarrow> raft_action list \<Rightarrow> cluster \<Rightarrow> cluster option" where
  "serial_run I [] c = Some c"
| "serial_run I (Call i op key val # as) c =
     (if i \<in> set I \<and> int (length (rn_log (cl_nodes c i))) + 2 < 2 ^ 64 then serial_run I as (serial_call i op key val c) else None)"
| "serial_run I (a # as) c = (if action_ok I c a then serial_run I as (raft_act a c) else None)"

lemma serial_run_reach: "\<lbrakk>serial_run I as c = Some c'; serial_reach I c\<rbrakk> \<Longrightarrow> serial_reach I c'"
proof (induction I as c rule: serial_run.induct)
  case (2 I i op key val as c)
  then show ?case using serial_reach.Propose by (auto split: if_splits)
qed (auto split: if_splits intro: serial_reach.Step simp del: raft_act.simps action_ok.simps)

definition matching_schedule :: "raft_action list" where
  "matching_schedule = [Elect 1, Elect 1, Elect 1, Call 1 OpPut ''a'' ''1'', Call 1 OpPut ''b'' ''2'', Call_step 1 0, Call_step 1 1,
     Beat 1, Beat 1, Beat 1, Beat 1, Beat 1]"

theorem logs_match_witness:
  "let c = the (serial_run [1, 2, 3] matching_schedule (cluster_start [1, 2, 3]))
   in length (rn_log (cl_nodes c 1)) = 2 \<and> length (rn_log (cl_nodes c 2)) = 2
      \<and> take (Suc 1) (rn_log (cl_nodes c 1)) = take (Suc 1) (rn_log (cl_nodes c 2))"
proof -
  let ?r = "serial_run [1, 2, 3] matching_schedule (cluster_start [1, 2, 3])"
  have r: "?r \<noteq> None \<and> map le_term (rn_log (cl_nodes (the ?r) 1)) = [1, 1] \<and> map le_term (rn_log (cl_nodes (the ?r) 2)) = [1, 1]"
    by code_simp
  have run: "?r = Some (the ?r)" by (rule option.collapse [OF conjunct1 [OF r], symmetric])
  have start: "serial_reach [1, 2, 3] (cluster_start [1, 2, 3])"
    by (rule serial_reach.Init) (simp add: cluster_init_def cluster_start_def)
  have reach: "serial_reach [1, 2, 3] (the ?r)" by (rule serial_run_reach [OF run start])
  define c where "c = the ?r"
  have c: "length (rn_log (cl_nodes c 1)) = 2" "length (rn_log (cl_nodes c 2)) = 2"
    "le_term (rn_log (cl_nodes c 1) ! 1) = le_term (rn_log (cl_nodes c 2) ! 1)"
    using r [folded c_def] by (auto simp: map_eq_Cons_conv)
  with logs_match [OF reach [folded c_def], of 1 1 2] show ?thesis unfolding c_def [symmetric] by (simp only: Let_def)
qed

text \<open>
  When two proposals on the leader interleave, the first sends its entry with the position of the second: after the schedule
  the leader has the commands \<open>a\<close> and \<open>b\<close>, a follower has \<open>a\<close> twice, all four in the same term.
\<close>

definition interleaved_proposals :: "raft_action list" where
  "interleaved_proposals = [Elect 1, Elect 1, Elect 1, Call 1 OpPut ''a'' ''1'', Beat 1, Beat 1, Beat 1, Beat 1,
     Call 1 OpPut ''b'' ''2'', Call_step 1 0, Call_step 1 0]"

theorem interleaved_proposals_mismatch:
  "\<exists>c. raft_reach [1, 2, 3] c \<and> map le_key (rn_log (cl_nodes c 1)) = [''a'', ''b''] \<and> map le_key (rn_log (cl_nodes c 2)) = [''a'', ''a'']
     \<and> map le_term (rn_log (cl_nodes c 1)) = map le_term (rn_log (cl_nodes c 2))"
proof -
  let ?r = "raft_run [1, 2, 3] interleaved_proposals (cluster_start [1, 2, 3])"
  have r: "?r \<noteq> None \<and> map le_key (rn_log (cl_nodes (the ?r) 1)) = [''a'', ''b''] \<and> map le_key (rn_log (cl_nodes (the ?r) 2)) = [''a'', ''a'']
      \<and> map le_term (rn_log (cl_nodes (the ?r) 1)) = map le_term (rn_log (cl_nodes (the ?r) 2))"
    by code_simp
  have start: "raft_reach [1, 2, 3] (cluster_start [1, 2, 3])" by (rule cluster_start_reach) simp
  have run: "?r = Some (the ?r)" by (rule option.collapse [OF conjunct1 [OF r], symmetric])
  note reach = raft_run_reach [OF start run]
  define c where "c = the ?r"
  show ?thesis by (rule exI [of _ c], unfold c_def) (rule conjI [OF reach conjunct2 [OF r]])
qed

end
