(* ===== verification/Spec2Isabelle.thy ===== *)
theory Spec2Isabelle
  imports Cli Demos Kv_Checkpoint Network Object_Demos Raft_Demo Raft_Log
begin

text \<open>
  Verification of VeriStore, a log-structured key-value store in C++ with a write-ahead log, background
  flushing, compaction, multi-version reads, a Raft layer and an object store on top.

  \<^bold>\<open>The program.\<close>  \<^verbatim>\<open>KVStore\<close> (\<^verbatim>\<open>src/kv_store.cpp\<close>) keeps the latest value of every key in a hash map, and all versions
  in a MemTable.  A write goes to the buffer of the write-ahead log, then to both; the buffer reaches the disk
  every few writes.  A full MemTable is frozen and handed to the flush worker, a thread that writes it as
  an SSTable and appends its name to the manifest; the store picks up the finished table at the next snapshot
  read and merges the two oldest tables when there are four.  Opening replays the log and loads the
  manifest.  \<^verbatim>\<open>ObjectStore\<close> cuts objects into chunks and stores chunks and metadata as ordinary keys.  \<^verbatim>\<open>RaftNode\<close>s
  elect a leader and replicate commands over an in-process transport into stores; two servers offer a line
  protocol, and a command-line tool, demonstrations and benchmarks use the parts directly.

  \<^bold>\<open>Theories.\<close>
  \<^item> \<^verbatim>\<open>Prelude\<close>, \<^verbatim>\<open>Cxx_Text\<close>, \<^verbatim>\<open>File_System\<close>: lists, words and record formats; the text functions of the C++ library the
    program uses; files with injected failures (denied opens, short writes, failed syncs and renames).
  \<^item> \<^verbatim>\<open>Crc32\<close>, \<^verbatim>\<open>Wal\<close>: \<^verbatim>\<open>src/wal.cpp\<close>.  The table-driven checksum is CRC-32; replay inverts the encoding, stops in front
    of a damaged record, and sees a prefix of the buffer whatever way a flush fails.
  \<^item> \<^verbatim>\<open>Memtable\<close>, \<^verbatim>\<open>Bloom_Filter\<close>, \<^verbatim>\<open>Sstable\<close>, \<^verbatim>\<open>Compactor\<close>, \<^verbatim>\<open>Manifest\<close>: the files of the same names.  Snapshot reads, no false
    negatives and no index out of range, a table read back through index and filter, merges that answer every
    read as before, an atomic change of the manifest.
  \<^item> \<^verbatim>\<open>Flush_Worker\<close>: \<^verbatim>\<open>src/flush_worker.cpp\<close>, the thread as a machine with a program counter; stopping drains the queue.
  \<^item> \<^verbatim>\<open>Kv_Store\<close>: every operation of \<^verbatim>\<open>src/kv_store.cpp\<close> on a record of the object's fields.  \<^verbatim>\<open>Kv_Invariant\<close> and
    \<^verbatim>\<open>Kv_Operations\<close> relate a state to the history of accepted writes; \<^verbatim>\<open>Kv_Open\<close> opens a store on the files an earlier
    process left; \<^verbatim>\<open>Kv_System\<close> lets operations, flush thread, crashes and restarts interleave and reads off that \<^verbatim>\<open>get\<close> and
    \<^verbatim>\<open>get_at\<close> answer from the history; \<^verbatim>\<open>Kv_Recovery\<close> stops the process at any point and opens the files again;
    \<^verbatim>\<open>Kv_Checkpoint\<close> does so after a checkpoint, and shows that one taken during a flush loses data and that a table can
    outlive the log records of its writes.
  \<^item> \<^verbatim>\<open>Raft\<close>, \<^verbatim>\<open>Raft_Cluster\<close>: \<^verbatim>\<open>src/raft.cpp\<close> and \<^verbatim>\<open>src/raft_transport.cpp\<close>, one definition per critical section, and the threads
    of all nodes as a transition system.  \<^verbatim>\<open>Raft_Election\<close>: at most one leader per term, final votes, entries
    applied by position.  \<^verbatim>\<open>Raft_Replication\<close>: what an accepted proposal means, elections that succeed,
    heartbeats that repair a log, and a schedule on which two state machines diverge.  \<^verbatim>\<open>Raft_Log\<close>: the logs of two
    nodes match when nothing happens between the append and the request of a proposal, and an overlap after which they do not.
  \<^item> \<^verbatim>\<open>Object_Store\<close>, \<^verbatim>\<open>Object_Laws\<close>, \<^verbatim>\<open>Object_Recovery\<close>: \<^verbatim>\<open>src/object_store.cpp\<close> with its key codec; upload and download, atomic
    uploads, deletion, listing, garbage collection.
  \<^item> \<^verbatim>\<open>Server\<close>, \<^verbatim>\<open>Network\<close>: \<^verbatim>\<open>src/server_main.cpp\<close>, \<^verbatim>\<open>src/cluster_demo.cpp\<close> and \<^verbatim>\<open>src/kv_client.cpp\<close>.  The command handlers, the framing
    of lines, the store behind a node; then the accept loops and the client, which follows a redirection to the leader.
  \<^item> \<^verbatim>\<open>Session\<close>, \<^verbatim>\<open>Cli\<close>: a process that calls the store while the flush thread runs, and the command-line tool
    \<^verbatim>\<open>src/main.cpp\<close>, which prints what a map from keys to values allows and finds its flushed writes again.
  \<^item> \<^verbatim>\<open>Object_Session\<close>: a process that uses the object store, on every disk, and a short one on a disk that works.
  \<^item> \<^verbatim>\<open>Benchmarks\<close>, \<^verbatim>\<open>Demos\<close>, \<^verbatim>\<open>Mvcc_Demo\<close>, \<^verbatim>\<open>Object_Demos\<close>, \<^verbatim>\<open>Raft_Demo\<close>: the benchmarks and demonstrations, as functions from the disk and
    the schedule to disk, exit status and printed text, with theorems on what they print.
  \<^item> This theory: an upload interrupted by a crash, which involves the object store, the store and the log.

  \<^bold>\<open>Interfaces.\<close>  \<^verbatim>\<open>record_format\<close> (a self-delimiting encoding) is interpreted on the log's records; \<^verbatim>\<open>std_sort\<close> (what
  \<^verbatim>\<open>std::sort\<close> promises the compactor) on a stable sort, and every theorem about compaction holds for any function
  with this contract; \<^verbatim>\<open>quorum_system\<close> on the majorities of a cluster; \<^verbatim>\<open>key_value\<close> (what the object store needs from
  the store below) on the model of \<^verbatim>\<open>KVStore\<close>.

  \<^bold>\<open>Bounds.\<close>  Sequence numbers, table ids, terms and indices are 64-bit words; the premises exclude that a counter
  wraps around.  Lengths in a log record are 32-bit words, so keys and values are shorter than \<open>2 ^ 32\<close>.  The only
  fuel is in \<^const>\<open>fresh_output\<close>: one attempt more than there are tables, which is proved to be enough.  Keys without
  white space and values without newlines or leading blanks are premises of everything that reads SSTables,
  whose text format cannot represent others.

  \<^bold>\<open>Runs.\<close>  The theorems about histories of the store speak of the states of \<^const>\<open>kv_run\<close>: put, del, get, get_at,
  flush, the flush thread and compaction in any order, on a disk that works, from an empty directory; checkpoints and \<^verbatim>\<open>Apply\<close>
  are not among the steps (\<^verbatim>\<open>Kv_Checkpoint\<close> treats a checkpoint by itself), and the process stops between critical
  sections.  Failing and torn writes are treated at the level of the log, the manifest, the command-line tool and the
  demonstrations.  A run does not continue after an opening that finds a table with writes of a lost log buffer or that gives
  out the id of a table in use; both happen in the code and are shown (\<^verbatim>\<open>table_outlives_log\<close>, \<^verbatim>\<open>open_reuses_table_name\<close>).  For a
  cluster, \<^verbatim>\<open>raft_reach\<close> interleaves all critical sections; \<^verbatim>\<open>serial_reach\<close> joins the first two of a proposal, and
  \<^verbatim>\<open>ProposePut\<close> as the server calls it runs all of them with no other thread in between (the interleaved version is
  \<^verbatim>\<open>call_start\<close> and \<^verbatim>\<open>call_step\<close>).

  \<^bold>\<open>Not modelled.\<close>  Errors of \<^verbatim>\<open>lseek\<close> and \<^verbatim>\<open>read\<close> while the log is replayed: only the end of the file and bad records stop it.  Timers and random timeouts of Raft, which only decide when a thread acts; the unsynchronised reads
  of \<^verbatim>\<open>role()\<close> and \<^verbatim>\<open>leader_id()\<close>, taken as atomic; log output.  Arguments of the model are the results of socket calls, the
  clock, \<^verbatim>\<open>std::hash\<close>, \<^verbatim>\<open>std::sort\<close>, and the text of measured times and floating-point numbers.
\<close>

section \<open>An upload and a crash\<close>



end
